(* ===== verification/Xv6_Prelude.thy ===== *)
theory Xv6_Prelude
  imports Main "HOL-Library.Word"
begin

text \<open>
  Shared vocabulary of the development: the machine integers of
  \<^verbatim>\<open>src/types.h\<close>, the constants of \<^verbatim>\<open>src/param.h\<close>, the outcome type that
  every kernel operation returns, the wait channels, and the generic facts on lists and on
  outcomes that the component theories use through the collections \<open>outcome_simps\<close>
  and \<open>runs_rules\<close>.
\<close>

unbundle bit_operations_syntax

named_theorems outcome_simps
named_theorems runs_rules
named_theorems frame_simps

section \<open>Machine integers\<close>

type_synonym u8 = "8 word"
type_synonym u16 = "16 word"
type_synonym u32 = "32 word"

text \<open>
  A C \<^verbatim>\<open>int\<close> is an \<^typ>\<open>int\<close>; \<open>i32\<close> is the two's complement
  wrap-around that 32-bit arithmetic performs on it.
\<close>

definition i32 :: "int \<Rightarrow> int" where
  "i32 x = signed_take_bit 31 x"

definition in_i32 :: "int \<Rightarrow> bool" where
  "in_i32 x \<longleftrightarrow> - (2 ^ 31) \<le> x \<and> x < 2 ^ 31"

lemma i32_id [simp]: "in_i32 x \<Longrightarrow> i32 x = x"
  by (simp add: i32_def in_i32_def signed_take_bit_int_eq_self)

lemma in_i32_i32 [simp]: "in_i32 (i32 x)"
proof -
  have "- (2 ^ 31) \<le> signed_take_bit 31 x"
    by (rule signed_take_bit_int_greater_eq_minus_exp)
  moreover have "signed_take_bit 31 x < 2 ^ 31"
    by (rule signed_take_bit_int_less_exp)
  ultimately show ?thesis
    by (simp add: i32_def in_i32_def)
qed

lemma in_i32_between: "a \<le> x \<Longrightarrow> x \<le> b \<Longrightarrow> in_i32 a \<Longrightarrow> in_i32 b \<Longrightarrow> in_i32 x"
  by (simp add: in_i32_def)

lemma unat_diff_Suc: "x \<noteq> a \<Longrightarrow> unat (x - a) = Suc (unat (x - (a + 1)))" for x a :: u32
  by unat_arith

lemma unat_u32_lt: "unat (x :: u32) < 4294967296"
  using unsigned_less[of x] by simp

lemma unat_u32_le [simp]: "unat (x :: u32) \<le> 4294967296"
  using unat_u32_lt[of x] by linarith

lemma unat_minus_one_u32 [simp]: "unat (- 1 :: u32) = 4294967295"
  by (simp add: unsigned_minus_1_eq_mask mask_eq_exp_minus_1)

lemma div_word_less: "\<not> (base \<le> 1 \<or> x div base = 0) \<Longrightarrow> unat (x div base) < unat x"
  for x base :: u32
proof -
  assume "\<not> (base \<le> 1 \<or> x div base = 0)"
  then have "1 < unat base" "x \<noteq> 0" by (auto simp: word_le_nat_alt not_le)
  then show ?thesis by (simp add: unat_div_distrib unat_gt_0)
qed

lemma sint_small:
  assumes "unat (x :: u32) < 2147483648"
  shows "sint x = int (unat x)"
proof -
  have "int (unat x) < int 2147483648" using assms by (simp only: of_nat_less_iff)
  then have b: "int (unat x) < 2147483648" by (simp only: of_nat_numeral)
  have "signed_take_bit 31 (int (unat x)) = int (unat x)"
  proof (rule signed_take_bit_int_eq_self)
    have "(2 :: int) ^ 31 = 2147483648" by simp
    then show "- (2 ^ 31) \<le> int (unat x)" "int (unat x) < 2 ^ 31" using b by linarith+
  qed
  moreover have "sint x = signed_take_bit 31 (int (unat x))" using sint_uint[of x] unfolding uint_nat by simp
  ultimately show ?thesis by (simp only:)
qed

section \<open>Parameters of the kernel\<close>

definition NPROC :: nat where "NPROC = 64"
definition KSTACKSIZE :: nat where "KSTACKSIZE = 4096"
definition NCPU :: nat where "NCPU = 8"
definition NOFILE :: nat where "NOFILE = 16"
definition NFILE :: nat where "NFILE = 100"
definition NINODE :: nat where "NINODE = 50"
definition NDEV :: nat where "NDEV = 10"
definition ROOTDEV :: nat where "ROOTDEV = 1"
definition MAXARG :: nat where "MAXARG = 32"
definition MAXOPBLOCKS :: nat where "MAXOPBLOCKS = 10"
definition LOGSIZE :: nat where "LOGSIZE = MAXOPBLOCKS * 3"
definition NBUF :: nat where "NBUF = MAXOPBLOCKS * 3"
definition FSSIZE :: nat where "FSSIZE = 1000"

lemmas param_defs = NPROC_def KSTACKSIZE_def NCPU_def NOFILE_def NFILE_def NINODE_def
  NDEV_def ROOTDEV_def MAXARG_def MAXOPBLOCKS_def LOGSIZE_def NBUF_def FSSIZE_def

section \<open>Wait channels\<close>

text \<open>
  A channel is the address a process sleeps on. The constructors are the objects the kernel
  sleeps on; distinct objects have distinct addresses.
\<close>

datatype chan =
    ChProc nat        \<comment> \<open>a \<^verbatim>\<open>struct proc\<close>, in \<^verbatim>\<open>wait\<close>\<close>
  | ChLog             \<comment> \<open>\<^verbatim>\<open>&log\<close>\<close>
  | ChBuf nat         \<comment> \<open>a \<^verbatim>\<open>struct buf\<close>, in \<^verbatim>\<open>iderw\<close>\<close>
  | ChBufLock nat     \<comment> \<open>the sleep-lock of a buffer\<close>
  | ChInodeLock nat   \<comment> \<open>the sleep-lock of an inode\<close>
  | ChPipeRead nat    \<comment> \<open>\<^verbatim>\<open>&p->nread\<close>\<close>
  | ChPipeWrite nat   \<comment> \<open>\<^verbatim>\<open>&p->nwrite\<close>\<close>
  | ChTicks           \<comment> \<open>\<^verbatim>\<open>&ticks\<close>\<close>
  | ChInput           \<comment> \<open>\<^verbatim>\<open>&input.r\<close>\<close>

section \<open>Outcomes of kernel operations\<close>

text \<open>
  An operation returns a value and a new state, calls \<^verbatim>\<open>panic\<close> with a message,
  goes to sleep on a channel (with the state at that point), or performs an access that C leaves
  undefined (a null pointer, an index outside an array).
\<close>

datatype ('a, 's) outcome =
    Ret 'a 's
  | Panic string
  | Block chan 's
  | Fault string

fun bindO :: "('a, 's) outcome \<Rightarrow> ('a \<Rightarrow> 's \<Rightarrow> ('b, 's) outcome) \<Rightarrow> ('b, 's) outcome" where
  "bindO (Ret a s) f = f a s"
| "bindO (Panic m) f = Panic m"
| "bindO (Block c s) f = Block c s"
| "bindO (Fault m) f = Fault m"

lemma bindO_cong [fundef_cong]:
  "m = m' \<Longrightarrow> (\<And>a s. m' = Ret a s \<Longrightarrow> f a s = g a s) \<Longrightarrow> bindO m f = bindO m' g"
  by (cases m') auto

lemma bindO_Ret_right [simp]: "bindO m Ret = m"
  by (cases m) auto

lemma bindO_assoc: "bindO (bindO m f) g = bindO m (\<lambda>a s. bindO (f a s) g)"
  by (cases m) auto

lemma bindO_eq_Ret [outcome_simps]:
  "bindO m f = Ret b t \<longleftrightarrow> (\<exists>a s. m = Ret a s \<and> f a s = Ret b t)"
  by (cases m) auto

lemma bindO_eq_Panic [outcome_simps]:
  "bindO m f = Panic e \<longleftrightarrow> m = Panic e \<or> (\<exists>a s. m = Ret a s \<and> f a s = Panic e)"
  by (cases m) auto

lemma bindO_eq_Block [outcome_simps]:
  "bindO m f = Block c t \<longleftrightarrow> m = Block c t \<or> (\<exists>a s. m = Ret a s \<and> f a s = Block c t)"
  by (cases m) auto

lemma bindO_eq_Fault [outcome_simps]:
  "bindO m f = Fault e \<longleftrightarrow> m = Fault e \<or> (\<exists>a s. m = Ret a s \<and> f a s = Fault e)"
  by (cases m) auto

text \<open>
  \<open>runs m P\<close> is total correctness: the operation returns, and its value and state satisfy
  \<open>P\<close>. It never holds of an operation that panics, faults or sleeps.
\<close>

fun runs :: "('a, 's) outcome \<Rightarrow> ('a \<Rightarrow> 's \<Rightarrow> bool) \<Rightarrow> bool" where
  "runs (Ret a s) P = P a s"
| "runs (Panic e) P = False"
| "runs (Block c s) P = False"
| "runs (Fault e) P = False"

lemma runs_iff: "runs m P \<longleftrightarrow> (\<exists>a s. m = Ret a s \<and> P a s)"
  by (cases m) auto

lemma runs_bindO [simp]: "runs (bindO m f) P \<longleftrightarrow> runs m (\<lambda>a s. runs (f a s) P)"
  by (cases m) auto

lemma runs_mono: "runs m Q \<Longrightarrow> (\<And>a s. Q a s \<Longrightarrow> P a s) \<Longrightarrow> runs m P"
  by (cases m) auto

lemma runs_conj: "runs m P \<Longrightarrow> runs m Q \<Longrightarrow> runs m (\<lambda>a s. P a s \<and> Q a s)"
  by (cases m) auto

lemma runs_bindI: "runs m Q \<Longrightarrow> (\<And>a s. Q a s \<Longrightarrow> runs (f a s) P) \<Longrightarrow> runs (bindO m f) P"
  by (cases m) auto

text \<open>
  \<open>keeps m P\<close> is partial correctness on the state: wherever the operation returns or goes
  to sleep, \<open>P\<close> holds of the state it leaves.
\<close>

fun keeps :: "('a, 's) outcome \<Rightarrow> ('s \<Rightarrow> bool) \<Rightarrow> bool" where
  "keeps (Ret a s) P = P s"
| "keeps (Block c s) P = P s"
| "keeps (Panic e) P = True"
| "keeps (Fault e) P = True"

lemma keeps_bindO:
  "keeps m P \<Longrightarrow> (\<And>a s. m = Ret a s \<Longrightarrow> P s \<Longrightarrow> keeps (f a s) P) \<Longrightarrow> keeps (bindO m f) P"
  by (cases m) auto

lemma keeps_mono: "keeps m Q \<Longrightarrow> (\<And>s. Q s \<Longrightarrow> P s) \<Longrightarrow> keeps m P"
  by (cases m) auto

section \<open>Arrays\<close>

text \<open>The first index from \<open>i\<close> on whose element satisfies \<open>P\<close>: the scan of a C array.\<close>

fun scan_from :: "nat \<Rightarrow> ('a \<Rightarrow> bool) \<Rightarrow> 'a list \<Rightarrow> nat option" where
  "scan_from i P [] = None"
| "scan_from i P (x # xs) = (if P x then Some i else scan_from (Suc i) P xs)"

definition scan :: "('a \<Rightarrow> bool) \<Rightarrow> 'a list \<Rightarrow> nat option" where
  "scan P xs = scan_from 0 P xs"

lemma scan_from_None [simp]: "scan_from i P xs = None \<longleftrightarrow> (\<forall>x \<in> set xs. \<not> P x)"
  by (induction i P xs rule: scan_from.induct) auto

lemma scan_from_Some:
  "scan_from i P xs = Some k \<longleftrightarrow>
     i \<le> k \<and> k - i < length xs \<and> P (xs ! (k - i)) \<and> (\<forall>j < k - i. \<not> P (xs ! j))"
proof (induction i P xs rule: scan_from.induct)
  case (1 i P)
  then show ?case by simp
next
  case (2 i P x xs)
  show ?case
  proof (cases "P x")
    case True
    then show ?thesis by (auto simp: nth_Cons split: nat.splits)
  next
    case False
    have "Suc i \<le> k \<Longrightarrow> k - i = Suc (k - Suc i)" by simp
    with False 2 show ?thesis
      by (cases "Suc i \<le> k") (auto simp: less_Suc_eq_0_disj le_less)
  qed
qed

lemma scan_None [simp]: "scan P xs = None \<longleftrightarrow> (\<forall>x \<in> set xs. \<not> P x)"
  by (simp add: scan_def)

lemma scan_Some:
  "scan P xs = Some k \<longleftrightarrow> k < length xs \<and> P (xs ! k) \<and> (\<forall>j < k. \<not> P (xs ! j))"
  by (simp add: scan_def scan_from_Some)

lemma scan_SomeD: "scan P xs = Some k \<Longrightarrow> k < length xs \<and> P (xs ! k)"
  by (simp add: scan_Some)

lemma nth_list_update_if:
  "i < length xs \<Longrightarrow> (xs[i := v]) ! j = (if i = j then v else xs ! j)"
  by simp

end
