(* ===== verification/CString.thy ===== *)
theory CString
  imports Xv6_Prelude
begin

text \<open>
  Byte-addressed memory and \<^verbatim>\<open>src/string.c\<close>, with the string instructions of
  \<^verbatim>\<open>src/x86.h\<close> it uses. A pointer is a 32-bit address and pointer arithmetic
  wraps; the lemmas say which ranges an operation changes and to what.
\<close>

section \<open>Memory\<close>

type_synonym memory = "u32 \<Rightarrow> u8"

definition load32 :: "memory \<Rightarrow> u32 \<Rightarrow> u32" where
  "load32 m a = ucast (m a) OR push_bit 8 (ucast (m (a + 1)))
     OR push_bit 16 (ucast (m (a + 2))) OR push_bit 24 (ucast (m (a + 3)))"

definition store32 :: "memory \<Rightarrow> u32 \<Rightarrow> u32 \<Rightarrow> memory" where
  "store32 m a v = m(a := ucast v, a + 1 := ucast (drop_bit 8 v),
     a + 2 := ucast (drop_bit 16 v), a + 3 := ucast (drop_bit 24 v))"

definition bytes_at :: "memory \<Rightarrow> u32 \<Rightarrow> nat \<Rightarrow> u8 list" where
  "bytes_at m p n = map (\<lambda>i. m (p + of_nat i)) [0..<n]"

text \<open>The bytes at \<open>p\<close> are the string \<open>xs\<close> and its terminating zero.\<close>

definition cstr_at :: "memory \<Rightarrow> u32 \<Rightarrow> u8 list \<Rightarrow> bool" where
  "cstr_at m p xs \<longleftrightarrow> bytes_at m p (length xs) = xs \<and> 0 \<notin> set xs \<and> m (p + of_nat (length xs)) = 0"

section \<open>The string instructions\<close>

fun stosb :: "memory \<Rightarrow> u32 \<Rightarrow> u8 \<Rightarrow> nat \<Rightarrow> memory" where
  "stosb m addr data 0 = m"
| "stosb m addr data (Suc cnt) = stosb (m(addr := data)) (addr + 1) data cnt"

fun stosl :: "memory \<Rightarrow> u32 \<Rightarrow> u32 \<Rightarrow> nat \<Rightarrow> memory" where
  "stosl m addr data 0 = m"
| "stosl m addr data (Suc cnt) = stosl (store32 m addr data) (addr + 4) data cnt"

section \<open>string.c\<close>

definition memset :: "memory \<Rightarrow> u32 \<Rightarrow> u32 \<Rightarrow> u32 \<Rightarrow> memory" where
  "memset m dst c n =
     (if dst mod 4 = 0 \<and> n mod 4 = 0
      then let c = c AND 0xFF
           in stosl m dst (push_bit 24 c OR push_bit 16 c OR push_bit 8 c OR c) (unat (n div 4))
      else stosb m dst (ucast c) (unat n))"

fun memcmp_loop :: "memory \<Rightarrow> u32 \<Rightarrow> u32 \<Rightarrow> nat \<Rightarrow> int" where
  "memcmp_loop m s1 s2 0 = 0"
| "memcmp_loop m s1 s2 (Suc n) =
     (if m s1 \<noteq> m s2 then uint (m s1) - uint (m s2) else memcmp_loop m (s1 + 1) (s2 + 1) n)"

definition memcmp :: "memory \<Rightarrow> u32 \<Rightarrow> u32 \<Rightarrow> u32 \<Rightarrow> int" where
  "memcmp m v1 v2 n = memcmp_loop m v1 v2 (unat n)"

fun copy_down :: "memory \<Rightarrow> u32 \<Rightarrow> u32 \<Rightarrow> nat \<Rightarrow> memory" where
  "copy_down m d s 0 = m"
| "copy_down m d s (Suc n) = copy_down (m(d - 1 := m (s - 1))) (d - 1) (s - 1) n"

fun copy_up :: "memory \<Rightarrow> u32 \<Rightarrow> u32 \<Rightarrow> nat \<Rightarrow> memory" where
  "copy_up m d s 0 = m"
| "copy_up m d s (Suc n) = copy_up (m(d := m s)) (d + 1) (s + 1) n"

definition memmove :: "memory \<Rightarrow> u32 \<Rightarrow> u32 \<Rightarrow> u32 \<Rightarrow> memory" where
  "memmove m dst src n =
     (if src < dst \<and> dst < src + n
      then copy_down m (dst + n) (src + n) (unat n)
      else copy_up m dst src (unat n))"

definition memcpy :: "memory \<Rightarrow> u32 \<Rightarrow> u32 \<Rightarrow> u32 \<Rightarrow> memory" where
  "memcpy m dst src n = memmove m dst src n"

fun strncmp_loop :: "memory \<Rightarrow> u32 \<Rightarrow> u32 \<Rightarrow> nat \<Rightarrow> int" where
  "strncmp_loop m p q 0 = 0"
| "strncmp_loop m p q (Suc n) =
     (if m p \<noteq> 0 \<and> m p = m q then strncmp_loop m (p + 1) (q + 1) n
      else uint (m p) - uint (m q))"

definition strncmp :: "memory \<Rightarrow> u32 \<Rightarrow> u32 \<Rightarrow> u32 \<Rightarrow> int" where
  "strncmp m p q n = strncmp_loop m p q (unat n)"

text \<open>
  \<^verbatim>\<open>strncpy\<close> and \<^verbatim>\<open>safestrcpy\<close> take an \<^verbatim>\<open>int\<close> count; a
  count that is not positive copies nothing. The loops are on the remaining count.
\<close>

fun strncpy_loop :: "memory \<Rightarrow> u32 \<Rightarrow> u32 \<Rightarrow> nat \<Rightarrow> memory" where
  "strncpy_loop m s t 0 = m"
| "strncpy_loop m s t (Suc n) =
     (let m' = m(s := m t) in if m t \<noteq> 0 then strncpy_loop m' (s + 1) (t + 1) n
      else stosb m' (s + 1) 0 n)"

definition strncpy :: "memory \<Rightarrow> u32 \<Rightarrow> u32 \<Rightarrow> int \<Rightarrow> memory" where
  "strncpy m s t n = strncpy_loop m s t (nat n)"

fun safestrcpy_loop :: "memory \<Rightarrow> u32 \<Rightarrow> u32 \<Rightarrow> nat \<Rightarrow> memory" where
  "safestrcpy_loop m s t 0 = m"
| "safestrcpy_loop m s t (Suc n) =
     (if n = 0 then m(s := 0)
      else let m' = m(s := m t) in
        if m t \<noteq> 0 then safestrcpy_loop m' (s + 1) (t + 1) n else m'(s + 1 := 0))"

definition safestrcpy :: "memory \<Rightarrow> u32 \<Rightarrow> u32 \<Rightarrow> int \<Rightarrow> memory" where
  "safestrcpy m s t n = (if n \<le> 0 then m else safestrcpy_loop m s t (nat n))"

text \<open>\<^verbatim>\<open>strlen\<close> has no bound: it does not return on memory that holds no zero.\<close>

partial_function (option) strlen_loop :: "memory \<Rightarrow> u32 \<Rightarrow> nat \<Rightarrow> nat option" where
  "strlen_loop m s n = (if m (s + of_nat n) \<noteq> 0 then strlen_loop m s (Suc n) else Some n)"

definition strlen :: "memory \<Rightarrow> u32 \<Rightarrow> nat option" where
  "strlen m s = strlen_loop m s 0"

section \<open>List versions\<close>

text \<open>
  The file system keeps names in fixed arrays of bytes. These are the comparison and the copy
  above on the arrays themselves; \<open>strncmp_loop_list\<close> and
  \<open>bytes_at_strncpy_loop\<close> relate them to the memory versions.
\<close>

fun strncmp_list :: "u8 list \<Rightarrow> u8 list \<Rightarrow> int" where
  "strncmp_list (x # xs) (y # ys) =
     (if x \<noteq> 0 \<and> x = y then strncmp_list xs ys else uint x - uint y)"
| "strncmp_list _ _ = 0"

definition cname :: "u8 list \<Rightarrow> u8 list" where
  "cname xs = takeWhile (\<lambda>c. c \<noteq> 0) xs"

definition strncpy_list :: "nat \<Rightarrow> u8 list \<Rightarrow> u8 list" where
  "strncpy_list n xs = take n (cname xs @ replicate n 0)"

definition disjoint_at :: "u32 \<Rightarrow> u32 \<Rightarrow> nat \<Rightarrow> bool" where
  "disjoint_at s t n \<longleftrightarrow> (\<forall>i < n. \<forall>j < n. s + of_nat i \<noteq> t + of_nat j)"

section \<open>What the routines compute\<close>

lemma stosb_apply:
  "n \<le> 2 ^ 32 \<Longrightarrow> stosb m a d n x = (if unat (x - a) < n then d else m x)"
proof (induction m a d n rule: stosb.induct)
  case (1 m a d)
  then show ?case by simp
next
  case (2 m a d n)
  have "stosb (m(a := d)) (a + 1) d n x = (if unat (x - (a + 1)) < n then d else (m(a := d)) x)"
    using "2.prems" by (intro "2.IH") simp
  with "2.prems" show ?case
    by (cases "x = a") (simp_all add: unat_diff_Suc)
qed

lemma store32_byte:
  fixes c :: u32
  assumes "c = c AND 0xFF"
  shows "store32 m a (push_bit 24 c OR push_bit 16 c OR push_bit 8 c OR c) =
    m(a := ucast c, a + 1 := ucast c, a + 2 := ucast c, a + 3 := ucast c)"
proof -
  have "bit c i \<Longrightarrow> i < 8" for i
  proof -
    assume "bit c i"
    then have "bit (c AND 0xFF) i" using assms by simp
    then have "bit (0xFF :: u32) i" by (simp add: bit_and_iff)
    moreover have "(0xFF :: u32) = mask 8" by (simp add: mask_eq_exp_minus_1)
    ultimately show "i < 8" by (metis bit_mask_iff)
  qed
  then have nb: "8 \<le> i \<Longrightarrow> \<not> bit c i" for i by force
  let ?v = "push_bit 24 c OR push_bit 16 c OR push_bit 8 c OR c"
  have "ucast (drop_bit k ?v) = (ucast c :: u8)" if "k \<in> {0, 8, 16, 24}" for k
  proof (rule bit_eqI)
    fix i
    assume "possible_bit TYPE(u8) i"
    then have i: "i < 8" by (simp add: possible_bit_word)
    then show "bit (ucast (drop_bit k ?v) :: u8) i = bit (ucast c :: u8) i"
      using that by (auto simp: bit_ucast_iff bit_drop_bit_eq bit_or_iff bit_push_bit_iff nb)
  qed
  from this[of 0] this[of 8] this[of 16] this[of 24] show ?thesis
    by (simp add: store32_def)
qed

lemma stosl_stosb:
  fixes c :: u32
  assumes "c = c AND 0xFF"
  shows "stosl m a (push_bit 24 c OR push_bit 16 c OR push_bit 8 c OR c) k = stosb m a (ucast c) (4 * k)"
proof (induction k arbitrary: m a)
  case 0
  then show ?case by simp
next
  case (Suc k)
  have n: "4 * Suc k = Suc (Suc (Suc (Suc (4 * k))))" by simp
  show ?case
    unfolding n stosl.simps stosb.simps Suc store32_byte[OF assms] by (simp add: add.assoc)
qed

lemma memset_apply:
  "memset m dst c n x = (if unat (x - dst) < unat n then ucast c else m x)"
proof (cases "dst mod 4 = 0 \<and> n mod 4 = 0")
  case True
  let ?c = "c AND 0xFF"
  have c: "?c = ?c AND 0xFF" by (simp add: and.assoc)
  have m8: "(0xFF :: u32) = mask 8" by (simp add: mask_eq_exp_minus_1)
  have u: "(ucast ?c :: u8) = ucast c"
    unfolding m8 by (auto intro!: bit_eqI simp: bit_ucast_iff bit_and_iff bit_mask_iff)
  have "unat n mod 4 = unat (n mod 4)" by (simp add: unat_mod_distrib)
  then have "4 * unat (n div 4) = unat n" using True by (auto simp: unat_div_distrib)
  then have "memset m dst c n = stosb m dst (ucast c) (unat n)"
    using True unfolding memset_def Let_def stosl_stosb[OF c] u by simp
  then show ?thesis by (simp add: stosb_apply)
next
  case False
  then show ?thesis by (auto simp: memset_def stosb_apply)
qed
lemma copy_up_apply:
  assumes "n \<le> 2 ^ 32" "d = s \<or> n \<le> unat (d - s)"
  shows "copy_up m d s n x = (if unat (x - d) < n then m (s + (x - d)) else m x)"
  using assms
proof (induction m d s n rule: copy_up.induct)
  case (1 m d s)
  then show ?case by simp
next
  case (2 m d s n)
  have IH: "copy_up (m(d := m s)) (d + 1) (s + 1) n x =
     (if unat (x - (d + 1)) < n then (m(d := m s)) (s + 1 + (x - (d + 1))) else (m(d := m s)) x)"
    using 2 by (intro "2.IH") auto
  show ?case
  proof (cases "x = d")
    case True
    with 2 IH show ?thesis by simp
  next
    case False
    have "s + (x - d) = d \<Longrightarrow> unat (x - d) < Suc n \<Longrightarrow> False"
    proof -
      assume a: "s + (x - d) = d" "unat (x - d) < Suc n"
      then have "d - s = x - d" by (metis add_diff_cancel_left')
      with a False 2 show False by auto
    qed
    with False IH show ?thesis by (auto simp: unat_diff_Suc)
  qed
qed

lemma copy_down_apply:
  assumes "n \<le> 2 ^ 32" "d = s \<or> n \<le> unat (s - d)"
  shows "copy_down m d s n x = (if unat (d - 1 - x) < n then m (s - (d - x)) else m x)"
  using assms
proof (induction m d s n rule: copy_down.induct)
  case (1 m d s)
  then show ?case by simp
next
  case (2 m d s n)
  let ?m = "m(d - 1 := m (s - 1))"
  have IH: "copy_down ?m (d - 1) (s - 1) n x =
     (if unat (d - 1 - 1 - x) < n then ?m (s - 1 - (d - 1 - x)) else ?m x)"
    using 2 by (intro "2.IH") auto
  show ?case
  proof (cases "x = d - 1")
    case True
    with 2 IH show ?thesis by simp
  next
    case False
    then have S: "unat (d - 1 - x) = Suc (unat (d - 1 - 1 - x))"
      using unat_diff_Suc[of "d - 1" x] by (simp add: algebra_simps)
    have "s - (d - x) = d - 1 \<Longrightarrow> unat (d - 1 - x) < Suc n \<Longrightarrow> False"
    proof -
      assume a: "s - (d - x) = d - 1" "unat (d - 1 - x) < Suc n"
      then have "s - d = d - 1 - x" by (simp add: algebra_simps)
      with a False 2 show False by auto
    qed
    then have "s - 1 - (d - 1 - x) = d - 1 \<Longrightarrow> unat (d - 1 - x) < Suc n \<Longrightarrow> False"
      by (simp add: algebra_simps)
    moreover have "m (s - 1 - (d - 1 - x)) = m (s - (d - x))"
      by (rule arg_cong[of _ _ m]) (simp add: algebra_simps)
    ultimately show ?thesis using False IH S by (auto simp del: diff_diff_eq2 minus_diff_eq)
  qed
qed

lemma memmove_apply:
  assumes "unat src + unat n < 2 ^ 32" "unat dst + unat n \<le> 2 ^ 32"
  shows "memmove m dst src n x = (if unat (x - dst) < unat n then m (src + (x - dst)) else m x)"
proof (cases "src < dst \<and> dst < src + n")
  case True
  then have sd: "unat src < unat dst" by (simp add: word_less_nat_alt)
  then have "unat (src - dst) = 2 ^ 32 - (unat dst - unat src)"
    by (simp add: unat_sub_if')
  then have "unat n \<le> unat (src + n - (dst + n))"
    using sd assms by simp
  then have "copy_down m (dst + n) (src + n) (unat n) x =
    (if unat (dst + n - 1 - x) < unat n then m (src + n - (dst + n - x)) else m x)"
    by (intro copy_down_apply) auto
  moreover have "unat (n - 1 - y) < unat n \<longleftrightarrow> unat y < unat n" for y
  proof (cases "n = 0")
    case False
    then have "unat (n - 1) = unat n - 1" and "0 < unat n" by (simp_all add: unat_minus_one unat_gt_0)
    moreover have "unat y \<le> 4294967295" using unat_u32_lt[of y] by linarith
    ultimately show ?thesis by (auto simp: unat_sub_if')
  qed simp
  then have "unat (dst + n - 1 - x) < unat n \<longleftrightarrow> unat (x - dst) < unat n"
    by (metis (no_types, opaque_lifting) add.commute add_diff_eq diff_diff_eq2)
  ultimately show ?thesis using True by (simp add: memmove_def algebra_simps)
next
  case False
  have "unat (src + n) = unat src + unat n"
    using assms by (simp add: unat_add_lem[THEN iffD1])
  then have "dst = src \<or> unat n \<le> unat (dst - src)"
    using assms False by (auto simp: word_less_nat_alt unat_sub_if' not_less word_unat_eq_iff)
  then show ?thesis using False by (auto simp: memmove_def copy_up_apply)
qed

lemma aligned4_no_overlap:
  fixes a b :: u32
  assumes "a mod 4 = 0" "b mod 4 = 0" "a \<noteq> b" "i < 4" "j < 4"
  shows "a + of_nat i \<noteq> b + of_nat j"
proof
  assume eq: "a + of_nat i = b + of_nat j"
  have m: "unat a mod 4 = 0" "unat b mod 4 = 0"
    using assms(1,2) unat_mod_distrib[of a 4] unat_mod_distrib[of b 4] by simp_all
  have "unat (c + of_nat k) = unat c + k" if "unat c mod 4 = 0" "k < 4" for c :: u32 and k
  proof -
    obtain q where "unat c = 4 * q" using \<open>unat c mod 4 = 0\<close> by auto
    then have "unat c + k < 2 ^ 32" using that unat_u32_lt[of c] by simp
    then show ?thesis using that by (simp add: unat_word_ariths unat_of_nat)
  qed
  then have "unat a + i = unat b + j" using eq m assms(4,5) by metis
  then have "unat a = unat b" using m assms(4,5) by presburger
  with assms(3) show False by (simp add: word_unat_eq_iff)
qed

lemma load32_store32_same [simp]: "load32 (store32 m a v) a = v"
proof (rule bit_eqI)
  fix i
  assume "possible_bit TYPE(u32) i"
  then have "i < 32" by (simp add: possible_bit_word)
  then consider "i < 8" | "8 \<le> i \<and> i < 16" | "16 \<le> i \<and> i < 24" | "24 \<le> i \<and> i < 32" by linarith
  then show "bit (load32 (store32 m a v) a) i = bit v i"
    by cases (auto simp: load32_def store32_def bit_or_iff bit_push_bit_iff bit_ucast_iff bit_drop_bit_eq)
qed

lemma load32_store32_other:
  assumes "a mod 4 = 0" "b mod 4 = 0" "a \<noteq> b"
  shows "load32 (store32 m a v) b = load32 m b"
proof -
  have "a + of_nat i \<noteq> b + of_nat j" if "i < 4" "j < 4" for i j
    using assms that by (rule aligned4_no_overlap)
  note n = this[of 0] this[of 1] this[of 2] this[of 3]
  show ?thesis
    using n[of 0] n[of 1] n[of 2] n[of 3] by (simp add: load32_def store32_def)
qed

lemma bytes_at_Suc: "bytes_at m p (Suc n) = m p # bytes_at m (p + 1) n"
  unfolding bytes_at_def
  by (subst upt_conv_Cons) (auto simp: map_Suc_upt[symmetric] add.assoc simp del: upt_Suc)

lemma bytes_at_0 [simp]: "bytes_at m p 0 = []"
  by (simp add: bytes_at_def)

lemma length_bytes_at [simp]: "length (bytes_at m p n) = n"
  by (simp add: bytes_at_def)

lemma nth_bytes_at [simp]: "i < n \<Longrightarrow> bytes_at m p n ! i = m (p + of_nat i)"
  by (simp add: bytes_at_def)

lemma strncmp_loop_list: "strncmp_loop m p q n = strncmp_list (bytes_at m p n) (bytes_at m q n)"
  by (induction m p q n rule: strncmp_loop.induct) (simp_all add: bytes_at_Suc)

lemma strncmp_list_eq_0:
  "length xs = length ys \<Longrightarrow> strncmp_list xs ys = 0 \<longleftrightarrow> cname xs = cname ys"
  by (induction xs ys rule: strncmp_list.induct) (auto simp: cname_def uint_0_iff simp flip: word_uint_eq_iff)

lemma strlen_loop_cstr:
  assumes "cstr_at m s xs" "n \<le> length xs"
  shows "strlen_loop m s n = Some (length xs)"
  using assms(2)
proof (induction "length xs - n" arbitrary: n)
  case 0
  then show ?case using assms(1) by (subst strlen_loop.simps) (simp add: cstr_at_def)
next
  case (Suc k)
  then have "n < length xs" by simp
  then have "m (s + of_nat n) = xs ! n"
    using assms(1) nth_bytes_at[of n "length xs" m s] by (simp add: cstr_at_def)
  moreover have "xs ! n \<noteq> 0" using assms(1) \<open>n < length xs\<close> by (metis cstr_at_def nth_mem)
  ultimately show ?case using Suc by (subst strlen_loop.simps) simp
qed

lemma disjoint_at_Suc: "disjoint_at s t (Suc n) \<Longrightarrow> disjoint_at (s + 1) (t + 1) n"
proof -
  assume a: "disjoint_at s t (Suc n)"
  have "s + 1 + of_nat i \<noteq> t + 1 + of_nat j" if "i < n" "j < n" for i j
    using a[unfolded disjoint_at_def, rule_format, of "Suc i" "Suc j"] that by (simp add: add.assoc)
  then show ?thesis by (simp add: disjoint_at_def)
qed

lemma bytes_at_upd_other:
  "(\<And>i. i < n \<Longrightarrow> a \<noteq> p + of_nat i) \<Longrightarrow> bytes_at (m(a := v)) p n = bytes_at m p n"
  by (rule nth_equalityI) (auto simp: bytes_at_def)

lemma bytes_at_stosb:
  assumes "n \<le> 2 ^ 32"
  shows "bytes_at (stosb m p d n) p n = replicate n d"
proof (rule nth_equalityI)
  fix i
  assume "i < length (bytes_at (stosb m p d n) p n)"
  then have "i < n" by simp
  moreover have "unat (of_nat i :: u32) = i"
    using \<open>i < n\<close> assms by (simp add: unat_of_nat)
  ultimately show "bytes_at (stosb m p d n) p n ! i = replicate n d ! i"
    using assms by (simp add: stosb_apply)
qed simp

lemma strncpy_loop_apply_below:
  "n \<le> 2 ^ 32 - 1 \<Longrightarrow> n \<le> unat (x - s) \<Longrightarrow> strncpy_loop m s t n x = m x"
proof (induction m s t n rule: strncpy_loop.induct)
  case (2 m s t n)
  then have "x \<noteq> s" by auto
  then have "n \<le> unat (x - (s + 1))" using 2 by (simp add: unat_diff_Suc)
  then have "m t \<noteq> 0 \<Longrightarrow> strncpy_loop (m(s := m t)) (s + 1) (t + 1) n x = (m(s := m t)) x"
    using "2.prems" by (intro "2.IH") auto
  with \<open>n \<le> unat (x - (s + 1))\<close> "2.prems" \<open>x \<noteq> s\<close> show ?case by (simp add: Let_def stosb_apply)
qed simp

lemma bytes_at_strncpy_loop:
  assumes "disjoint_at s t n" "n \<le> 2 ^ 32 - 1"
  shows "bytes_at (strncpy_loop m s t n) s n = strncpy_list n (bytes_at m t n)"
  using assms
proof (induction m s t n rule: strncpy_loop.induct)
  case (1 m s t)
  then show ?case by (simp add: strncpy_list_def)
next
  case (2 m s t n)
  let ?m = "m(s := m t)"
  have t1: "bytes_at ?m (t + 1) n = bytes_at m (t + 1) n"
  proof (rule bytes_at_upd_other)
    fix i
    assume "i < n"
    then show "s \<noteq> t + 1 + of_nat i"
      using 2(2)[unfolded disjoint_at_def, rule_format, of 0 "Suc i"] by (simp add: add.assoc)
  qed
  have ns: "n \<le> unat (s - (s + 1))" using 2(3) by simp
  show ?case
  proof (cases "m t \<noteq> 0")
    case True
    then have "bytes_at (strncpy_loop ?m (s + 1) (t + 1) n) (s + 1) n
        = strncpy_list n (bytes_at ?m (t + 1) n)"
      using 2 disjoint_at_Suc by (intro "2.IH") auto
    moreover have "strncpy_loop ?m (s + 1) (t + 1) n s = m t"
      using strncpy_loop_apply_below[OF _ ns, of ?m "t + 1"] 2(3) by simp
    ultimately show ?thesis using True
      by (simp add: bytes_at_Suc t1 strncpy_list_def cname_def replicate_append_same[symmetric] take_append)
  next
    case False
    have "stosb ?m (s + 1) 0 n s = m t"
      using ns 2(3) by (simp add: stosb_apply)
    then show ?thesis using False 2(3)
      by (simp add: bytes_at_Suc bytes_at_stosb strncpy_list_def cname_def)
  qed
qed

lemma cstr_at_Cons: "cstr_at m p (x # xs) \<longleftrightarrow> m p = x \<and> x \<noteq> 0 \<and> cstr_at m (p + 1) xs"
  by (auto simp: cstr_at_def bytes_at_Suc add.assoc)

lemma cstr_at_Nil: "cstr_at m p [] \<longleftrightarrow> m p = 0"
  by (simp add: cstr_at_def)

lemma safestrcpy_loop_apply_below:
  "n \<le> 2 ^ 32 - 1 \<Longrightarrow> n \<le> unat (x - s) \<Longrightarrow> safestrcpy_loop m s t n x = m x"
proof (induction m s t n rule: safestrcpy_loop.induct)
  case (2 m s t n)
  then have "x \<noteq> s" by auto
  then have nx: "n \<le> unat (x - (s + 1))" using 2 by (simp add: unat_diff_Suc)
  then have "n \<noteq> 0 \<Longrightarrow> m t \<noteq> 0 \<Longrightarrow>
      safestrcpy_loop (m(s := m t)) (s + 1) (t + 1) n x = (m(s := m t)) x"
    using "2.prems" by (intro "2.IH") auto
  moreover have "n \<noteq> 0 \<Longrightarrow> x \<noteq> s + 1" using nx by auto
  ultimately show ?case using \<open>x \<noteq> s\<close> by (simp add: Let_def)
qed simp

lemma cstr_at_safestrcpy_loop:
  assumes "disjoint_at s t (Suc n)" "n < 2 ^ 32 - 1"
  shows "cstr_at (safestrcpy_loop m s t (Suc n)) s (cname (bytes_at m t n))"
  using assms
proof (induction n arbitrary: m s t)
  case 0
  then show ?case by (simp add: cname_def cstr_at_Nil)
next
  case (Suc n)
  let ?m = "m(s := m t)"
  have t1: "bytes_at ?m (t + 1) n = bytes_at m (t + 1) n"
  proof (rule bytes_at_upd_other)
    fix i
    assume "i < n"
    then show "s \<noteq> t + 1 + of_nat i"
      using Suc.prems(1)[unfolded disjoint_at_def, rule_format, of 0 "Suc i"]
      by (simp add: add.assoc)
  qed
  have ns: "Suc n \<le> unat (s - (s + 1))" using Suc.prems(2) by simp
  show ?case
  proof (cases "m t \<noteq> 0")
    case True
    have "cstr_at (safestrcpy_loop ?m (s + 1) (t + 1) (Suc n)) (s + 1) (cname (bytes_at ?m (t + 1) n))"
      using Suc.prems disjoint_at_Suc by (intro Suc.IH) auto
    moreover have "safestrcpy_loop ?m (s + 1) (t + 1) (Suc n) s = m t"
      using safestrcpy_loop_apply_below[OF _ ns, of ?m "t + 1"] Suc.prems(2) by simp
    ultimately show ?thesis using True
      by (simp add: bytes_at_Suc t1 cname_def cstr_at_Cons del: safestrcpy_loop.simps)
        (simp add: Let_def)
  next
    case False
    then show ?thesis by (simp add: bytes_at_Suc cname_def cstr_at_Nil Let_def)
  qed
qed

section \<open>Properties\<close>

text \<open>
  C28. \<^verbatim>\<open>memmove\<close> copies as if through a temporary: on ranges that do not run past the
  end of the address space, overlapping or not, every byte of the destination range holds the byte
  the source range held before the call, and every other byte of memory is unchanged.
\<close>

theorem memmove_snapshot:
  assumes "unat src + unat n < 2 ^ 32" and "unat dst + unat n \<le> 2 ^ 32"
  shows "memmove m dst src n =
    (\<lambda>x. if unat (x - dst) < unat n then m (src + (x - dst)) else m x)"
  using memmove_apply[OF assms] by blast

theorem memmove_snapshot_witness:
  "memmove (\<lambda>a. ucast a) 101 100 3 103 = 102 \<and> memmove (\<lambda>a. ucast a) 101 100 3 104 = 104"
proof -
  have "memmove (\<lambda>a. ucast a) 101 100 3 =
    (\<lambda>x. if unat (x - 101) < unat (3 :: u32) then ucast (100 + (x - 101)) else ucast x)"
    by (rule memmove_snapshot) simp_all
  then show ?thesis by simp
qed

text \<open>
  \<^verbatim>\<open>memset\<close> fills exactly its range with the low byte of its argument, both when it
  stores words and when it stores bytes.
\<close>

theorem memset_fills:
  "memset m dst c n = (\<lambda>x. if unat (x - dst) < unat n then ucast c else m x)"
  using memset_apply by blast

end
