(* ===== verification/Machine.thy ===== *)
theory Machine
  imports CString "HOL-Library.Signed_Division"
begin

text \<open>
  The machine under the kernel: byte memory and the port instructions of
  \<^verbatim>\<open>src/x86.h\<close>. The devices are not part of the sources, so what they answer is a field of
  the argument \<open>platform\<close>, a function of everything that was exchanged with them before; the
  addresses that the linker gives to the kernel's buffers are fields of the same record.
  The field \<open>wakeups\<close> lists the calls of \<^verbatim>\<open>wakeup\<close> in order.
\<close>

section \<open>State\<close>

datatype io_event =
    InB u16 u8
  | OutB u16 u8
  | RegR u32 u32
  | RegW u32 u32

record machine =
  mem :: memory
  io :: "io_event list"
  wakeups :: "chan list"

record platform =
  dev_in :: "io_event list \<Rightarrow> u16 \<Rightarrow> u8"
  dev_reg :: "io_event list \<Rightarrow> u32 \<Rightarrow> u32"
  sym_consbuffer :: u32
  sym_videobuffer :: u32
  sym_indexWritten :: u32
  sym_firstTime :: u32
  sym_hdcArray :: u32

section \<open>Port instructions\<close>

definition inb :: "platform \<Rightarrow> u16 \<Rightarrow> 's machine_scheme \<Rightarrow> u8 \<times> 's machine_scheme" where
  "inb P port s = (let v = dev_in P (io s) port in (v, s\<lparr>io := io s @ [InB port v]\<rparr>))"

definition outb :: "u16 \<Rightarrow> u8 \<Rightarrow> 's machine_scheme \<Rightarrow> 's machine_scheme" where
  "outb port v s = s\<lparr>io := io s @ [OutB port v]\<rparr>"

lemma inb_frame [frame_simps]:
  "mem (snd (inb P port s)) = mem s" "wakeups (snd (inb P port s)) = wakeups s"
  by (simp_all add: inb_def Let_def)

lemma outb_frame [frame_simps]:
  "mem (outb port v s) = mem s" "wakeups (outb port v s) = wakeups s"
  by (simp_all add: outb_def)

section \<open>Words and half words in memory\<close>

definition load16 :: "memory \<Rightarrow> u32 \<Rightarrow> u16" where
  "load16 m a = ucast (m a) OR push_bit 8 (ucast (m (a + 1)))"

definition store16 :: "memory \<Rightarrow> u32 \<Rightarrow> u16 \<Rightarrow> memory" where
  "store16 m a v = m(a := ucast v, a + 1 := ucast (drop_bit 8 v))"

text \<open>A C \<^verbatim>\<open>int\<close> in memory, and its two's complement encoding.\<close>

definition load_int :: "memory \<Rightarrow> u32 \<Rightarrow> int" where
  "load_int m a = sint (load32 m a)"

definition store_int :: "memory \<Rightarrow> u32 \<Rightarrow> int \<Rightarrow> memory" where
  "store_int m a i = store32 m a (word_of_int i)"

section \<open>Regions of memory\<close>

definition region :: "u32 \<Rightarrow> nat \<Rightarrow> u32 set" where
  "region a n = {x. unat (x - a) < n}"

definition same_outside :: "u32 set \<Rightarrow> memory \<Rightarrow> memory \<Rightarrow> bool" where
  "same_outside A m m' \<longleftrightarrow> (\<forall>x. x \<notin> A \<longrightarrow> m' x = m x)"

lemma in_region: "x \<in> region a n \<longleftrightarrow> unat (x - a) < n"
  by (simp add: region_def)

lemma region_iff:
  "unat a + n \<le> 2 ^ 32 \<Longrightarrow> x \<in> region a n \<longleftrightarrow> unat a \<le> unat x \<and> unat x < unat a + n"
  using unat_u32_lt[of x] unat_u32_lt[of a]
  by (auto simp: in_region unat_sub_if' not_le)

lemma region_mono: "m \<le> n \<Longrightarrow> region a m \<subseteq> region a n"
  by (auto simp: in_region)

lemma region_sub:
  assumes "unat d + k \<le> n" "n \<le> 2 ^ 32"
  shows "region (a + d) k \<subseteq> region a n"
proof
  fix x assume "x \<in> region (a + d) k"
  then have u: "unat (x - a - d) < k" by (simp add: in_region diff_diff_eq)
  have "unat (x - a) = unat ((x - a - d) + d)" by simp
  also have "\<dots> = (unat (x - a - d) + unat d) mod 2 ^ 32" by (subst unat_word_ariths) simp
  also have "\<dots> = unat (x - a - d) + unat d" using u assms by (intro mod_less) linarith
  finally show "x \<in> region a n" using u assms by (simp add: in_region)
qed

lemma same_outside_refl [simp, intro]: "same_outside A m m"
  by (simp add: same_outside_def)

lemma same_outside_trans [trans]:
  "same_outside A m m' \<Longrightarrow> same_outside A m' m'' \<Longrightarrow> same_outside A m m''"
  by (simp add: same_outside_def)

lemma same_outside_mono: "same_outside A m m' \<Longrightarrow> A \<subseteq> B \<Longrightarrow> same_outside B m m'"
  by (auto simp: same_outside_def)

lemma same_outside_seq:
  "same_outside A m m' \<Longrightarrow> same_outside B m' m'' \<Longrightarrow> A \<subseteq> C \<Longrightarrow> B \<subseteq> C \<Longrightarrow> same_outside C m m''"
  using same_outside_trans same_outside_mono by blast

lemma same_outsideD: "same_outside A m m' \<Longrightarrow> x \<notin> A \<Longrightarrow> m' x = m x"
  by (simp add: same_outside_def)

lemma region_byte: "i < n \<Longrightarrow> i < 2 ^ 32 \<Longrightarrow> a + of_nat i \<in> region a n"
  by (simp add: in_region unat_of_nat)

lemma region_start: "0 < n \<Longrightarrow> a \<in> region a n"
  by (simp add: in_region)

lemma same_outside_upd: "a \<in> A \<Longrightarrow> same_outside A m (m(a := v))"
  by (auto simp: same_outside_def)

lemma same_outside_store32: "region a 4 \<subseteq> A \<Longrightarrow> same_outside A m (store32 m a v)"
  using region_byte[of 0 4 a] region_byte[of 1 4 a] region_byte[of 2 4 a] region_byte[of 3 4 a]
  by (auto simp: same_outside_def store32_def)

lemma same_outside_store_int: "region a 4 \<subseteq> A \<Longrightarrow> same_outside A m (store_int m a v)"
  by (simp add: store_int_def same_outside_store32)

lemma same_outside_store16: "region a 2 \<subseteq> A \<Longrightarrow> same_outside A m (store16 m a v)"
  using region_byte[of 0 2 a] region_byte[of 1 2 a]
  by (auto simp: same_outside_def store16_def)

lemma same_outside_memset: "region dst (unat n) \<subseteq> A \<Longrightarrow> same_outside A m (memset m dst c n)"
  by (auto simp: same_outside_def memset_apply in_region)

lemma same_outside_memmove:
  assumes "unat src + unat n < 2 ^ 32" "unat dst + unat n \<le> 2 ^ 32" "region dst (unat n) \<subseteq> A"
  shows "same_outside A m (memmove m dst src n)"
  using assms by (auto simp: same_outside_def memmove_apply in_region)

lemma load32_same:
  assumes "same_outside A m m'" "region a 4 \<inter> A = {}"
  shows "load32 m' a = load32 m a"
proof -
  have "m' (a + of_nat i) = m (a + of_nat i)" if "i < 4" for i
    using assms region_byte[of i 4 a] that by (auto simp: same_outside_def)
  from this[of 0] this[of 1] this[of 2] this[of 3] show ?thesis
    by (simp add: load32_def)
qed

lemma load_int_same:
  "same_outside A m m' \<Longrightarrow> region a 4 \<inter> A = {} \<Longrightarrow> load_int m' a = load_int m a"
  by (simp add: load_int_def load32_same)

lemma load_int_store_int_same [simp]: "in_i32 v \<Longrightarrow> load_int (store_int m a v) a = v"
  by (simp add: load_int_def store_int_def in_i32_def sint_sbintrunc' signed_take_bit_int_eq_self)

lemma load_int_in_i32 [simp]: "in_i32 (load_int m a)"
  using sint_range_size[of "load32 m a"]
  by (simp add: load_int_def in_i32_def word_size)

lemma region_disjoint:
  assumes "unat a + n \<le> unat b \<or> unat b + k \<le> unat a" "unat a + n \<le> 2 ^ 32" "unat b + k \<le> 2 ^ 32"
  shows "region a n \<inter> region b k = {}"
  using assms by (auto simp: region_iff)

section \<open>C arithmetic on nonnegative numbers\<close>

lemma smod_nonneg: "0 \<le> a \<Longrightarrow> 0 < b \<Longrightarrow> a smod b = a mod b" for a b :: int
  by (cases "a = 0") (auto simp: smod_int_alt_def sgn_if)

lemma sdiv_nonneg: "0 \<le> a \<Longrightarrow> 0 < b \<Longrightarrow> a sdiv b = a div b" for a b :: int
  by (cases "a = 0") (auto simp: signed_divide_int_def sgn_if)

lemma unat_word_of_int: "0 \<le> i \<Longrightarrow> i < 2 ^ 32 \<Longrightarrow> unat (word_of_int i :: u32) = nat i"
  by (simp add: unat_eq_nat_uint uint_word_of_int)

lemma unat_double: "0 \<le> i \<Longrightarrow> i < 2 ^ 31 \<Longrightarrow> unat (2 * word_of_int i :: u32) = 2 * nat i"
  by (subst unat_word_ariths) (simp add: unat_word_of_int)

end
