(* ===== verification/Kalloc.thy ===== *)
theory Kalloc
  imports Machine
begin

text \<open>
  The physical page allocator, \<^verbatim>\<open>src/kalloc.c\<close>, over the byte memory of
  \<open>Machine\<close>: the free pages form a linked list through their own first words.
  The address \<^verbatim>\<open>end\<close> comes from the linker and is the argument \<open>kend\<close>.
  A critical section under \<^verbatim>\<open>kmem.lock\<close> runs as one step; theory
  \<open>Spinlock\<close> models the lock itself.
\<close>

section \<open>Memory layout (memlayout.h, mmu.h)\<close>

definition EXTMEM :: u32 where "EXTMEM = 0x100000"
definition PHYSTOP :: u32 where "PHYSTOP = 0xE000000"
definition DEVSPACE :: u32 where "DEVSPACE = 0xFE000000"
definition KERNBASE :: u32 where "KERNBASE = 0x80000000"
definition KERNLINK :: u32 where "KERNLINK = KERNBASE + EXTMEM"
definition PGSIZE :: u32 where "PGSIZE = 4096"

lemmas layout_defs = EXTMEM_def PHYSTOP_def DEVSPACE_def KERNBASE_def KERNLINK_def PGSIZE_def

definition V2P :: "u32 \<Rightarrow> u32" where "V2P a = a - KERNBASE"
definition P2V :: "u32 \<Rightarrow> u32" where "P2V a = a + KERNBASE"

definition PGROUNDUP :: "u32 \<Rightarrow> u32" where
  "PGROUNDUP sz = (sz + PGSIZE - 1) AND NOT (PGSIZE - 1)"

definition PGROUNDDOWN :: "u32 \<Rightarrow> u32" where
  "PGROUNDDOWN a = a AND NOT (PGSIZE - 1)"

section \<open>State and operations\<close>

record kalloc_state = machine +
  freelist :: u32
  use_lock :: bool

definition kfree :: "u32 \<Rightarrow> u32 \<Rightarrow> 's kalloc_state_scheme \<Rightarrow> (unit, 's kalloc_state_scheme) outcome" where
  "kfree kend v s =
     (if v mod PGSIZE \<noteq> 0 \<or> v < kend \<or> PHYSTOP \<le> V2P v then Panic ''kfree''
      else
        let s = s\<lparr>mem := memset (mem s) v 1 PGSIZE\<rparr>;
            s = s\<lparr>mem := store32 (mem s) v (freelist s)\<rparr>
        in Ret () (s\<lparr>freelist := v\<rparr>))"

definition kalloc :: "'s kalloc_state_scheme \<Rightarrow> (u32, 's kalloc_state_scheme) outcome" where
  "kalloc s =
     (let r = freelist s
      in if r \<noteq> 0 then Ret r (s\<lparr>freelist := load32 (mem s) r\<rparr>) else Ret r s)"

text \<open>
  The loop of \<^verbatim>\<open>freerange\<close>. Every page that \<^verbatim>\<open>kfree\<close> accepts lies below
  \<^verbatim>\<open>KERNBASE + PHYSTOP\<close>, so the address grows until the loop ends or panics.
\<close>

lemma kfree_RetD: "kfree kend v s = Ret u t \<Longrightarrow> V2P v < PHYSTOP \<and> v mod PGSIZE = 0 \<and> kend \<le> v"
  by (auto simp: kfree_def Let_def not_less not_le split: if_splits)

lemma V2P_less_PHYSTOP: "V2P v < PHYSTOP \<longleftrightarrow> 0x80000000 \<le> unat v \<and> unat v < 0x8E000000"
  using unat_u32_lt[of v]
  by (auto simp: V2P_def layout_defs word_less_nat_alt unat_sub_if')

lemma V2P_less_step: "V2P v < PHYSTOP \<Longrightarrow> unat (v + PGSIZE) = unat v + 4096"
  by (simp add: V2P_less_PHYSTOP PGSIZE_def unat_word_ariths)

function freerange_loop ::
  "u32 \<Rightarrow> u32 \<Rightarrow> u32 \<Rightarrow> 's kalloc_state_scheme \<Rightarrow> (unit, 's kalloc_state_scheme) outcome" where
  "freerange_loop kend p vend s =
     (if p + PGSIZE \<le> vend
      then bindO (kfree kend p s) (\<lambda>_ s. freerange_loop kend (p + PGSIZE) vend s)
      else Ret () s)"
  by pat_completeness auto
termination
proof (relation "measure (\<lambda>(kend, p, vend, s). 2 ^ 32 - unat p)")
  fix kend p vend :: u32 and s t :: "'s kalloc_state_scheme" and u
  assume "kfree kend p s = Ret u t"
  then have "unat (p + PGSIZE) = unat p + 4096"
    using kfree_RetD V2P_less_step by blast
  then show "((kend, p + PGSIZE, vend, t), kend, p, vend, s) \<in> measure (\<lambda>(kend, p, vend, s). 2 ^ 32 - unat p)"
    using unat_u32_lt[of p] by (simp add: diff_less_mono2)
qed simp

declare freerange_loop.simps [simp del]

definition freerange ::
  "u32 \<Rightarrow> u32 \<Rightarrow> u32 \<Rightarrow> 's kalloc_state_scheme \<Rightarrow> (unit, 's kalloc_state_scheme) outcome" where
  "freerange kend vstart vend s = freerange_loop kend (PGROUNDUP vstart) vend s"

definition kinit1 ::
  "u32 \<Rightarrow> u32 \<Rightarrow> u32 \<Rightarrow> 's kalloc_state_scheme \<Rightarrow> (unit, 's kalloc_state_scheme) outcome" where
  "kinit1 kend vstart vend s = freerange kend vstart vend (s\<lparr>use_lock := False\<rparr>)"

definition kinit2 ::
  "u32 \<Rightarrow> u32 \<Rightarrow> u32 \<Rightarrow> 's kalloc_state_scheme \<Rightarrow> (unit, 's kalloc_state_scheme) outcome" where
  "kinit2 kend vstart vend s =
     bindO (freerange kend vstart vend s) (\<lambda>_ s. Ret () (s\<lparr>use_lock := True\<rparr>))"

section \<open>Pages\<close>

lemma unat_PGROUNDDOWN: "unat (PGROUNDDOWN a) = unat a div 4096 * 4096"
proof -
  have "PGROUNDDOWN a = a AND NOT (mask 12)"
    by (simp add: PGROUNDDOWN_def PGSIZE_def mask_eq_exp_minus_1)
  also have "\<dots> = push_bit 12 (drop_bit 12 a)"
    by (auto intro!: bit_eqI simp: bit_and_iff bit_not_iff bit_mask_iff bit_push_bit_iff bit_drop_bit_eq)
  finally have "unat (PGROUNDDOWN a) = unat (push_bit 12 (drop_bit 12 a))" by simp
  also have "\<dots> = take_bit 32 (push_bit 12 (unat (drop_bit 12 a)))"
    by (simp add: unsigned_push_bit_eq)
  also have "\<dots> = (unat a div 4096 * 4096) mod 2 ^ 32"
    by (simp add: drop_bit_eq_div push_bit_eq_mult take_bit_eq_mod unat_div_distrib)
  also have "\<dots> = unat a div 4096 * 4096"
    using unat_u32_lt[of a] by simp
  finally show ?thesis .
qed

lemma unat_PGROUNDUP:
  "unat a + 4095 < 2 ^ 32 \<Longrightarrow> unat (PGROUNDUP a) = (unat a + 4095) div 4096 * 4096"
proof -
  assume a: "unat a + 4095 < 2 ^ 32"
  have "PGROUNDUP a = PGROUNDDOWN (a + 4095)"
    by (simp add: PGROUNDUP_def PGROUNDDOWN_def PGSIZE_def add.commute add_diff_eq)
  moreover have "unat (a + 4095) = unat a + 4095"
    using a by (simp add: unat_word_ariths)
  ultimately show ?thesis by (simp add: unat_PGROUNDDOWN)
qed

lemma mod_PGSIZE_iff: "x mod PGSIZE = 0 \<longleftrightarrow> unat x mod 4096 = 0"
  by (simp add: PGSIZE_def word_unat_eq_iff unat_mod_distrib)

lemma PGROUNDUP_aligned [simp]: "PGROUNDUP a mod PGSIZE = 0"
proof -
  have "PGROUNDUP a = PGROUNDDOWN (a + 4095)"
    by (simp add: PGROUNDUP_def PGROUNDDOWN_def PGSIZE_def add.commute add_diff_eq)
  then show ?thesis by (simp add: mod_PGSIZE_iff unat_PGROUNDDOWN)
qed

lemma aligned_page_mod4: "x mod PGSIZE = 0 \<Longrightarrow> x mod 4 = 0"
proof -
  assume "x mod PGSIZE = 0"
  then have "unat x mod 4096 = 0" by (simp add: mod_PGSIZE_iff)
  moreover have "unat x mod 4 = unat x mod 4096 mod 4" by (rule mod_mod_cancel[symmetric]) simp
  ultimately have "unat x mod 4 = 0" by simp
  then show ?thesis by (simp add: word_unat_eq_iff unat_mod_distrib)
qed

text \<open>Two different page-aligned addresses name disjoint ranges.\<close>

lemma pages_disjoint:
  assumes "a mod PGSIZE = 0" "b mod PGSIZE = 0" "unat (x - a) < 4096" "unat (x - b) < 4096"
  shows "a = b"
proof -
  have "unat c = unat x div 4096 * 4096" if "c mod PGSIZE = 0" "unat (x - c) < 4096" for c
  proof -
    have "unat c mod 4096 = 0" using that(1) by (simp add: mod_PGSIZE_iff)
    then obtain q where q: "unat c = 4096 * q" by (auto elim: dvdE simp: mod_eq_0_iff_dvd)
    then have "unat c + unat (x - c) < 2 ^ 32" using that(2) unat_u32_lt[of c] by simp
    then have "unat x = 4096 * q + unat (x - c)"
      using unat_word_ariths(1)[of c "x - c"] q by simp
    then show ?thesis using that(2) q by simp
  qed
  from this[OF assms(1,3)] this[OF assms(2,4)] have "unat a = unat b" by simp
  then show ?thesis by (simp add: word_unat_eq_iff)
qed

lemma unat_page_word: "j < 4 \<Longrightarrow> unat (b + of_nat j - b :: u32) < 4096"
  by (simp add: unat_of_nat)

lemma load32_memset_other:
  assumes "a mod PGSIZE = 0" "b mod PGSIZE = 0" "a \<noteq> b"
  shows "load32 (memset m a c PGSIZE) b = load32 m b"
proof -
  have "memset m a c PGSIZE (b + of_nat j) = m (b + of_nat j)" if "j < 4" for j
    using pages_disjoint[OF assms(1,2), of "b + of_nat j"] assms(3) unat_page_word[OF that, of b]
    by (auto simp: memset_apply PGSIZE_def)
  from this[of 0] this[of 1] this[of 2] this[of 3] show ?thesis
    by (simp add: load32_def)
qed

section \<open>The free list\<close>

fun free_chain :: "memory \<Rightarrow> u32 \<Rightarrow> u32 list \<Rightarrow> bool" where
  "free_chain m p [] \<longleftrightarrow> p = 0"
| "free_chain m p (x # xs) \<longleftrightarrow> p = x \<and> x \<noteq> 0 \<and> free_chain m (load32 m x) xs"

definition page_ok :: "u32 \<Rightarrow> u32 \<Rightarrow> bool" where
  "page_ok kend x \<longleftrightarrow> x mod PGSIZE = 0 \<and> kend \<le> x \<and> V2P x < PHYSTOP"

definition kmem_inv :: "u32 \<Rightarrow> 's kalloc_state_scheme \<Rightarrow> u32 list \<Rightarrow> bool" where
  "kmem_inv kend s xs \<longleftrightarrow>
     free_chain (mem s) (freelist s) xs \<and> distinct xs \<and> (\<forall>x \<in> set xs. page_ok kend x)"

lemma page_ok_nonzero: "page_ok kend x \<Longrightarrow> x \<noteq> 0"
  by (auto simp: page_ok_def V2P_less_PHYSTOP)

lemma free_chain_cong:
  "(\<And>x. x \<in> set xs \<Longrightarrow> load32 m' x = load32 m x) \<Longrightarrow> free_chain m' p xs = free_chain m p xs"
  by (induction xs arbitrary: p) auto

lemma kmem_inv_mem_cong:
  "kmem_inv kend s xs \<Longrightarrow> (\<And>x. x \<in> set xs \<Longrightarrow> load32 m' x = load32 (mem s) x)
    \<Longrightarrow> kmem_inv kend (s\<lparr>mem := m'\<rparr>) xs"
  unfolding kmem_inv_def using free_chain_cong[of xs m' "mem s"] by simp

lemma kalloc_nil: "kmem_inv kend s [] \<Longrightarrow> kalloc s = Ret 0 s"
  by (simp add: kmem_inv_def kalloc_def)

lemma kalloc_cons:
  "kmem_inv kend s (x # xs) \<Longrightarrow>
     kalloc s = Ret x (s\<lparr>freelist := load32 (mem s) x\<rparr>) \<and>
     kmem_inv kend (s\<lparr>freelist := load32 (mem s) x\<rparr>) xs \<and> page_ok kend x \<and> x \<notin> set xs"
  by (auto simp: kmem_inv_def kalloc_def)

lemma kfree_runs:
  assumes "kmem_inv kend s xs" "page_ok kend v" "v \<notin> set xs"
  shows "runs (kfree kend v s) (\<lambda>_ t. kmem_inv kend t (v # xs) \<and>
    (\<forall>x. 4096 \<le> unat (x - v) \<longrightarrow> mem t x = mem s x))"
proof -
  let ?m = "store32 (memset (mem s) v 1 PGSIZE) v (freelist s)"
  have v: "v mod PGSIZE = 0" using assms(2) by (simp add: page_ok_def)
  have "v \<noteq> 0" using assms(2) by (rule page_ok_nonzero)
  have "load32 ?m x = load32 (mem s) x" if "x \<in> set xs" for x
  proof -
    have x: "x mod PGSIZE = 0" "x \<noteq> v" using that assms by (auto simp: kmem_inv_def page_ok_def)
    then show ?thesis
      using v by (simp add: load32_store32_other aligned_page_mod4 load32_memset_other)
  qed
  then have "free_chain ?m (freelist s) xs"
    using assms(1) free_chain_cong[of xs ?m "mem s"] by (simp add: kmem_inv_def)
  moreover have "?m x = mem s x" if "4096 \<le> unat (x - v)" for x
    using that by (auto simp: store32_def memset_apply PGSIZE_def)
  ultimately show ?thesis
    using assms \<open>v \<noteq> 0\<close>
    by (auto simp: kfree_def Let_def kmem_inv_def page_ok_def not_le)
qed

section \<open>freerange\<close>

definition page_seq :: "u32 \<Rightarrow> nat \<Rightarrow> u32 list" where
  "page_seq p n = map (\<lambda>i. p + of_nat i * PGSIZE) [0..<n]"

lemma page_seq_Suc: "page_seq p (Suc n) = p # page_seq (p + PGSIZE) n"
  unfolding page_seq_def
  by (subst upt_conv_Cons)
     (auto simp: map_Suc_upt[symmetric] algebra_simps simp del: upt_Suc)

lemma page_seq_0 [simp]: "page_seq p 0 = []"
  by (simp add: page_seq_def)

lemma in_page_seq:
  assumes "x \<in> set (page_seq p n)" "unat p + n * 4096 < 2 ^ 32"
  obtains i where "i < n" "unat x = unat p + i * 4096"
proof -
  from assms(1) obtain i where i: "i < n" "x = p + of_nat i * PGSIZE"
    by (auto simp: page_seq_def)
  have b: "unat p + i * 4096 < 2 ^ 32" using assms(2) i(1)
    by (meson add_left_mono le_less_trans less_imp_le_nat mult_le_mono1)
  then have "unat (of_nat i * PGSIZE) = i * 4096"
    by (simp add: PGSIZE_def unat_word_ariths unat_of_nat)
  then have "unat x = unat p + i * 4096" using b i(2) by (simp add: unat_word_ariths)
  with i(1) that show ?thesis by blast
qed

lemma freerange_loop_runs:
  assumes "kmem_inv kend s xs" "p mod PGSIZE = 0" "kend \<le> p" "0x80000000 \<le> unat p"
    "unat p + n * 4096 \<le> unat vend" "unat vend < unat p + (n + 1) * 4096" "unat vend \<le> 0x8E000000"
    "set (page_seq p n) \<inter> set xs = {}"
  shows "runs (freerange_loop kend p vend s)
    (\<lambda>_ t. kmem_inv kend t (rev (page_seq p n) @ xs))"
  using assms
proof (induction n arbitrary: p s xs)
  case 0
  have "\<not> p + PGSIZE \<le> vend"
    using 0 by (simp add: word_le_nat_alt PGSIZE_def unat_word_ariths)
  then show ?case using 0 by (simp add: freerange_loop.simps)
next
  case (Suc n)
  have u: "unat (p + PGSIZE) = unat p + 4096"
    using Suc.prems by (simp add: PGSIZE_def unat_word_ariths)
  then have le: "p + PGSIZE \<le> vend" using Suc.prems by (simp add: word_le_nat_alt)
  have ok: "page_ok kend p" using Suc.prems by (simp add: page_ok_def V2P_less_PHYSTOP)
  have "p \<notin> set xs" using Suc.prems by (auto simp: page_seq_Suc)
  have "runs (kfree kend p s) (\<lambda>_ t. kmem_inv kend t (p # xs))"
    by (rule runs_mono[OF kfree_runs[OF Suc.prems(1) ok \<open>p \<notin> set xs\<close>]]) simp
  then show ?case
  proof (subst freerange_loop.simps, simp add: le, elim runs_mono)
    fix t :: "'a kalloc_state_scheme"
    assume t: "kmem_inv kend t (p # xs)"
    have "p \<notin> set (page_seq (p + PGSIZE) n)"
    proof
      assume "p \<in> set (page_seq (p + PGSIZE) n)"
      moreover have "unat (p + PGSIZE) + n * 4096 < 2 ^ 32" using Suc.prems(5,7) u by simp
      ultimately obtain i where "unat p = unat (p + PGSIZE) + i * 4096" by (rule in_page_seq)
      then show False using u by simp
    qed
    then have "runs (freerange_loop kend (p + PGSIZE) vend t)
        (\<lambda>_ t. kmem_inv kend t (rev (page_seq (p + PGSIZE) n) @ p # xs))"
      using Suc.prems t u
      by (intro Suc.IH) (auto simp: page_seq_Suc mod_PGSIZE_iff word_le_nat_alt)
    then show "runs (freerange_loop kend (p + PGSIZE) vend t)
        (\<lambda>_ t. kmem_inv kend t (rev (page_seq p (Suc n)) @ xs))"
      by (simp add: page_seq_Suc)
  qed
qed

section \<open>The allocator as an interface\<close>

text \<open>
  What the clients of the allocator (page tables, kernel stacks, pipes) rely on: the free pages
  are a list of distinct valid pages, an allocation takes the first, a release puts one back, and
  only an empty list makes an allocation fail.
\<close>

locale page_allocator =
  fixes pinv :: "'s \<Rightarrow> u32 list \<Rightarrow> bool"
    and palloc :: "'s \<Rightarrow> (u32, 's) outcome"
    and pfree :: "u32 \<Rightarrow> 's \<Rightarrow> (unit, 's) outcome"
    and pok :: "u32 \<Rightarrow> bool"
  assumes alloc_empty: "pinv s [] \<Longrightarrow> palloc s = Ret 0 s"
    and alloc_page: "pinv s (x # xs) \<Longrightarrow> runs (palloc s) (\<lambda>r t. r = x \<and> pinv t xs)"
    and free_page: "pinv s xs \<Longrightarrow> pok v \<Longrightarrow> v \<notin> set xs \<Longrightarrow>
      runs (pfree v s) (\<lambda>_ t. pinv t (v # xs))"
    and free_ok: "pinv s xs \<Longrightarrow> x \<in> set xs \<Longrightarrow> pok x \<and> x \<noteq> 0"
    and free_distinct: "pinv s xs \<Longrightarrow> distinct xs"
begin

lemma alloc_cases:
  "pinv s xs \<Longrightarrow> runs (palloc s) (\<lambda>r t. pinv t (tl xs) \<and> (if xs = [] then r = 0 else r = hd xs \<and> r \<noteq> 0))"
proof (cases xs)
  case Nil
  moreover assume "pinv s xs"
  ultimately show ?thesis by (simp add: alloc_empty)
next
  case (Cons x ys)
  moreover assume i: "pinv s xs"
  ultimately show ?thesis using alloc_page[of s x ys] free_ok[OF i, of x] by (auto elim: runs_mono)
qed

lemma alloc_not_free:
  "pinv s xs \<Longrightarrow> runs (palloc s) (\<lambda>r t. r \<noteq> 0 \<longrightarrow> r \<notin> set (tl xs) \<and> pok r)"
  using alloc_cases[of s xs] free_distinct[of s xs] free_ok[of s xs]
  by (cases xs) (auto elim!: runs_mono split: if_splits)

lemma alloc_then_free:
  "pinv s xs \<Longrightarrow> xs \<noteq> [] \<Longrightarrow>
     runs (bindO (palloc s) (\<lambda>r t. pfree r t)) (\<lambda>_ t. pinv t xs)"
proof (cases xs)
  case (Cons x ys)
  moreover assume i: "pinv s xs"
  ultimately have "runs (palloc s) (\<lambda>r t. r = x \<and> pinv t ys)"
    using alloc_page by simp
  then have "runs (bindO (palloc s) (\<lambda>r t. pfree r t)) (\<lambda>_ t. pinv t (x # ys))"
    using free_ok[OF i, of x] free_distinct[OF i] Cons
    by (auto elim!: runs_mono intro!: free_page)
  with Cons show ?thesis by simp
qed simp

end

text \<open>A client that allocates \<open>n\<close> pages one after the other, stopping at a null result.\<close>

fun alloc_pages :: "nat \<Rightarrow> 's kalloc_state_scheme \<Rightarrow> (u32 list, 's kalloc_state_scheme) outcome" where
  "alloc_pages 0 s = Ret [] s"
| "alloc_pages (Suc n) s =
     bindO (kalloc s) (\<lambda>r t. if r = 0 then Ret [] t
       else bindO (alloc_pages n t) (\<lambda>rs u. Ret (r # rs) u))"

interpretation kmem: page_allocator "kmem_inv kend" kalloc "kfree kend" "page_ok kend" for kend
proof unfold_locales
  fix s :: "'s kalloc_state_scheme" and x xs
  assume "kmem_inv kend s (x # xs)"
  then show "runs (kalloc s) (\<lambda>r t. r = x \<and> kmem_inv kend t xs)"
    using kalloc_cons[of kend s x xs] by simp
next
  fix s :: "'s kalloc_state_scheme" and v xs
  assume "kmem_inv kend s xs" "page_ok kend v" "v \<notin> set xs"
  then show "runs (kfree kend v s) (\<lambda>_ t. kmem_inv kend t (v # xs))"
    by (auto intro: runs_mono[OF kfree_runs])
qed (auto simp: kalloc_nil kmem_inv_def dest: page_ok_nonzero)

lemma alloc_pages_runs:
  "kmem_inv kend s xs \<Longrightarrow>
     runs (alloc_pages n s) (\<lambda>rs t. rs = take n xs \<and> kmem_inv kend t (drop n xs))"
proof (induction n arbitrary: s xs)
  case 0
  then show ?case by simp
next
  case (Suc n)
  show ?case
  proof (cases xs)
    case Nil
    with Suc.prems show ?thesis by (simp add: kalloc_nil)
  next
    case (Cons x ys)
    have "x \<noteq> 0" using kmem.free_ok[OF Suc.prems, of x] Cons by simp
    have "runs (kalloc s) (\<lambda>r t. r = x \<and> kmem_inv kend t ys)"
      using Suc.prems Cons kmem.alloc_page by simp
    then show ?thesis
      unfolding alloc_pages.simps runs_bindO
    proof (elim runs_mono conjE)
      fix r :: u32 and t :: "'a kalloc_state_scheme"
      assume "r = x" "kmem_inv kend t ys"
      then show "runs (if r = 0 then Ret [] t
          else bindO (alloc_pages n t) (\<lambda>rs u. Ret (r # rs) u))
        (\<lambda>rs t. rs = take (Suc n) xs \<and> kmem_inv kend t (drop (Suc n) xs))"
        using Suc.IH[of t ys] \<open>x \<noteq> 0\<close> Cons by (auto elim!: runs_mono)
    qed
  qed
qed

section \<open>Properties\<close>

text \<open>
  C17. \<^verbatim>\<open>freerange\<close> puts on the free list exactly the whole pages of its range: the
  pages from the first page boundary at or above \<^verbatim>\<open>vstart\<close> up to the last that ends at or
  below \<^verbatim>\<open>vend\<close>, each once and in front of the pages already free, and it neither panics
  nor loses a page.
\<close>

theorem freerange_frees_pages:
  assumes inv: "kmem_inv kend s xs"
    and lo: "kend \<le> vstart" "0x80000000 \<le> unat vstart"
    and hi: "vstart \<le> vend" "PGROUNDUP vstart \<le> vend" "unat vend \<le> 0x8E000000"
    and n: "n = (unat vend - unat (PGROUNDUP vstart)) div 4096"
    and fresh: "set (page_seq (PGROUNDUP vstart) n) \<inter> set xs = {}"
  shows "runs (freerange kend vstart vend s)
    (\<lambda>_ t. kmem_inv kend t (rev (page_seq (PGROUNDUP vstart) n) @ xs))"
proof -
  let ?p = "PGROUNDUP vstart"
  have v: "unat vstart \<le> unat vend" "unat ?p \<le> unat vend" using hi by (simp_all add: word_le_nat_alt)
  then have "unat ?p = (unat vstart + 4095) div 4096 * 4096" using hi(3) by (simp add: unat_PGROUNDUP)
  then have p: "unat vstart \<le> unat ?p" by simp
  have "n * 4096 \<le> unat vend - unat ?p" "unat vend - unat ?p < (n + 1) * 4096"
    unfolding n using dividend_less_div_times[of 4096 "unat vend - unat ?p"] by simp_all
  then have "unat ?p + n * 4096 \<le> unat vend" "unat vend < unat ?p + (n + 1) * 4096"
    using v(2) by linarith+
  then show ?thesis
    unfolding freerange_def using inv lo hi fresh p
    by (intro freerange_loop_runs) (auto simp: word_le_nat_alt)
qed

theorem freerange_frees_pages_witness:
  "runs (freerange 0x80100000 0x80100001 0x80104000
      \<lparr>mem = (\<lambda>_. 0), io = [], wakeups = [], freelist = 0, use_lock = False\<rparr>)
    (\<lambda>_ t. kmem_inv 0x80100000 t [0x80103000, 0x80102000, 0x80101000])"
proof -
  let ?s = "\<lparr>mem = (\<lambda>_. 0), io = [], wakeups = [], freelist = 0, use_lock = False\<rparr>"
  have p: "PGROUNDUP 0x80100001 = 0x80101000" by (simp add: PGROUNDUP_def PGSIZE_def)
  have "kmem_inv 0x80100000 ?s []" by (simp add: kmem_inv_def)
  then have "runs (freerange 0x80100000 0x80100001 0x80104000 ?s)
      (\<lambda>_ t. kmem_inv 0x80100000 t (rev (page_seq (PGROUNDUP 0x80100001) 3) @ []))"
    by (rule freerange_frees_pages) (simp_all add: p)
  moreover have "rev (page_seq 0x80101000 3) = [0x80103000, 0x80102000, 0x80101000]"
    by (simp add: page_seq_def PGSIZE_def upt_conv_Cons)
  ultimately show ?thesis by (simp add: p)
qed

text \<open>
  C9. The pages handed out by successive calls of \<^verbatim>\<open>kalloc\<close> are page-aligned, lie between
  \<^verbatim>\<open>end\<close> and \<^verbatim>\<open>PHYSTOP\<close>, are pairwise different and different from every
  page still free; a call fails only when no page is left.
\<close>

theorem kalloc_pages_distinct:
  assumes inv: "kmem_inv kend s xs"
  shows "runs (alloc_pages n s) (\<lambda>rs t. \<exists>ys. kmem_inv kend t ys \<and> distinct (rs @ ys) \<and>
    set rs \<union> set ys = set xs \<and> length rs = min n (length xs) \<and> (\<forall>r \<in> set rs. page_ok kend r))"
proof (rule runs_mono[OF alloc_pages_runs[OF inv, of n]])
  fix rs and t :: "'a kalloc_state_scheme"
  assume a: "rs = take n xs \<and> kmem_inv kend t (drop n xs)"
  have "distinct xs" and "\<forall>x \<in> set xs. page_ok kend x" using inv by (auto simp: kmem_inv_def)
  moreover have "set (take n xs) \<union> set (drop n xs) = set xs"
    by (metis append_take_drop_id set_append)
  ultimately show "\<exists>ys. kmem_inv kend t ys \<and> distinct (rs @ ys) \<and>
      set rs \<union> set ys = set xs \<and> length rs = min n (length xs) \<and> (\<forall>r \<in> set rs. page_ok kend r)"
    using a by (intro exI[of _ "drop n xs"]) (auto simp: min.commute dest: in_set_takeD)
qed

definition two_free_pages :: kalloc_state where
  "two_free_pages = \<lparr>mem = store32 (\<lambda>_. 0) 0x80102000 0x80101000, io = [], wakeups = [],
     freelist = 0x80102000, use_lock = False\<rparr>"

theorem kalloc_pages_distinct_witness:
  "runs (alloc_pages 3 two_free_pages) (\<lambda>rs t. length rs = 2 \<and> distinct rs)"
proof -
  have "load32 (mem two_free_pages) 0x80101000 = 0"
    by (simp add: two_free_pages_def load32_store32_other) (simp add: load32_def)
  then have "kmem_inv 0x80100000 two_free_pages [0x80102000, 0x80101000]"
    by (simp add: kmem_inv_def two_free_pages_def page_ok_def V2P_def layout_defs)
  from kalloc_pages_distinct[OF this, of 3] show ?thesis
    by (auto elim: runs_mono)
qed

end
