(* ===== verification/Sysarg.thy ===== *)
theory Sysarg
  imports Kalloc
begin

text \<open>
  How a system call reads its arguments, the first part of \<^verbatim>\<open>src/syscall.c\<close>. The
  addresses of the current process are part of \<open>mem\<close>, as the kernel sees them while the
  process runs; \<open>uproc_state\<close> adds what the code reads of \<^verbatim>\<open>myproc()\<close>. A
  result \<open>None\<close> is the return value \<open>-1\<close>, and \<open>Some\<close> holds what is stored
  through the result pointer.
\<close>

section \<open>State and operations\<close>

record uproc_state = kalloc_state +
  cur_pid :: int
  cur_name :: string
  cur_sz :: u32
  cur_esp :: u32
  cur_eax :: u32
  cur_killed :: bool

definition fetchint :: "u32 \<Rightarrow> 's uproc_state_scheme \<Rightarrow> int option" where
  "fetchint addr s =
     (if cur_sz s \<le> addr \<or> cur_sz s < addr + 4 then None else Some (load_int (mem s) addr))"

text \<open>The loop looks at \<open>n\<close> more bytes and counts the ones it has passed.\<close>

fun fetchstr_loop :: "memory \<Rightarrow> u32 \<Rightarrow> nat \<Rightarrow> nat \<Rightarrow> nat option" where
  "fetchstr_loop m p i 0 = None"
| "fetchstr_loop m p i (Suc n) = (if m p = 0 then Some i else fetchstr_loop m (p + 1) (Suc i) n)"

definition fetchstr :: "u32 \<Rightarrow> 's uproc_state_scheme \<Rightarrow> (u32 \<times> nat) option" where
  "fetchstr addr s =
     (if cur_sz s \<le> addr then None
      else map_option (Pair addr) (fetchstr_loop (mem s) addr 0 (unat (cur_sz s) - unat addr)))"

definition argint :: "int \<Rightarrow> 's uproc_state_scheme \<Rightarrow> int option" where
  "argint n s = fetchint (cur_esp s + 4 + 4 * word_of_int n) s"

definition argptr :: "int \<Rightarrow> int \<Rightarrow> 's uproc_state_scheme \<Rightarrow> u32 option" where
  "argptr n siz s =
     (case argint n s of
        None \<Rightarrow> None
      | Some i \<Rightarrow>
          if siz < 0 \<or> cur_sz s \<le> word_of_int i \<or> cur_sz s < word_of_int i + word_of_int siz then None
          else Some (word_of_int i))"

definition argstr :: "int \<Rightarrow> 's uproc_state_scheme \<Rightarrow> (u32 \<times> nat) option" where
  "argstr n s = (case argint n s of None \<Rightarrow> None | Some addr \<Rightarrow> fetchstr (word_of_int addr) s)"

section \<open>Bounds\<close>

lemma in_user_range:
  fixes a k :: u32
  assumes "sz \<le> KERNBASE" "a < sz" "a + k \<le> sz" "unat k \<le> 2 ^ 31"
  shows "unat a + unat k \<le> unat sz"
proof -
  have "unat a < unat sz" "unat sz \<le> 2 ^ 31"
    using assms by (simp_all add: word_less_nat_alt word_le_nat_alt KERNBASE_def)
  with assms show ?thesis by (simp add: word_le_nat_alt unat_word_ariths)
qed

lemma fetchint_bounds:
  assumes "fetchint addr s = Some v" "cur_sz s \<le> KERNBASE"
  shows "unat addr + 4 \<le> unat (cur_sz s) \<and> v = load_int (mem s) addr"
  using assms in_user_range[of "cur_sz s" addr 4] by (auto simp: fetchint_def not_le not_less split: if_splits)

lemma argptr_bounds:
  assumes "argptr n siz s = Some p" "cur_sz s \<le> KERNBASE" "in_i32 siz"
  shows "0 \<le> siz \<and> unat p < unat (cur_sz s) \<and> unat p + nat siz \<le> unat (cur_sz s)"
proof -
  from assms(1) obtain i where i: "0 \<le> siz" "p < cur_sz s" "p + word_of_int siz \<le> cur_sz s"
    by (auto simp: argptr_def not_le not_less split: option.splits if_splits)
  have "unat (word_of_int siz :: u32) = nat siz"
    using i(1) assms(3) by (simp add: in_i32_def unat_eq_nat_uint uint_word_of_int)
  with in_user_range[OF assms(2) i(2,3)] i assms(3) show ?thesis
    by (simp add: in_i32_def word_less_nat_alt nat_le_iff)
qed

lemma fetchstr_loop_SomeD:
  "fetchstr_loop m p i n = Some k \<Longrightarrow>
     \<exists>l. k = i + l \<and> l < n \<and> m (p + of_nat l) = 0 \<and> (\<forall>j < l. m (p + of_nat j) \<noteq> 0)"
proof (induction m p i n rule: fetchstr_loop.induct)
  case (2 m p i n)
  show ?case
  proof (cases "m p = 0")
    case True
    with "2.prems" show ?thesis by (intro exI[of _ 0]) auto
  next
    case False
    with 2 obtain l where l: "k = Suc i + l" "l < n" "m (p + 1 + of_nat l) = 0"
        "\<forall>j < l. m (p + 1 + of_nat j) \<noteq> 0" by auto
    have "m (p + of_nat j) \<noteq> 0" if "j < Suc l" for j
      using False l(4) that by (cases j) (auto simp: add.assoc)
    with l show ?thesis by (intro exI[of _ "Suc l"]) (auto simp: add.assoc)
  qed
qed simp

lemma fetchstr_loop_None:
  "fetchstr_loop m p i n = None \<longleftrightarrow> (\<forall>j < n. m (p + of_nat j) \<noteq> 0)"
proof (induction m p i n rule: fetchstr_loop.induct)
  case (2 m p i n)
  then show ?case by (auto simp: All_less_Suc2 add.assoc split: if_splits)
qed simp

lemma fetchstr_loop_cstr:
  assumes "cstr_at m p xs" "length xs < n"
  shows "fetchstr_loop m p 0 n = Some (length xs)"
proof -
  have z: "m (p + of_nat (length xs)) = 0" and nz: "m (p + of_nat j) \<noteq> 0" if "j < length xs" for j
    using assms that by (auto simp: cstr_at_def) (metis nth_bytes_at nth_mem)
  then obtain k where k: "fetchstr_loop m p 0 n = Some k"
    using assms(2) fetchstr_loop_None[of m p 0 n] assms(1) by (cases "fetchstr_loop m p 0 n") (auto simp: cstr_at_def)
  from fetchstr_loop_SomeD[OF k] obtain l where "k = l" "m (p + of_nat l) = 0" "\<forall>j < l. m (p + of_nat j) \<noteq> 0"
    by auto
  with assms nz show ?thesis using k
    by (metis cstr_at_def linorder_neqE_nat)
qed

section \<open>Properties\<close>

text \<open>
  C26. A pointer argument accepted by \<^verbatim>\<open>argptr\<close> designates a block that lies entirely inside
  the address space of the calling process, for every size, when the process ends below the
  kernel.
\<close>

theorem argptr_in_bounds:
  assumes "argptr n siz s = Some p" and "cur_sz s \<le> KERNBASE" and "in_i32 siz"
  shows "0 \<le> siz \<and> unat p + nat siz \<le> unat (cur_sz s) \<and> unat p < unat (cur_sz s)"
  using argptr_bounds[OF assms] by blast

definition arg_state :: uproc_state where
  "arg_state = \<lparr>mem = store32 (store32 (\<lambda>_. 0) 0x2f04 0x1000) 0x1000 0x6968, io = [], wakeups = [], freelist = 0, use_lock = False,
     cur_pid = 3, cur_name = ''sh'', cur_sz = 0x3000, cur_esp = 0x2f00, cur_eax = 5, cur_killed = False\<rparr>"

lemma argint_arg_state: "argint 0 arg_state = Some 0x1000"
  by (simp add: argint_def fetchint_def arg_state_def load_int_def load32_store32_other)

theorem argptr_in_bounds_witness:
  "argptr 0 0x2000 arg_state = Some 0x1000 \<and> unat (0x1000 :: u32) + nat 0x2000 \<le> unat (cur_sz arg_state)"
proof -
  have "argptr 0 0x2000 arg_state = Some 0x1000"
    by (simp add: argptr_def argint_arg_state) (simp add: arg_state_def)
  with argptr_in_bounds[OF this] show ?thesis by (simp add: arg_state_def KERNBASE_def in_i32_def)
qed

text \<open>
  \<^verbatim>\<open>fetchstr\<close> accepts an address exactly when a terminating zero follows it inside the
  process, and returns the length of the string up to the first one.
\<close>

theorem fetchstr_exact:
  "fetchstr addr s = Some (p, n) \<longleftrightarrow>
     p = addr \<and> unat addr + n < unat (cur_sz s) \<and> cstr_at (mem s) addr (bytes_at (mem s) addr n)"
proof
  assume a: "fetchstr addr s = Some (p, n)"
  then have "fetchstr_loop (mem s) addr 0 (unat (cur_sz s) - unat addr) = Some n" "p = addr"
    by (auto simp: fetchstr_def split: if_splits)
  with fetchstr_loop_SomeD[OF this(1)]
  show "p = addr \<and> unat addr + n < unat (cur_sz s) \<and> cstr_at (mem s) addr (bytes_at (mem s) addr n)"
    by (auto simp: cstr_at_def in_set_conv_nth)
next
  assume a: "p = addr \<and> unat addr + n < unat (cur_sz s) \<and> cstr_at (mem s) addr (bytes_at (mem s) addr n)"
  then show "fetchstr addr s = Some (p, n)"
    using fetchstr_loop_cstr[of "mem s" addr "bytes_at (mem s) addr n"]
    by (auto simp: fetchstr_def word_le_nat_alt)
qed

end
