(* ===== verification/Sleeplock.thy ===== *)
theory Sleeplock
  imports Sysarg
begin

text \<open>
  Sleep-locks, \<^verbatim>\<open>src/sleeplock.c\<close>. An operation works on the lock alone: \<open>None\<close> of
  \<open>acquiresleep\<close> stands for \<^verbatim>\<open>sleep\<close> on the lock, and \<open>releasesleep\<close> is followed by
  \<^verbatim>\<open>wakeup\<close> on it. The spin lock inside makes each of them one step. The second part runs any
  number of processes over one lock.
\<close>

section \<open>Operations\<close>

record sleeplock =
  sl_locked :: bool
  sl_pid :: int

definition initsleeplock :: sleeplock where
  "initsleeplock = \<lparr>sl_locked = False, sl_pid = 0\<rparr>"

definition acquiresleep :: "int \<Rightarrow> sleeplock \<Rightarrow> sleeplock option" where
  "acquiresleep pid lk = (if sl_locked lk then None else Some (lk\<lparr>sl_locked := True, sl_pid := pid\<rparr>))"

definition releasesleep :: "sleeplock \<Rightarrow> sleeplock" where
  "releasesleep lk = lk\<lparr>sl_locked := False, sl_pid := 0\<rparr>"

definition holdingsleep :: "int \<Rightarrow> sleeplock \<Rightarrow> bool" where
  "holdingsleep pid lk \<longleftrightarrow> sl_locked lk \<and> sl_pid lk = pid"

lemma holdingsleep_acquire: "acquiresleep pid lk = Some lk' \<Longrightarrow> holdingsleep pid lk'"
  by (auto simp: acquiresleep_def holdingsleep_def split: if_splits)

lemma acquiresleep_free [simp]: "\<not> sl_locked lk \<Longrightarrow> acquiresleep pid lk = Some (lk\<lparr>sl_locked := True, sl_pid := pid\<rparr>)"
  by (simp add: acquiresleep_def)

section \<open>Processes over one lock\<close>

text \<open>
  Where each process stands: outside, about to test the lock in \<^verbatim>\<open>acquiresleep\<close>, asleep on it,
  or past \<^verbatim>\<open>acquiresleep\<close>. Process numbers are positive.
\<close>

datatype sl_phase = SlOut | SlWant | SlAsleep | SlHold

record sl_sys =
  sl :: sleeplock
  ph :: "nat \<Rightarrow> sl_phase"

definition sl_wakeup :: "(nat \<Rightarrow> sl_phase) \<Rightarrow> nat \<Rightarrow> sl_phase" where
  "sl_wakeup f p = (if f p = SlAsleep then SlWant else f p)"

inductive sl_step :: "sl_sys \<Rightarrow> sl_sys \<Rightarrow> bool" where
  want: "ph s p = SlOut \<Longrightarrow> sl_step s (s\<lparr>ph := (ph s)(p := SlWant)\<rparr>)"
| sleep: "ph s p = SlWant \<Longrightarrow> acquiresleep (int (Suc p)) (sl s) = None \<Longrightarrow> sl_step s (s\<lparr>ph := (ph s)(p := SlAsleep)\<rparr>)"
| take: "ph s p = SlWant \<Longrightarrow> acquiresleep (int (Suc p)) (sl s) = Some lk \<Longrightarrow>
    sl_step s (s\<lparr>sl := lk, ph := (ph s)(p := SlHold)\<rparr>)"
| drop: "ph s p = SlHold \<Longrightarrow> sl_step s (s\<lparr>sl := releasesleep (sl s), ph := sl_wakeup ((ph s)(p := SlOut))\<rparr>)"

inductive sl_reach :: "sl_sys \<Rightarrow> bool" where
  init: "sl_reach \<lparr>sl = initsleeplock, ph = (\<lambda>_. SlOut)\<rparr>"
| step: "sl_reach s \<Longrightarrow> sl_step s t \<Longrightarrow> sl_reach t"

text \<open>Processes that hold the lock are the one the lock names, and nobody sleeps on a free lock.\<close>

definition sl_inv :: "sl_sys \<Rightarrow> bool" where
  "sl_inv s \<longleftrightarrow>
     (if sl_locked (sl s) then \<exists>h. sl_pid (sl s) = int (Suc h) \<and> (\<forall>p. ph s p = SlHold \<longleftrightarrow> p = h)
      else \<forall>p. ph s p \<noteq> SlHold \<and> ph s p \<noteq> SlAsleep)"

lemma sl_inv_step:
  assumes "sl_inv s" "sl_step s t"
  shows "sl_inv t"
proof (cases "sl_locked (sl s)")
  case True
  then obtain h where h: "sl_pid (sl s) = int (Suc h)" "\<And>p. ph s p = SlHold \<longleftrightarrow> p = h"
    using assms(1) by (auto simp: sl_inv_def)
  then have "ph s h = SlHold" by simp
  with assms(2) True h show ?thesis
    by (cases rule: sl_step.cases;
        auto simp: sl_inv_def acquiresleep_def releasesleep_def sl_wakeup_def intro!: exI[of _ h] split: if_splits;
        metis sl_phase.distinct)
next
  case False
  then have "\<And>p. ph s p \<noteq> SlHold" "\<And>p. ph s p \<noteq> SlAsleep" using assms(1) by (auto simp: sl_inv_def)
  with assms(2) False show ?thesis
    by (cases rule: sl_step.cases) (auto simp: sl_inv_def acquiresleep_def)
qed

lemma sl_inv_reach: "sl_reach s \<Longrightarrow> sl_inv s"
proof (induction rule: sl_reach.induct)
  case init
  then show ?case by (simp add: sl_inv_def initsleeplock_def)
qed (rule sl_inv_step)

text \<open>
  C10. In every interleaving of any number of processes at most one holds the sleep-lock, it is the one
  \<^verbatim>\<open>holdingsleep\<close> confirms, and no wakeup is lost: a process sleeps on the lock only while
  another holds it.
\<close>

theorem sleeplock_exclusion_no_lost_wakeup:
  assumes "sl_reach s"
  shows "(ph s p = SlHold \<longleftrightarrow> holdingsleep (int (Suc p)) (sl s))
    \<and> (ph s p = SlHold \<longrightarrow> ph s q = SlHold \<longrightarrow> p = q)
    \<and> (ph s p = SlAsleep \<longrightarrow> (\<exists>q. q \<noteq> p \<and> ph s q = SlHold))"
proof -
  have i: "sl_inv s" using sl_inv_reach[OF assms] .
  show ?thesis
  proof (cases "sl_locked (sl s)")
    case True
    then obtain h where "sl_pid (sl s) = int (Suc h)" "\<And>p. ph s p = SlHold \<longleftrightarrow> p = h" using i by (auto simp: sl_inv_def)
    with True show ?thesis by (auto simp: holdingsleep_def intro: exI[of _ h]; metis sl_phase.distinct)
  next
    case False
    with i show ?thesis by (simp add: sl_inv_def holdingsleep_def)
  qed
qed

theorem sleeplock_exclusion_no_lost_wakeup_witness:
  "\<exists>s. sl_reach s \<and> ph s 0 = SlHold \<and> ph s 1 = SlAsleep \<and> (\<exists>q. q \<noteq> 1 \<and> ph s q = SlHold)"
proof -
  define s0 where "s0 = \<lparr>sl = initsleeplock, ph = (\<lambda>_. SlOut)\<rparr>"
  define s1 where "s1 = s0\<lparr>ph := (ph s0)(0 := SlWant)\<rparr>"
  define s2 where "s2 = s1\<lparr>sl := \<lparr>sl_locked = True, sl_pid = 1\<rparr>, ph := (ph s1)(0 := SlHold)\<rparr>"
  define s3 where "s3 = s2\<lparr>ph := (ph s2)(1 := SlWant)\<rparr>"
  define s4 where "s4 = s3\<lparr>ph := (ph s3)(1 := SlAsleep)\<rparr>"
  have "sl_reach s0" unfolding s0_def by (rule sl_reach.init)
  moreover have "sl_step s0 s1" unfolding s1_def by (rule sl_step.want) (simp add: s0_def)
  moreover have "sl_step s1 s2" unfolding s2_def by (rule sl_step.take) (simp_all add: s1_def s0_def initsleeplock_def)
  moreover have "sl_step s2 s3" unfolding s3_def by (rule sl_step.want) (simp add: s2_def s1_def s0_def)
  moreover have "sl_step s3 s4" unfolding s4_def by (rule sl_step.sleep) (simp_all add: s3_def s2_def acquiresleep_def)
  ultimately have r: "sl_reach s4" by (meson sl_reach.step)
  moreover have "ph s4 0 = SlHold" "ph s4 1 = SlAsleep" by (simp_all add: s4_def s3_def s2_def)
  ultimately show ?thesis using sleeplock_exclusion_no_lost_wakeup[OF r, of 1] by blast
qed

end
