(* ===== verification/Devices.thy ===== *)
theory Devices
  imports Sysarg
begin

text \<open>
  The device drivers below the console: interrupt controllers (\<^verbatim>\<open>src/ioapic.c\<close>,
  \<^verbatim>\<open>src/picirq.c\<close>, \<^verbatim>\<open>src/lapic.c\<close>), serial port (\<^verbatim>\<open>src/uart.c\<close>),
  keyboard (\<^verbatim>\<open>src/kbd.c\<close>, \<^verbatim>\<open>src/kbd.h\<close>) and the clock of \<^verbatim>\<open>src/lapic.c\<close>.
  Device registers in memory are accessed by \<open>reg_read\<close> and \<open>reg_write\<close>, ports by
  \<open>inb\<close> and \<open>outb\<close>; every access is an event of \<open>io\<close>. A loop that waits for a device is
  a partial function whose value \<open>None\<close> is that it never ends. \<^verbatim>\<open>microdelay\<close> has an
  empty body in the sources.
\<close>

section \<open>State\<close>

record dev_state = uproc_state +
  uart :: bool
  lapic :: u32
  shift :: u32

definition reg_read :: "platform \<Rightarrow> u32 \<Rightarrow> 's machine_scheme \<Rightarrow> u32 \<times> 's machine_scheme" where
  "reg_read P a s = (let v = dev_reg P (io s) a in (v, s\<lparr>io := io s @ [RegR a v]\<rparr>))"

definition reg_write :: "u32 \<Rightarrow> u32 \<Rightarrow> 's machine_scheme \<Rightarrow> 's machine_scheme" where
  "reg_write a v s = s\<lparr>io := io s @ [RegW a v]\<rparr>"

section \<open>traps.h\<close>

definition T_DIVIDE :: u32 where "T_DIVIDE = 0"
definition T_PGFLT :: u32 where "T_PGFLT = 14"
definition T_SYSCALL :: u32 where "T_SYSCALL = 64"
definition T_IRQ0 :: u32 where "T_IRQ0 = 32"
definition IRQ_TIMER :: u32 where "IRQ_TIMER = 0"
definition IRQ_KBD :: u32 where "IRQ_KBD = 1"
definition IRQ_COM1 :: u32 where "IRQ_COM1 = 4"
definition IRQ_IDE :: u32 where "IRQ_IDE = 14"
definition IRQ_ERROR :: u32 where "IRQ_ERROR = 19"
definition IRQ_SPURIOUS :: u32 where "IRQ_SPURIOUS = 31"

lemmas trap_defs = T_DIVIDE_def T_PGFLT_def T_SYSCALL_def T_IRQ0_def IRQ_TIMER_def IRQ_KBD_def IRQ_COM1_def
  IRQ_IDE_def IRQ_ERROR_def IRQ_SPURIOUS_def

section \<open>ioapic.c, picirq.c\<close>

definition IOAPIC :: u32 where "IOAPIC = 0xFEC00000"
definition REG_TABLE :: u32 where "REG_TABLE = 0x10"
definition INT_DISABLED :: u32 where "INT_DISABLED = 0x00010000"

definition ioapicread :: "platform \<Rightarrow> u32 \<Rightarrow> 's machine_scheme \<Rightarrow> u32 \<times> 's machine_scheme" where
  "ioapicread P reg s = reg_read P (IOAPIC + 16) (reg_write IOAPIC reg s)"

definition ioapicwrite :: "u32 \<Rightarrow> u32 \<Rightarrow> 's machine_scheme \<Rightarrow> 's machine_scheme" where
  "ioapicwrite reg data s = reg_write (IOAPIC + 16) data (reg_write IOAPIC reg s)"

definition ioapicenable :: "u32 \<Rightarrow> u32 \<Rightarrow> 's machine_scheme \<Rightarrow> 's machine_scheme" where
  "ioapicenable irq cpunum s =
     ioapicwrite (REG_TABLE + 2 * irq + 1) (push_bit 24 cpunum)
       (ioapicwrite (REG_TABLE + 2 * irq) (T_IRQ0 + irq) s)"

definition picinit :: "'s machine_scheme \<Rightarrow> 's machine_scheme" where
  "picinit s = outb (0xA0 + 1) 0xFF (outb (0x20 + 1) 0xFF s)"

section \<open>lapic.c: the local interrupt controller\<close>

definition lapicw :: "platform \<Rightarrow> u32 \<Rightarrow> u32 \<Rightarrow> 's dev_state_scheme \<Rightarrow> 's dev_state_scheme" where
  "lapicw P index v s = snd (reg_read P (lapic s + 0x20) (reg_write (lapic s + 4 * index) v s))"

partial_function (option) lapic_wait :: "platform \<Rightarrow> 's dev_state_scheme \<Rightarrow> 's dev_state_scheme option" where
  "lapic_wait P s =
     (case reg_read P (lapic s + 0x300) s of
        (v, s) \<Rightarrow> if v AND 0x1000 \<noteq> 0 then lapic_wait P s else Some s)"

definition lapicinit :: "platform \<Rightarrow> 's dev_state_scheme \<Rightarrow> 's dev_state_scheme option" where
  "lapicinit P s =
     (if lapic s = 0 then Some s
      else
        let s = lapicw P (0xF0 div 4) (0x100 OR (T_IRQ0 + IRQ_SPURIOUS)) s;
            s = lapicw P (0x3E0 div 4) 0xB s;
            s = lapicw P (0x320 div 4) (0x20000 OR (T_IRQ0 + IRQ_TIMER)) s;
            s = lapicw P (0x380 div 4) 10000000 s;
            s = lapicw P (0x350 div 4) 0x10000 s;
            s = lapicw P (0x360 div 4) 0x10000 s;
            (ver, s) = reg_read P (lapic s + 0x30) s;
            s = (if 4 \<le> drop_bit 16 ver AND 0xFF then lapicw P (0x340 div 4) 0x10000 s else s);
            s = lapicw P (0x370 div 4) (T_IRQ0 + IRQ_ERROR) s;
            s = lapicw P (0x280 div 4) 0 s;
            s = lapicw P (0x280 div 4) 0 s;
            s = lapicw P (0xB0 div 4) 0 s;
            s = lapicw P (0x310 div 4) 0 s;
            s = lapicw P (0x300 div 4) (0x80000 OR 0x500 OR 0x8000) s
        in case lapic_wait P s of
             None \<Rightarrow> None
           | Some s \<Rightarrow> Some (lapicw P (0x80 div 4) 0 s))"

definition lapicid :: "platform \<Rightarrow> 's dev_state_scheme \<Rightarrow> u32 \<times> 's dev_state_scheme" where
  "lapicid P s =
     (if lapic s = 0 then (0, s)
      else case reg_read P (lapic s + 0x20) s of (v, s) \<Rightarrow> (drop_bit 24 v, s))"

definition lapiceoi :: "platform \<Rightarrow> 's dev_state_scheme \<Rightarrow> 's dev_state_scheme" where
  "lapiceoi P s = (if lapic s \<noteq> 0 then lapicw P (0xB0 div 4) 0 s else s)"

definition lapic_startup :: "platform \<Rightarrow> u8 \<Rightarrow> u32 \<Rightarrow> 's dev_state_scheme \<Rightarrow> 's dev_state_scheme" where
  "lapic_startup P apicid addr s =
     lapicw P (0x300 div 4) (0x600 OR drop_bit 12 addr) (lapicw P (0x310 div 4) (push_bit 24 (ucast apicid)) s)"

definition lapicstartap :: "platform \<Rightarrow> u8 \<Rightarrow> u32 \<Rightarrow> 's dev_state_scheme \<Rightarrow> 's dev_state_scheme" where
  "lapicstartap P apicid addr s =
     (let s = outb 0x70 0xF s;
          s = outb 0x71 0x0A s;
          wrv = P2V 0x467;
          s = s\<lparr>mem := store16 (mem s) wrv 0\<rparr>;
          s = s\<lparr>mem := store16 (mem s) (wrv + 2) (ucast (drop_bit 4 addr))\<rparr>;
          s = lapicw P (0x310 div 4) (push_bit 24 (ucast apicid)) s;
          s = lapicw P (0x300 div 4) (0x500 OR 0x8000 OR 0x4000) s;
          s = lapicw P (0x300 div 4) (0x500 OR 0x8000) s
      in lapic_startup P apicid addr (lapic_startup P apicid addr s))"

section \<open>lapic.c: the clock\<close>

record rtcdate =
  second :: u32
  minute :: u32
  hour :: u32
  day :: u32
  month :: u32
  year :: u32

definition cmos_read :: "platform \<Rightarrow> u8 \<Rightarrow> 's machine_scheme \<Rightarrow> u32 \<times> 's machine_scheme" where
  "cmos_read P reg s = (case inb P 0x71 (outb 0x70 reg s) of (v, s) \<Rightarrow> (ucast v, s))"

definition fill_rtcdate :: "platform \<Rightarrow> 's machine_scheme \<Rightarrow> rtcdate \<times> 's machine_scheme" where
  "fill_rtcdate P s =
     (let (sec, s) = cmos_read P 0x00 s;
          (min, s) = cmos_read P 0x02 s;
          (hr, s) = cmos_read P 0x04 s;
          (d, s) = cmos_read P 0x07 s;
          (mon, s) = cmos_read P 0x08 s;
          (y, s) = cmos_read P 0x09 s
      in (\<lparr>second = sec, minute = min, hour = hr, day = d, month = mon, year = y\<rparr>, s))"

partial_function (option) cmostime_loop ::
  "platform \<Rightarrow> 's machine_scheme \<Rightarrow> (rtcdate \<times> 's machine_scheme) option" where
  "cmostime_loop P s =
     (case fill_rtcdate P s of (t1, s) \<Rightarrow>
      case cmos_read P 0x0a s of (sa, s) \<Rightarrow>
        if sa AND 0x80 \<noteq> 0 then cmostime_loop P s
        else case fill_rtcdate P s of (t2, s) \<Rightarrow>
          if t1 = t2 then Some (t1, s) else cmostime_loop P s)"

definition CONV :: "u32 \<Rightarrow> u32" where
  "CONV x = drop_bit 4 x * 10 + (x AND 0xf)"

definition cmostime :: "platform \<Rightarrow> 's machine_scheme \<Rightarrow> (rtcdate \<times> 's machine_scheme) option" where
  "cmostime P s =
     (let (sb, s) = cmos_read P 0x0b s;
          bcd = (sb AND 4 = 0)
      in case cmostime_loop P s of
           None \<Rightarrow> None
         | Some (t1, s) \<Rightarrow>
             let t1 = (if bcd then \<lparr>second = CONV (second t1), minute = CONV (minute t1), hour = CONV (hour t1),
                         day = CONV (day t1), month = CONV (month t1), year = CONV (year t1)\<rparr> else t1)
             in Some (t1\<lparr>year := year t1 + 2000\<rparr>, s))"

section \<open>uart.c\<close>

definition COM1 :: u16 where "COM1 = 0x3f8"

text \<open>Polls the status register at most \<open>n\<close> times until the transmitter is ready.\<close>

fun uart_poll :: "platform \<Rightarrow> nat \<Rightarrow> 's machine_scheme \<Rightarrow> 's machine_scheme" where
  "uart_poll P 0 s = s"
| "uart_poll P (Suc n) s =
     (case inb P (COM1 + 5) s of (v, s) \<Rightarrow> if v AND 0x20 \<noteq> 0 then s else uart_poll P n s)"

definition uartputc :: "platform \<Rightarrow> int \<Rightarrow> 's dev_state_scheme \<Rightarrow> 's dev_state_scheme" where
  "uartputc P c s = (if \<not> uart s then s else outb COM1 (word_of_int c) (uart_poll P 128 s))"

definition uartgetc :: "platform \<Rightarrow> 's dev_state_scheme \<Rightarrow> int \<times> 's dev_state_scheme" where
  "uartgetc P s =
     (if \<not> uart s then (-1, s)
      else case inb P (COM1 + 5) s of (v, s) \<Rightarrow>
        if v AND 1 = 0 then (-1, s)
        else case inb P COM1 s of (v, s) \<Rightarrow> (uint v, s))"

definition uartinit :: "platform \<Rightarrow> 's dev_state_scheme \<Rightarrow> 's dev_state_scheme" where
  "uartinit P s =
     (let s = outb (COM1 + 2) 0 s;
          s = outb (COM1 + 3) 0x80 s;
          s = outb COM1 (115200 div 9600) s;
          s = outb (COM1 + 1) 0 s;
          s = outb (COM1 + 3) 0x03 s;
          s = outb (COM1 + 4) 0 s;
          s = outb (COM1 + 1) 0x01 s;
          (v, s) = inb P (COM1 + 5) s
      in if v = 0xFF then s
         else
           let s = s\<lparr>uart := True\<rparr>;
               s = snd (inb P (COM1 + 2) s);
               s = snd (inb P COM1 s);
               s = ioapicenable IRQ_COM1 0 s
           in fold (\<lambda>c s. uartputc P (of_char c) s) ''xv6...\<newline>'' s)"

section \<open>kbd.h, kbd.c\<close>

definition NO :: u8 where "NO = 0"
definition SHIFT :: u32 where "SHIFT = 1"
definition CTL :: u32 where "CTL = 2"
definition ALT :: u32 where "ALT = 4"
definition CAPSLOCK :: u32 where "CAPSLOCK = 8"
definition NUMLOCK :: u32 where "NUMLOCK = 16"
definition SCROLLLOCK :: u32 where "SCROLLLOCK = 32"
definition E0ESC :: u32 where "E0ESC = 64"

lemmas kbd_flags = SHIFT_def CTL_def ALT_def CAPSLOCK_def NUMLOCK_def SCROLLLOCK_def E0ESC_def

definition shiftcode :: "u8 \<Rightarrow> u32" where
  "shiftcode d = (if d = 0x1D then CTL else if d = 0x2A then SHIFT else if d = 0x36 then SHIFT
     else if d = 0x38 then ALT else if d = 0x9D then CTL else if d = 0xB8 then ALT else 0)"

definition togglecode :: "u8 \<Rightarrow> u32" where
  "togglecode d = (if d = 0x3A then CAPSLOCK else if d = 0x45 then NUMLOCK
     else if d = 0x46 then SCROLLLOCK else 0)"

text \<open>A table with its first entries in order and designated ones after them.\<close>

definition key_table :: "u8 list \<Rightarrow> (u8 \<times> u8) list \<Rightarrow> u8 \<Rightarrow> u8" where
  "key_table row des d =
     (if unat d < length row then row ! unat d
      else case map_of des d of Some v \<Rightarrow> v | None \<Rightarrow> NO)"

definition special_keys :: "(u8 \<times> u8) list" where
  "special_keys = [(0xC8, 0xE2), (0xD0, 0xE3), (0xC9, 0xE6), (0xD1, 0xE7), (0xCB, 0xE4), (0xCD, 0xE5),
     (0x97, 0xE0), (0xCF, 0xE1), (0xD2, 0xE8), (0xD3, 0xE9)]"

definition chars :: "string \<Rightarrow> u8 list" where
  "chars = map of_char"

definition normalmap :: "u8 \<Rightarrow> u8" where
  "normalmap = key_table
     ([NO, 0x1B] @ chars ''1234567890-='' @ [8, 9] @ chars ''qwertyuiop[]'' @ [10, NO]
      @ chars ''asdfghjkl;'' @ [39, 96, NO, 92] @ chars ''zxcvbnm,./'' @ [NO] @ chars ''*'' @ [NO, 32]
      @ replicate 13 NO @ chars ''789-456+1230.'' @ replicate 4 NO)
     ((0x9C, 10) # (0xB5, of_char CHR ''/'') # special_keys)"

definition shiftmap :: "u8 \<Rightarrow> u8" where
  "shiftmap = key_table
     ([NO, 0x1B] @ chars ''!@#$%^&*()_+'' @ [8, 9] @ chars ''QWERTYUIOP{}'' @ [10, NO]
      @ chars ''ASDFGHJKL:'' @ [34, 126, NO, 124] @ chars ''ZXCVBNM<>?'' @ [NO] @ chars ''*'' @ [NO, 32]
      @ replicate 13 NO @ chars ''789-456+1230.'' @ replicate 4 NO)
     ((0x9C, 10) # (0xB5, of_char CHR ''/'') # special_keys)"

definition ctl :: "char \<Rightarrow> u8" where
  "ctl c = of_char c - 64"

definition ctlmap :: "u8 \<Rightarrow> u8" where
  "ctlmap = key_table
     (replicate 16 NO @ map ctl ''QWERTYUIOP'' @ [NO, NO, 13, NO] @ map ctl ''ASDFGHJKL'' @ replicate 4 NO
      @ [92 - 64] @ map ctl ''ZXCVBNM'' @ [NO, NO, ctl CHR ''/'', NO, NO])
     ((0x9C, 13) # (0xB5, ctl CHR ''/'') # special_keys)"

definition charcode :: "u32 \<Rightarrow> u8 \<Rightarrow> u8" where
  "charcode i = [normalmap, shiftmap, ctlmap, ctlmap] ! unat i"

definition kbd_caps :: "u32 \<Rightarrow> u32 \<Rightarrow> u32" where
  "kbd_caps sh c =
     (if sh AND CAPSLOCK \<noteq> 0
      then if 97 \<le> c \<and> c \<le> 122 then c + (65 - 97)
           else if 65 \<le> c \<and> c \<le> 90 then c + (97 - 65) else c
      else c)"

definition kbdgetc :: "platform \<Rightarrow> 's dev_state_scheme \<Rightarrow> int \<times> 's dev_state_scheme" where
  "kbdgetc P s =
     (let (st, s) = inb P 0x64 s
      in if st AND 0x01 = 0 then (-1, s)
         else
           let (data, s) = inb P 0x60 s
           in if data = 0xE0 then (0, s\<lparr>shift := shift s OR E0ESC\<rparr>)
              else if data AND 0x80 \<noteq> 0 then
                let data = (if shift s AND E0ESC \<noteq> 0 then data else data AND 0x7F)
                in (0, s\<lparr>shift := shift s AND NOT (shiftcode data OR E0ESC)\<rparr>)
              else
                let esc = (shift s AND E0ESC \<noteq> 0);
                    data = (if esc then data OR 0x80 else data);
                    sh = (if esc then shift s AND NOT E0ESC else shift s);
                    sh = (sh OR shiftcode data) XOR togglecode data;
                    c = ucast (charcode (sh AND (CTL OR SHIFT)) data)
                in (uint (kbd_caps sh c), s\<lparr>shift := sh\<rparr>))"

section \<open>The clock\<close>

text \<open>
  What the code relies on of the clock chip: a read of the data port returns the register selected
  by the last write to the index port. When the call starts, after the port traffic \<open>h0\<close>, the chip may be in the middle of
  an update, for \<open>n\<close> more port accesses: the registers of the date read as anything then, but the flag in register 10
  is set. Afterwards the registers hold \<open>reg\<close>, at least for the 60 accesses the call may need.
\<close>

definition cmos_chip :: "platform \<Rightarrow> io_event list \<Rightarrow> nat \<Rightarrow> (u8 \<Rightarrow> u8) \<Rightarrow> bool" where
  "cmos_chip P h0 n reg \<longleftrightarrow> reg 0x0a AND 0x80 = 0 \<and> (\<forall>h r. length h < n + 60 \<longrightarrow>
     (let v = dev_in P (h0 @ h @ [OutB 0x70 r]) 0x71
      in if n \<le> length h \<or> r = 0x0b then v = reg r else r = 0x0a \<longrightarrow> v AND 0x80 \<noteq> 0))"

definition bcd_byte :: "nat \<Rightarrow> u8" where
  "bcd_byte n = of_nat (16 * (n div 10) + n mod 10)"

text \<open>The state \<open>k\<close> port accesses after the start.\<close>

definition accesses :: "io_event list \<Rightarrow> nat \<Rightarrow> 's machine_scheme \<Rightarrow> bool" where
  "accesses h0 k s \<longleftrightarrow> (\<exists>h. io s = h0 @ h \<and> length h = k)"

lemma accesses_cmos_read: "accesses h0 k s \<Longrightarrow> accesses h0 (k + 2) (snd (cmos_read P r s))"
  by (auto simp: accesses_def cmos_read_def inb_def outb_def Let_def)

lemma accesses_fill: "accesses h0 k s \<Longrightarrow> accesses h0 (k + 12) (snd (fill_rtcdate P s))"
  by (drule accesses_cmos_read[of _ _ _ P 0], drule accesses_cmos_read[of _ _ _ P 2], drule accesses_cmos_read[of _ _ _ P 4],
      drule accesses_cmos_read[of _ _ _ P 7], drule accesses_cmos_read[of _ _ _ P 8], drule accesses_cmos_read[of _ _ _ P 9])
    (simp add: fill_rtcdate_def Let_def split_def add.commute del: add_2_eq_Suc add_2_eq_Suc')

lemma cmos_read_chip:
  assumes "cmos_chip P h0 n reg" "accesses h0 k s" "k < n + 60"
  shows "n \<le> k \<or> r = 0x0b \<Longrightarrow> fst (cmos_read P r s) = ucast (reg r)"
    and "fst (cmos_read P 0x0a s) AND 0x80 \<noteq> 0 \<longleftrightarrow> k < n"
proof -
  obtain h where h: "io s = h0 @ h" "length h = k" using assms(2) by (auto simp: accesses_def)
  let ?v = "\<lambda>r. dev_in P (h0 @ h @ [OutB 0x70 r]) 0x71"
  have c: "fst (cmos_read P r s) = ucast (?v r)" for r by (simp add: cmos_read_def inb_def outb_def Let_def h(1))
  have v: "if n \<le> k \<or> r = 0x0b then ?v r = reg r else r = 0x0a \<longrightarrow> ?v r AND 0x80 \<noteq> 0" for r
    using assms(1,3) h(2) unfolding cmos_chip_def Let_def by blast
  show "fst (cmos_read P r s) = ucast (reg r)" if "n \<le> k \<or> r = 0x0b" using v[of r] c[of r] that by simp
  have m: "ucast x AND (0x80 :: u32) = ucast (x AND 0x80)" for x :: u8
    by (rule bit_word_eqI) (auto simp: bit_simps dest: bit_imp_le_length)
  have z: "ucast x = (0 :: u32) \<longleftrightarrow> x = 0" for x :: u8
  proof -
    have "ucast (ucast x :: u32) = x" by (rule bit_word_eqI) (simp add: bit_simps)
    then show ?thesis by (metis unsigned_0)
  qed
  show "fst (cmos_read P 0x0a s) AND 0x80 \<noteq> 0 \<longleftrightarrow> k < n"
    using v[of "0x0a"] assms(1) unfolding c m z by (auto simp: cmos_chip_def split: if_splits)
qed

definition reg_date :: "(u8 \<Rightarrow> u8) \<Rightarrow> rtcdate" where
  "reg_date reg = \<lparr>second = ucast (reg 0), minute = ucast (reg 2), hour = ucast (reg 4), day = ucast (reg 7),
      month = ucast (reg 8), year = ucast (reg 9)\<rparr>"

lemma fill_rtcdate_chip:
  assumes "cmos_chip P h0 n reg" "accesses h0 k s" "n \<le> k" "k + 10 < n + 60"
  shows "fst (fill_rtcdate P s) = reg_date reg"
proof -
  note a0 = assms(2)
  note a1 = accesses_cmos_read[OF a0, of P 0]
  note a2 = accesses_cmos_read[OF a1, of P 2]
  note a3 = accesses_cmos_read[OF a2, of P 4]
  note a4 = accesses_cmos_read[OF a3, of P 7]
  note a5 = accesses_cmos_read[OF a4, of P 8]
  note c = cmos_read_chip(1)[OF assms(1)]
  show ?thesis using assms(3,4) c[OF a0] c[OF a1] c[OF a2] c[OF a3] c[OF a4] c[OF a5]
    by (simp add: fill_rtcdate_def Let_def split_def reg_date_def)
qed

text \<open>One round of the loop.\<close>

definition round1 :: "platform \<Rightarrow> 's machine_scheme \<Rightarrow> 's machine_scheme" where
  "round1 P s = snd (cmos_read P 0x0a (snd (fill_rtcdate P s)))"

lemma cmostime_loop_step:
  assumes "cmos_chip P h0 n reg" "accesses h0 k s" "k + 12 < n + 60"
  shows "accesses h0 (k + 14) (round1 P s)"
    "cmostime_loop P s = (if k + 12 < n then cmostime_loop P (round1 P s)
      else if fst (fill_rtcdate P s) = fst (fill_rtcdate P (round1 P s)) then Some (fill_rtcdate P (round1 P s))
      else cmostime_loop P (snd (fill_rtcdate P (round1 P s))))"
proof -
  note f = accesses_fill[OF assms(2), of P]
  show "accesses h0 (k + 14) (round1 P s)" using accesses_cmos_read[OF f, of P "0x0a"] by (simp add: round1_def add.commute)
  show "cmostime_loop P s = (if k + 12 < n then cmostime_loop P (round1 P s)
      else if fst (fill_rtcdate P s) = fst (fill_rtcdate P (round1 P s)) then Some (fill_rtcdate P (round1 P s))
      else cmostime_loop P (snd (fill_rtcdate P (round1 P s))))"
    using cmos_read_chip(2)[OF assms(1) f assms(3)]
    by (subst cmostime_loop.simps) (auto simp: split_def round1_def prod_eq_iff)
qed

text \<open>
  A round that sees the flag is repeated; so is one whose first reading was torn by the end of the update.
\<close>

lemma cmostime_loop_chip:
  assumes "cmos_chip P h0 n reg"
  shows "accesses h0 k s \<Longrightarrow> k \<le> n + 2 \<Longrightarrow> \<exists>t. cmostime_loop P s = Some (reg_date reg, t)"
proof (induction "n - k" arbitrary: k s rule: less_induct)
  case less
  note st = cmostime_loop_step[OF assms less.prems(1)]
  note fc = fill_rtcdate_chip[OF assms]
  have a: "accesses h0 (k + 14) (round1 P s)" using st(1) less.prems(2) by simp
  show ?case
  proof (cases "k + 12 < n")
    case True
    then show ?thesis using st(2) less.hyps[OF _ a] less.prems(2) by simp
  next
    case False
    let ?t = "snd (fill_rtcdate P (round1 P s))"
    have r: "fst (fill_rtcdate P (round1 P s)) = reg_date reg" using fc[OF a] False less.prems(2) by simp
    have a2: "accesses h0 (k + 26) ?t" using accesses_fill[OF a, of P] by (simp add: add.commute)
    note st2 = cmostime_loop_step[OF assms a2]
    have "fst (fill_rtcdate P ?t) = reg_date reg" "fst (fill_rtcdate P (round1 P ?t)) = reg_date reg"
      using fc[OF a2] fc[OF st2(1)] False less.prems(2) by simp_all
    then have "\<exists>t. cmostime_loop P ?t = Some (reg_date reg, t)"
      using st2(2) False less.prems(2) by (auto simp: prod_eq_iff)
    then show ?thesis using st(2) r False less.prems(2) by (auto simp: prod_eq_iff)
  qed
qed

lemma CONV_bcd: "n < 100 \<Longrightarrow> CONV (ucast (bcd_byte n)) = of_nat n"
proof -
  assume "n < 100"
  then have "n \<in> set [0..<100]" by simp
  moreover have "\<forall>n \<in> set [0..<100]. CONV (ucast (bcd_byte n)) = of_nat n"
    by (simp add: upt_rec CONV_def bcd_byte_def)
  ultimately show ?thesis by blast
qed

text \<open>
  C40. \<^verbatim>\<open>cmostime\<close> returns the date of a clock chip in BCD mode. When the chip is in the middle of an update it
  waits for the end of the update, however long it takes, and never returns a mixture of the old date and the new one; every field of the
  result is the decimal number the chip stores after the update, the year counted from 2000.
\<close>

theorem cmostime_decodes_bcd:
  assumes "cmos_chip P (io s) n reg" and "reg 0x0b AND 4 = 0"
    and "\<forall>r \<in> {0, 2, 4, 7, 8, 9}. reg r = bcd_byte (f r) \<and> f r < 100"
  shows "\<exists>t. cmostime P s = Some (\<lparr>second = of_nat (f 0), minute = of_nat (f 2), hour = of_nat (f 4),
    day = of_nat (f 7), month = of_nat (f 8), year = of_nat (f 9) + 2000\<rparr>, t)"
proof -
  have a: "accesses (io s) 0 s" by (simp add: accesses_def)
  have "ucast (reg 0x0b) AND (4 :: u32) = ucast (reg 0x0b AND 4)"
    by (rule bit_word_eqI) (auto simp: bit_simps dest: bit_imp_le_length)
  then have "fst (cmos_read P 0x0b s) AND 4 = 0" using assms cmos_read_chip(1)[OF assms(1) a, of "0x0b"] by simp
  moreover obtain t where "cmostime_loop P (snd (cmos_read P 0x0b s)) = Some (reg_date reg, t)"
    using cmostime_loop_chip[OF assms(1) accesses_cmos_read[OF a, of P "0x0b"]] by auto
  ultimately show ?thesis using assms(3) by (simp add: cmostime_def split_def Let_def reg_date_def CONV_bcd)
qed

definition clock_regs :: "u8 \<Rightarrow> u8" where
  "clock_regs r = (if r = 0 then 0x59 else if r = 2 then 0x30 else if r = 4 then 0x23
     else if r = 7 then 0x31 else if r = 8 then 0x12 else if r = 9 then 0x24 else 0)"

definition clock_platform :: platform where
  "clock_platform = \<lparr>dev_in = (\<lambda>h p. case last h of OutB q r \<Rightarrow> clock_regs r | _ \<Rightarrow> 0), dev_reg = (\<lambda>_ _. 0),
     sym_consbuffer = 0, sym_videobuffer = 0, sym_indexWritten = 0, sym_firstTime = 0, sym_hdcArray = 0\<rparr>"

text \<open>A clock that is in the middle of an update for 20 port accesses.\<close>

definition updating_platform :: platform where
  "updating_platform = clock_platform\<lparr>dev_in := (\<lambda>h p. case last h of
     OutB q r \<Rightarrow> if 20 < length h \<or> r = 0x0b then clock_regs r else if r = 0x0a then 0x80 else 0x77 | _ \<Rightarrow> 0)\<rparr>"

theorem cmostime_decodes_bcd_witness:
  "\<exists>t. cmostime updating_platform \<lparr>mem = (\<lambda>_. 0), io = [], wakeups = []\<rparr> =
     Some (\<lparr>second = 59, minute = 30, hour = 23, day = 31, month = 12, year = 2024\<rparr>, t)"
proof -
  let ?f = "\<lambda>r :: u8. unat (CONV (ucast (clock_regs r)))" and ?s = "\<lparr>mem = (\<lambda>_. 0), io = [], wakeups = []\<rparr>"
  have "cmos_chip updating_platform (io ?s) 20 clock_regs"
    by (auto simp: cmos_chip_def updating_platform_def clock_regs_def Let_def)
  moreover have "clock_regs 0x0b AND 4 = 0" by (simp add: clock_regs_def)
  moreover have "\<forall>r \<in> {0, 2, 4, 7, 8, 9}. clock_regs r = bcd_byte (?f r) \<and> ?f r < 100"
    by (simp add: clock_regs_def bcd_byte_def CONV_def)
  ultimately have "\<exists>t. cmostime updating_platform ?s =
      Some (\<lparr>second = of_nat (?f 0), minute = of_nat (?f 2), hour = of_nat (?f 4), day = of_nat (?f 7),
        month = of_nat (?f 8), year = of_nat (?f 9) + 2000\<rparr>, t)"
    by (rule cmostime_decodes_bcd)
  then show ?thesis by (simp add: clock_regs_def CONV_def)
qed

section \<open>The keyboard\<close>

lemma kbd_caps_bound: "c < 256 \<Longrightarrow> kbd_caps sh c < 256"
  by (auto simp: kbd_caps_def word_less_nat_alt word_le_nat_alt unat_word_ariths unat_sub_if')

definition shift_ok :: "u32 \<Rightarrow> bool" where
  "shift_ok sh \<longleftrightarrow> sh AND NOT 0x7F = 0"

lemma shift_ok_bits: "shift_ok sh \<longleftrightarrow> (\<forall>i < 32. 7 \<le> i \<longrightarrow> \<not> bit sh i)"
proof -
  have m: "(0x7F :: u32) = mask 7" by (simp add: mask_eq_exp_minus_1)
  show ?thesis unfolding shift_ok_def m by (auto simp: bit_eq_iff bit_simps not_less)
qed

lemma shift_ok_intros [simp, intro]:
  "shift_ok a \<Longrightarrow> shift_ok b \<Longrightarrow> shift_ok (a OR b)"
  "shift_ok a \<Longrightarrow> shift_ok b \<Longrightarrow> shift_ok (a XOR b)"
  "shift_ok a \<Longrightarrow> shift_ok (a AND b)"
  by (auto simp: shift_ok_bits bit_simps)

lemma shift_ok_codes [simp, intro]: "shift_ok (shiftcode d)" "shift_ok (togglecode d)" "shift_ok E0ESC"
  by (auto simp: shift_ok_def shiftcode_def togglecode_def kbd_flags)

text \<open>
  Whatever bytes the keyboard sends, \<^verbatim>\<open>kbdgetc\<close> returns \<open>-1\<close> or a byte and its modifier
  state stays within the seven modifier bits, so its table accesses are always in range.
\<close>

theorem kbdgetc_bounds:
  assumes "shift_ok (shift s)"
  shows "case kbdgetc P s of (c, t) \<Rightarrow> -1 \<le> c \<and> c < 256 \<and> shift_ok (shift t)
    \<and> unat (shift t AND (CTL OR SHIFT)) < 4"
proof -
  have "unat (x AND (CTL OR SHIFT)) < 4" for x
  proof -
    have "x AND (CTL OR SHIFT) = take_bit 2 x" by (simp add: kbd_flags take_bit_eq_mask mask_eq_exp_minus_1)
    then show ?thesis using take_bit_nat_less_exp[of 2 "unat x"] by (simp add: unsigned_take_bit_eq)
  qed
  moreover have "unat (c :: u8) < 256" for c
    by (rule order_less_le_trans[OF unsigned_less]) simp
  then have "kbd_caps sh (ucast (c :: u8)) < 256" for sh c
    by (intro kbd_caps_bound) (simp add: word_less_nat_alt unsigned_ucast_eq
      le_less_trans[OF take_bit_nat_less_eq_self])
  then have "uint (kbd_caps sh (ucast (c :: u8))) < 256" for sh c
    by (simp add: word_less_def)
  moreover have "-1 \<le> uint w" for w :: u32
    using unsigned_greater_eq[of w] by (rule order_trans[rotated]) simp
  ultimately show ?thesis using assms
    by (auto simp: kbdgetc_def Let_def split_def inb_def)
qed

definition key_a_platform :: platform where
  "key_a_platform = clock_platform\<lparr>dev_in := (\<lambda>h p. if p = 0x64 then 1 else 0x1E)\<rparr>"

definition key_state :: "u32 \<Rightarrow> dev_state" where
  "key_state sh = \<lparr>mem = (\<lambda>_. 0), io = [], wakeups = [], freelist = 0, use_lock = False, cur_pid = 1, cur_name = [], cur_sz = 0, cur_esp = 0,
     cur_eax = 0, cur_killed = False, uart = False, lapic = 0, shift = sh\<rparr>"

theorem kbdgetc_bounds_witness:
  "fst (kbdgetc key_a_platform (key_state SHIFT)) = 65 \<and>
     shift_ok (shift (snd (kbdgetc key_a_platform (key_state SHIFT))))"
proof -
  have "shift_ok (shift (key_state SHIFT))" by (simp add: key_state_def shift_ok_def kbd_flags)
  from kbdgetc_bounds[OF this, of key_a_platform]
  have "shift_ok (shift (snd (kbdgetc key_a_platform (key_state SHIFT))))" by (simp add: split_def)
  moreover have "fst (kbdgetc key_a_platform (key_state SHIFT)) = 65" by code_simp
  ultimately show ?thesis by blast
qed

end
