(* ===== verification/Ring.thy ===== *)
theory Ring
  imports Xv6_Prelude
begin

text \<open>
  Ring buffers indexed by 32-bit counters that wrap, as \<^verbatim>\<open>src/pipe.c\<close> and
  \<^verbatim>\<open>src/console.c\<close> use them: the size divides \<open>2 ^ 32\<close>, so a counter and the counter
  modulo the size agree also across the wrap-around.
\<close>

definition ring_at :: "nat \<Rightarrow> 'a list \<Rightarrow> u32 \<Rightarrow> nat \<Rightarrow> 'a list" where
  "ring_at siz buf i n = map (\<lambda>k. buf ! (unat (i + of_nat k) mod siz)) [0..<n]"

lemma length_ring_at [simp]: "length (ring_at siz buf i n) = n"
  by (simp add: ring_at_def)

lemma ring_at_0 [simp]: "ring_at siz buf i 0 = []"
  by (simp add: ring_at_def)

lemma ring_at_Cons: "ring_at siz buf i (Suc n) = buf ! (unat i mod siz) # ring_at siz buf (i + 1) n"
  unfolding ring_at_def
  by (subst upt_conv_Cons) (auto simp: map_Suc_upt[symmetric] add.assoc simp del: upt_Suc)

lemma ring_at_snoc:
  "ring_at siz buf i (Suc n) = ring_at siz buf i n @ [buf ! (unat (i + of_nat n) mod siz)]"
  by (simp add: ring_at_def)

lemma ring_at_append:
  "ring_at siz buf i (m + n) = ring_at siz buf i m @ ring_at siz buf (i + of_nat m) n"
  by (induction n) (simp_all add: ring_at_snoc add.assoc)

lemma unat_add_mod:
  assumes "siz dvd 2 ^ 32"
  shows "unat (i + of_nat k :: u32) mod siz = (unat i + k) mod siz"
proof -
  have "unat (i + of_nat k) = (unat i + k) mod 2 ^ 32"
    by (simp add: unat_word_ariths unat_of_nat mod_add_right_eq)
  then show ?thesis using assms by (simp add: mod_mod_cancel)
qed

lemma ring_slots_differ:
  assumes "siz dvd 2 ^ 32" "k < n" "n < k + siz"
  shows "unat (i + of_nat k :: u32) mod siz \<noteq> unat (i + of_nat n) mod siz"
proof
  assume "unat (i + of_nat k) mod siz = unat (i + of_nat n) mod siz"
  then have "(unat i + n) mod siz = (unat i + k) mod siz" using assms(1) by (simp add: unat_add_mod)
  then have "siz dvd (unat i + n) - (unat i + k)" using assms(2) by (simp add: mod_eq_dvd_iff_nat)
  then have "siz \<le> n - k" using assms(2) by (auto dest: dvd_imp_le)
  with assms(2,3) show False by simp
qed

lemma ring_at_upd_outside:
  assumes "siz dvd 2 ^ 32" "n \<le> j" "j < siz"
  shows "ring_at siz (buf[unat (i + of_nat j) mod siz := v]) i n = ring_at siz buf i n"
  unfolding ring_at_def
proof (rule map_cong[OF refl])
  fix k assume "k \<in> set [0..<n]"
  then have "k < n" by simp
  then have "unat (i + of_nat k) mod siz \<noteq> unat (i + of_nat j) mod siz"
    using assms by (intro ring_slots_differ) auto
  then show "buf[unat (i + of_nat j) mod siz := v] ! (unat (i + of_nat k) mod siz) =
      buf ! (unat (i + of_nat k) mod siz)"
    by simp
qed

lemma ring_at_put:
  assumes "siz dvd 2 ^ 32" "n < siz" "length buf = siz"
  shows "ring_at siz (buf[unat (i + of_nat n) mod siz := v]) i (Suc n) = ring_at siz buf i n @ [v]"
  using assms by (simp add: ring_at_snoc ring_at_upd_outside)

end
