(* ===== verification/Console.thy ===== *)
theory Console
  imports Devices Ring
begin

text \<open>
  The console, \<^verbatim>\<open>src/console.c\<close>: output to the serial line and to the text screen, or to
  \<^verbatim>\<open>consbuffer\<close> while a graphics mode is on, and line-edited input. Text cells are half
  words in memory, at \<^verbatim>\<open>crt\<close> or at the address \<open>sym_consbuffer\<close> of
  \<^verbatim>\<open>consbuffer\<close>, whose cursor follows the cells. \<open>cons_held\<close> says that
  \<^verbatim>\<open>cons.lock\<close> is held by this processor. \<open>Panic\<close> is that the processor stops.
\<close>

section \<open>State\<close>

record console_state = dev_state +
  panicked :: bool
  cons_locking :: bool
  cons_held :: bool
  textdisplayed :: int
  input_buf :: "u8 list"
  input_r :: u32
  input_w :: u32
  input_e :: u32

definition BACKSPACE :: int where "BACKSPACE = 0x100"
definition CRTPORT :: u16 where "CRTPORT = 0x3d4"
definition crt :: u32 where "crt = P2V 0xb8000"
definition INPUT_BUF :: nat where "INPUT_BUF = 128"

text \<open>The lock of the console, as its own processor sees it.\<close>

definition acquire_cons :: "'s console_state_scheme \<Rightarrow> (unit, 's console_state_scheme) outcome" where
  "acquire_cons s = (if cons_held s then Panic ''acquire'' else Ret () (s\<lparr>cons_held := True\<rparr>))"

definition release_cons :: "'s console_state_scheme \<Rightarrow> (unit, 's console_state_scheme) outcome" where
  "release_cons s = (if \<not> cons_held s then Panic ''release'' else Ret () (s\<lparr>cons_held := False\<rparr>))"

section \<open>Screen\<close>

definition sethardwarecursorposition :: "int \<Rightarrow> 's machine_scheme \<Rightarrow> 's machine_scheme" where
  "sethardwarecursorposition position s =
     (let s = outb CRTPORT 14 s;
          s = outb (CRTPORT + 1) (word_of_int (drop_bit 8 position AND 0xFF)) s;
          s = outb CRTPORT 15 s
      in outb (CRTPORT + 1) (word_of_int (position AND 0xFF)) s)"

definition gethardwarecursorposition :: "platform \<Rightarrow> 's machine_scheme \<Rightarrow> int \<times> 's machine_scheme" where
  "gethardwarecursorposition P s =
     (let s = outb CRTPORT 14 s;
          (hi, s) = inb P (CRTPORT + 1) s;
          s = outb CRTPORT 15 s;
          (lo, s) = inb P (CRTPORT + 1) s
      in (push_bit 8 (uint hi) OR uint lo, s))"

definition cursorposition :: "platform \<Rightarrow> memory \<Rightarrow> int" where
  "cursorposition P m = load_int m (sym_consbuffer P + 4000)"

definition grabscreentobuffer :: "platform \<Rightarrow> 's console_state_scheme \<Rightarrow> 's console_state_scheme" where
  "grabscreentobuffer P s =
     (let s = s\<lparr>mem := memmove (mem s) (sym_consbuffer P) crt 4000\<rparr>;
          (position, s) = gethardwarecursorposition P s;
          s = s\<lparr>mem := store_int (mem s) (sym_consbuffer P + 4000) position\<rparr>
      in s\<lparr>textdisplayed := 0\<rparr>)"

definition outputbuffertoscreen :: "platform \<Rightarrow> 's console_state_scheme \<Rightarrow> 's console_state_scheme" where
  "outputbuffertoscreen P s =
     (let s = s\<lparr>mem := memmove (mem s) crt (sym_consbuffer P) 4000\<rparr>;
          s = sethardwarecursorposition (cursorposition P (mem s)) s
      in s\<lparr>textdisplayed := 1\<rparr>)"

text \<open>\<open>cga_cell\<close>: the new position after the character, and the memory with its cell stored.\<close>

definition cga_cell :: "u32 \<Rightarrow> int \<Rightarrow> int \<Rightarrow> memory \<Rightarrow> int \<times> memory" where
  "cga_cell videomemory c pos m =
     (if c = 10 then (pos + (80 - pos smod 80), m)
      else if c = BACKSPACE then (if 0 < pos then pos - 1 else pos, m)
      else (pos + 1, store16 m (videomemory + 2 * word_of_int pos) (word_of_int ((c AND 0xff) OR 0x0700))))"

definition cga_scroll :: "u32 \<Rightarrow> int \<Rightarrow> memory \<Rightarrow> int \<times> memory" where
  "cga_scroll videomemory pos m =
     (if 24 \<le> pos sdiv 80
      then let m = memmove m videomemory (videomemory + 160) (2 * 23 * 80);
               pos = pos - 80
           in (pos, memset m (videomemory + 2 * word_of_int pos) 0 (word_of_int (2 * (24 * 80 - pos))))
      else (pos, m))"

definition cgaputc :: "platform \<Rightarrow> int \<Rightarrow> 's console_state_scheme \<Rightarrow> (unit, 's console_state_scheme) outcome" where
  "cgaputc P c s =
     (let (pos, videomemory, s) =
            (if textdisplayed s = 0 then (cursorposition P (mem s), sym_consbuffer P, s)
             else let (pos, s) = gethardwarecursorposition P s in (pos, crt, s));
          (pos, m) = cga_cell videomemory c pos (mem s);
          s = s\<lparr>mem := m\<rparr>
      in if pos < 0 \<or> 25 * 80 < pos then Panic ''pos under/overflow''
         else
           let (pos, m) = cga_scroll videomemory pos (mem s);
               s = s\<lparr>mem := m\<rparr>;
               s = (if textdisplayed s = 1 then sethardwarecursorposition pos s
                    else s\<lparr>mem := store_int (mem s) (sym_consbuffer P + 4000) pos\<rparr>)
           in Ret () (s\<lparr>mem := store16 (mem s) (videomemory + 2 * word_of_int pos) 0x0720\<rparr>))"

definition consputc :: "platform \<Rightarrow> int \<Rightarrow> 's console_state_scheme \<Rightarrow> (unit, 's console_state_scheme) outcome" where
  "consputc P c s =
     (if panicked s then Panic ''frozen''
      else
        let s = (if c = BACKSPACE then uartputc P 8 (uartputc P 32 (uartputc P 8 s)) else uartputc P c s)
        in cgaputc P c s)"

section \<open>Formatted output\<close>

fun consputs :: "platform \<Rightarrow> int list \<Rightarrow> 's console_state_scheme \<Rightarrow> (unit, 's console_state_scheme) outcome" where
  "consputs P [] s = Ret () s"
| "consputs P (c # cs) s = bindO (consputc P c s) (\<lambda>_ s. consputs P cs s)"

definition digits :: string where
  "digits = ''0123456789abcdef''"

text \<open>The digits that the loop puts into \<^verbatim>\<open>buf\<close>, least significant first.\<close>

function digit_loop :: "u32 \<Rightarrow> u32 \<Rightarrow> int list" where
  "digit_loop base x =
     of_char (digits ! unat (x mod base)) # (if base \<le> 1 \<or> x div base = 0 then [] else digit_loop base (x div base))"
  by pat_completeness auto
termination
  by (relation "measure (\<lambda>(base, x). unat x)") (use div_word_less in auto)

declare digit_loop.simps [simp del]

text \<open>
  \<open>sign\<close> is nonzero for a signed number; the buffer is sent from its end. Every caller passes
  10 or 16 as the base.
\<close>

definition printint_chars :: "int \<Rightarrow> u32 \<Rightarrow> bool \<Rightarrow> int list" where
  "printint_chars xx base sign =
     (let neg = (sign \<and> xx < 0);
          x = (if neg then word_of_int (- xx) else word_of_int xx);
          buf = digit_loop base x;
          buf = (if neg then buf @ [of_char CHR ''-''] else buf)
      in rev buf)"

definition printint :: "platform \<Rightarrow> int \<Rightarrow> u32 \<Rightarrow> bool \<Rightarrow> 's console_state_scheme \<Rightarrow> (unit, 's console_state_scheme) outcome" where
  "printint P xx base sign s = consputs P (printint_chars xx base sign) s"

text \<open>
  The string argument of \<^verbatim>\<open>%s\<close> is sent up to its zero byte; a string without one within the
  address space never ends.
\<close>

fun consputstr :: "platform \<Rightarrow> nat \<Rightarrow> u32 \<Rightarrow> 's console_state_scheme \<Rightarrow> (unit, 's console_state_scheme) outcome" where
  "consputstr P 0 p s = Fault ''unterminated string''"
| "consputstr P (Suc n) p s =
     (if mem s p = 0 then Ret () s
      else bindO (consputc P (sint (mem s p)) s) (\<lambda>_ s. consputstr P n (p + 1) s))"

text \<open>
  \<^verbatim>\<open>cprintf\<close> over the words that follow the format on the stack; a conversion without an
  argument would read beyond them.
\<close>

fun cprintf_loop :: "platform \<Rightarrow> string \<Rightarrow> u32 list \<Rightarrow> 's console_state_scheme \<Rightarrow> (unit, 's console_state_scheme) outcome" where
  "cprintf_loop P [] args s = Ret () s"
| "cprintf_loop P [c] args s =
     (if c \<noteq> CHR ''%'' then consputc P (of_char c) s else Ret () s)"
| "cprintf_loop P (c # d # fmt) args s =
     (if c \<noteq> CHR ''%'' then bindO (consputc P (of_char c) s) (\<lambda>_ s. cprintf_loop P (d # fmt) args s)
      else if d = CHR ''d'' then
        (case args of [] \<Rightarrow> Fault ''cprintf: missing argument''
         | a # args \<Rightarrow> bindO (printint P (sint a) 10 True s) (\<lambda>_ s. cprintf_loop P fmt args s))
      else if d = CHR ''x'' \<or> d = CHR ''p'' then
        (case args of [] \<Rightarrow> Fault ''cprintf: missing argument''
         | a # args \<Rightarrow> bindO (printint P (sint a) 16 False s) (\<lambda>_ s. cprintf_loop P fmt args s))
      else if d = CHR ''s'' then
        (case args of [] \<Rightarrow> Fault ''cprintf: missing argument''
         | a # args \<Rightarrow>
             bindO (if a = 0 then consputs P (map of_char ''(null)'') s else consputstr P (2 ^ 32) a s)
               (\<lambda>_ s. cprintf_loop P fmt args s))
      else if d = CHR ''%'' then bindO (consputc P (of_char d) s) (\<lambda>_ s. cprintf_loop P fmt args s)
      else bindO (consputc P (of_char c) s) (\<lambda>_ s.
           bindO (consputc P (of_char d) s) (\<lambda>_ s. cprintf_loop P fmt args s)))"

definition cprintf :: "platform \<Rightarrow> string \<Rightarrow> u32 list \<Rightarrow> 's console_state_scheme \<Rightarrow> (unit, 's console_state_scheme) outcome" where
  "cprintf P fmt args s =
     (let locking = cons_locking s
      in bindO (if locking then acquire_cons s else Ret () s) (\<lambda>_ s.
         bindO (cprintf_loop P fmt args s) (\<lambda>_ s.
         if locking then release_cons s else Ret () s)))"

section \<open>Input\<close>

text \<open>
  \<^verbatim>\<open>consoleget\<close> polls the keyboard; \<open>None\<close> is that no key ever comes.
\<close>

partial_function (option) consoleget_loop ::
  "platform \<Rightarrow> 's console_state_scheme \<Rightarrow> (int \<times> 's console_state_scheme) option" where
  "consoleget_loop P s =
     (case kbdgetc P s of (c, s) \<Rightarrow>
        if c \<le> 0
        then if c = 0 then (case kbdgetc P s of (c, s) \<Rightarrow> consoleget_loop P s) else consoleget_loop P s
        else Some (c, s))"

definition consoleget :: "platform \<Rightarrow> 's console_state_scheme \<Rightarrow> (int, 's console_state_scheme) outcome option" where
  "consoleget P s =
     (case acquire_cons s of
        Ret u s \<Rightarrow>
          (case consoleget_loop P s of
             None \<Rightarrow> None
           | Some (c, s) \<Rightarrow> Some (bindO (release_cons s) (\<lambda>_ s. Ret c s)))
      | Panic m \<Rightarrow> Some (Panic m)
      | Block ch s \<Rightarrow> Some (Block ch s)
      | Fault m \<Rightarrow> Some (Fault m))"

definition wakeup_call :: "chan \<Rightarrow> 's machine_scheme \<Rightarrow> 's machine_scheme" where
  "wakeup_call ch s = s\<lparr>wakeups := wakeups s @ [ch]\<rparr>"

text \<open>
  Control-U erases back to the last newline or to \<open>input_w\<close>; the count starts at their distance,
  so it never runs out before the loop ends.
\<close>

fun kill_line :: "platform \<Rightarrow> nat \<Rightarrow> 's console_state_scheme \<Rightarrow> (unit, 's console_state_scheme) outcome" where
  "kill_line P 0 s = Ret () s"
| "kill_line P (Suc n) s =
     (if input_e s \<noteq> input_w s \<and> input_buf s ! (unat (input_e s - 1) mod INPUT_BUF) \<noteq> 10
      then bindO (consputc P BACKSPACE (s\<lparr>input_e := input_e s - 1\<rparr>)) (\<lambda>_ s. kill_line P n s)
      else Ret () s)"

definition input_char :: "platform \<Rightarrow> int \<Rightarrow> 's console_state_scheme \<Rightarrow> (unit, 's console_state_scheme) outcome" where
  "input_char P c s =
     (if c \<noteq> 0 \<and> unat (input_e s - input_r s) < INPUT_BUF
      then
        let c = (if c = 13 then 10 else c);
            s = s\<lparr>input_buf := (input_buf s)[unat (input_e s) mod INPUT_BUF := word_of_int c],
                  input_e := input_e s + 1\<rparr>
        in bindO (consputc P c s) (\<lambda>_ s.
             if c = 10 \<or> c = 4 \<or> input_e s = input_r s + of_nat INPUT_BUF
             then Ret () (wakeup_call ChInput (s\<lparr>input_w := input_e s\<rparr>))
             else Ret () s)
      else Ret () s)"

definition consoleintr_char :: "platform \<Rightarrow> int \<Rightarrow> bool \<Rightarrow> 's console_state_scheme \<Rightarrow> (bool, 's console_state_scheme) outcome" where
  "consoleintr_char P c doprocdump s =
     (if c = 16 then Ret True s
      else if c = 21 then
        bindO (kill_line P (unat (input_e s - input_w s)) s) (\<lambda>_ s. Ret doprocdump s)
      else if c = 8 \<or> c = 0x7f then
        (if input_e s \<noteq> input_w s
         then bindO (consputc P BACKSPACE (s\<lparr>input_e := input_e s - 1\<rparr>)) (\<lambda>_ s. Ret doprocdump s)
         else Ret doprocdump s)
      else bindO (input_char P c s) (\<lambda>_ s. Ret doprocdump s))"

text \<open>
  The interrupt handler reads characters from \<open>getc\<close> until there is none; \<open>procdump\<close> is
  the function of \<^verbatim>\<open>src/proc.c\<close>.
\<close>

partial_function (option) consoleintr_loop ::
  "platform \<Rightarrow> ('s console_state_scheme \<Rightarrow> int \<times> 's console_state_scheme) \<Rightarrow> bool \<Rightarrow> 's console_state_scheme \<Rightarrow>
    (bool, 's console_state_scheme) outcome option" where
  "consoleintr_loop P getc doprocdump s =
     (case getc s of (c, s) \<Rightarrow>
        if c < 0 then Some (Ret doprocdump s)
        else (case consoleintr_char P c doprocdump s of
                Ret doprocdump s \<Rightarrow> consoleintr_loop P getc doprocdump s
              | Panic m \<Rightarrow> Some (Panic m)
              | Block ch s \<Rightarrow> Some (Block ch s)
              | Fault m \<Rightarrow> Some (Fault m)))"

definition consoleintr ::
  "platform \<Rightarrow> ('s console_state_scheme \<Rightarrow> (unit, 's console_state_scheme) outcome) \<Rightarrow>
    ('s console_state_scheme \<Rightarrow> int \<times> 's console_state_scheme) \<Rightarrow> 's console_state_scheme \<Rightarrow>
    (unit, 's console_state_scheme) outcome option" where
  "consoleintr P procdump getc s =
     (case acquire_cons s of
        Ret u s \<Rightarrow>
          (case consoleintr_loop P getc False s of
             None \<Rightarrow> None
           | Some r \<Rightarrow> Some (bindO r (\<lambda>doprocdump s.
               bindO (release_cons s) (\<lambda>_ s. if doprocdump then procdump s else Ret () s))))
      | Panic m \<Rightarrow> Some (Panic m)
      | Block ch s \<Rightarrow> Some (Block ch s)
      | Fault m \<Rightarrow> Some (Fault m))"

text \<open>
  \<^verbatim>\<open>consoleread\<close> between \<^verbatim>\<open>iunlock\<close> and \<^verbatim>\<open>ilock\<close>, which are arguments. While it
  sleeps other code runs: each element of \<open>envs\<close> is what happens to the state during one sleep,
  and with no more of them the call is still asleep. The loop returns what is left of \<open>n\<close>, or
  \<open>None\<close> when the process was killed.
\<close>

function consoleread_loop ::
  "('s console_state_scheme \<Rightarrow> 's console_state_scheme) list \<Rightarrow> u32 \<Rightarrow> int \<Rightarrow> int \<Rightarrow> 's console_state_scheme \<Rightarrow>
    (int option, 's console_state_scheme) outcome" where
  "consoleread_loop envs dst target n s =
     (if n \<le> 0 then Ret (Some n) s
      else if input_r s = input_w s then
        (if cur_killed s then Ret None s
         else case envs of
                [] \<Rightarrow> Block ChInput s
              | e # envs \<Rightarrow> consoleread_loop envs dst target n (e s))
      else
        let c = input_buf s ! (unat (input_r s) mod INPUT_BUF);
            s = s\<lparr>input_r := input_r s + 1\<rparr>
        in if c = 4 then Ret (Some n) (if n < target then s\<lparr>input_r := input_r s - 1\<rparr> else s)
           else
             let s = s\<lparr>mem := (mem s)(dst := c)\<rparr>
             in if c = 10 then Ret (Some (n - 1)) s
                else consoleread_loop envs (dst + 1) target (n - 1) s)"
  by pat_completeness auto
termination
  by (relation "measure (\<lambda>(envs, dst, target, n, s). length envs + nat n)") auto

declare consoleread_loop.simps [simp del]

definition consoleread ::
  "('s console_state_scheme \<Rightarrow> (unit, 's console_state_scheme) outcome) \<Rightarrow>
    ('s console_state_scheme \<Rightarrow> (unit, 's console_state_scheme) outcome) \<Rightarrow>
    ('s console_state_scheme \<Rightarrow> 's console_state_scheme) list \<Rightarrow> u32 \<Rightarrow> int \<Rightarrow> 's console_state_scheme \<Rightarrow>
    (int, 's console_state_scheme) outcome" where
  "consoleread iunlock ilock envs dst n s =
     bindO (iunlock s) (\<lambda>_ s.
     bindO (acquire_cons s) (\<lambda>_ s.
     bindO (consoleread_loop envs dst n n s) (\<lambda>m s.
     bindO (release_cons s) (\<lambda>_ s.
     bindO (ilock s) (\<lambda>_ s.
       Ret (case m of None \<Rightarrow> -1 | Some m \<Rightarrow> n - m) s)))))"

fun consolewrite_loop :: "platform \<Rightarrow> u32 \<Rightarrow> nat \<Rightarrow> 's console_state_scheme \<Rightarrow> (unit, 's console_state_scheme) outcome" where
  "consolewrite_loop P buf 0 s = Ret () s"
| "consolewrite_loop P buf (Suc n) s =
     bindO (consputc P (uint (mem s buf)) s) (\<lambda>_ s. consolewrite_loop P (buf + 1) n s)"

definition consolewrite ::
  "platform \<Rightarrow> ('s console_state_scheme \<Rightarrow> (unit, 's console_state_scheme) outcome) \<Rightarrow>
    ('s console_state_scheme \<Rightarrow> (unit, 's console_state_scheme) outcome) \<Rightarrow> u32 \<Rightarrow> int \<Rightarrow> 's console_state_scheme \<Rightarrow>
    (int, 's console_state_scheme) outcome" where
  "consolewrite P iunlock ilock buf n s =
     bindO (iunlock s) (\<lambda>_ s.
     bindO (acquire_cons s) (\<lambda>_ s.
     bindO (consolewrite_loop P buf (nat n) s) (\<lambda>_ s.
     bindO (release_cons s) (\<lambda>_ s.
     bindO (ilock s) (\<lambda>_ s. Ret n s)))))"

text \<open>The two entries of \<^verbatim>\<open>devsw\<close> that \<^verbatim>\<open>consoleinit\<close> sets are fixed in the model.\<close>

definition consoleinit :: "'s console_state_scheme \<Rightarrow> 's console_state_scheme" where
  "consoleinit s = ioapicenable IRQ_KBD 0 (s\<lparr>cons_held := False, cons_locking := True\<rparr>)"

text \<open>\<^verbatim>\<open>ioapicinit\<close> of \<^verbatim>\<open>src/ioapic.c\<close>, which reports on the console.\<close>

fun ioapic_mask :: "u32 \<Rightarrow> nat \<Rightarrow> 's machine_scheme \<Rightarrow> 's machine_scheme" where
  "ioapic_mask i 0 s = s"
| "ioapic_mask i (Suc n) s =
     ioapic_mask (i + 1) n (ioapicwrite (REG_TABLE + 2 * i + 1) 0
       (ioapicwrite (REG_TABLE + 2 * i) (INT_DISABLED OR (T_IRQ0 + i)) s))"

definition ioapicinit :: "platform \<Rightarrow> u8 \<Rightarrow> 's console_state_scheme \<Rightarrow> (unit, 's console_state_scheme) outcome" where
  "ioapicinit P ioapicid s =
     (let (ver, s) = ioapicread P 1 s;
          maxintr = drop_bit 16 ver AND 0xFF;
          (v, s) = ioapicread P 0 s;
          ident = drop_bit 24 v
      in bindO (if ident \<noteq> ucast ioapicid
                then cprintf P (''ioapicinit: id isn'' @ [CHR 0x27] @ ''t equal to ioapicid; not a MP\<newline>'') [] s
                else Ret () s) (\<lambda>_ s.
           Ret () (ioapic_mask 0 (unat maxintr + 1) s)))"

section \<open>The cursor of the text screen\<close>

text \<open>
  The register file of the display controller as the port writes leave it: a selected index and the
  registers. What the code relies on is that the two cursor registers, 14 and 15, read back as they were
  written.
\<close>

fun crtc_step :: "u8 \<times> (u8 \<Rightarrow> u8) \<Rightarrow> io_event \<Rightarrow> u8 \<times> (u8 \<Rightarrow> u8)" where
  "crtc_step (i, r) (OutB p v) =
     (if p = CRTPORT then (v, r) else if p = CRTPORT + 1 then (i, r(i := v)) else (i, r))"
| "crtc_step c e = c"

definition cursor_chip :: "platform \<Rightarrow> bool" where
  "cursor_chip P \<longleftrightarrow> (\<exists>c. \<forall>h i r. foldl crtc_step c h = (i, r) \<and> i \<in> {14, 15} \<longrightarrow> dev_in P h (CRTPORT + 1) = r i)"

definition hw_cursor :: "platform \<Rightarrow> 's machine_scheme \<Rightarrow> int" where
  "hw_cursor P s = fst (gethardwarecursorposition P s)"

lemma hw_cursor_mem [simp]: "hw_cursor P (s\<lparr>mem := m\<rparr>) = hw_cursor P s"
  by (simp add: hw_cursor_def gethardwarecursorposition_def inb_def outb_def Let_def)

lemma crtc_step_other:
  "(\<And>v. e \<noteq> OutB CRTPORT v) \<Longrightarrow> (\<And>v. e \<noteq> OutB (CRTPORT + 1) v) \<Longrightarrow> crtc_step c e = c"
  by (cases c; cases e) auto

lemma hw_cursor_chip:
  assumes "\<forall>h i r. foldl crtc_step c h = (i, r) \<and> i \<in> {14, 15} \<longrightarrow> dev_in P h (CRTPORT + 1) = r i"
    and "foldl crtc_step c (io s) = (i, r)"
  shows "hw_cursor P s = push_bit 8 (uint (r 14)) OR uint (r 15)"
proof -
  have "foldl crtc_step c (io s @ [OutB CRTPORT 14]) = (14, r)"
    "foldl crtc_step c (io s @ [OutB CRTPORT 14, InB (CRTPORT + 1) v, OutB CRTPORT 15]) = (15, r)" for v
    using assms(2) by (simp_all add: CRTPORT_def)
  then have "dev_in P (io s @ [OutB CRTPORT 14]) (CRTPORT + 1) = r 14"
    "dev_in P (io s @ [OutB CRTPORT 14, InB (CRTPORT + 1) v, OutB CRTPORT 15]) (CRTPORT + 1) = r 15" for v
    using assms(1) by blast+
  then show ?thesis by (simp add: hw_cursor_def gethardwarecursorposition_def inb_def outb_def Let_def)
qed

lemma hw_cursor_other:
  assumes "cursor_chip P" "io t = io s @ [e]" "\<And>v. e \<noteq> OutB CRTPORT v" "\<And>v. e \<noteq> OutB (CRTPORT + 1) v"
  shows "hw_cursor P t = hw_cursor P s"
proof -
  obtain c where c: "\<forall>h i r. foldl crtc_step c h = (i, r) \<and> i \<in> {14, 15} \<longrightarrow> dev_in P h (CRTPORT + 1) = r i"
    using assms(1) by (auto simp: cursor_chip_def)
  obtain i r where s: "foldl crtc_step c (io s) = (i, r)" by fastforce
  then have "foldl crtc_step c (io t) = (i, r)"
    using assms(2) crtc_step_other[OF assms(3,4), of "(i, r)"] by simp
  with s hw_cursor_chip[OF c] show ?thesis by metis
qed

lemma hw_cursor_get [simp]:
  assumes "cursor_chip P"
  shows "hw_cursor P (snd (gethardwarecursorposition P s)) = hw_cursor P s"
proof -
  obtain c where c: "\<forall>h i r. foldl crtc_step c h = (i, r) \<and> i \<in> {14, 15} \<longrightarrow> dev_in P h (CRTPORT + 1) = r i"
    using assms(1) by (auto simp: cursor_chip_def)
  obtain i r where "foldl crtc_step c (io s) = (i, r)" by fastforce
  moreover have "foldl crtc_step c (io (snd (gethardwarecursorposition P s))) = (15, r)"
    using calculation by (simp add: gethardwarecursorposition_def inb_def outb_def Let_def)
  ultimately show ?thesis using hw_cursor_chip[OF c] by metis
qed

lemma push_8_or: "push_bit 8 (drop_bit 8 x) OR take_bit 8 x = x" for x :: int
  by (rule bit_eqI) (auto simp: bit_simps)

lemma hw_cursor_set:
  assumes "cursor_chip P" "0 \<le> pos" "pos < 2 ^ 16"
  shows "hw_cursor P (sethardwarecursorposition pos s) = pos"
proof -
  obtain c where c: "\<forall>h i r. foldl crtc_step c h = (i, r) \<and> i \<in> {14, 15} \<longrightarrow> dev_in P h (CRTPORT + 1) = r i"
    using assms(1) by (auto simp: cursor_chip_def)
  obtain i r where ir: "foldl crtc_step c (io s) = (i, r)" by fastforce
  have m: "(0xFF :: int) = mask 8" by (simp add: mask_eq_exp_minus_1)
  have "foldl crtc_step c (io (sethardwarecursorposition pos s)) =
      (15, r(14 := word_of_int (drop_bit 8 pos AND 0xFF), 15 := word_of_int (pos AND 0xFF)))"
    by (simp add: sethardwarecursorposition_def outb_def Let_def ir CRTPORT_def)
  from hw_cursor_chip[OF c this]
  have "hw_cursor P (sethardwarecursorposition pos s) =
      push_bit 8 (take_bit 8 (take_bit 8 (drop_bit 8 pos))) OR take_bit 8 (take_bit 8 pos)"
    by (simp add: m uint_word_of_int_eq flip: take_bit_eq_mask)
  moreover have "take_bit 8 (drop_bit 8 pos) = drop_bit 8 pos"
    using assms(2,3) by (auto simp: take_bit_int_eq_self_iff drop_bit_eq_div)
  ultimately show ?thesis by (simp add: push_8_or)
qed

section \<open>Output never panics\<close>

definition consbuffer_region :: "platform \<Rightarrow> u32 set" where
  "consbuffer_region P = region (sym_consbuffer P) 4004"

definition consbuffer_ok :: "platform \<Rightarrow> bool" where
  "consbuffer_ok P \<longleftrightarrow> unat (sym_consbuffer P) + 4004 < 2 ^ 32"

text \<open>
  The console is not frozen and its cursor, the saved one in a graphics mode and the one of the
  display otherwise, is above the last row.
\<close>

definition con_ok :: "platform \<Rightarrow> 's console_state_scheme \<Rightarrow> bool" where
  "con_ok P s \<longleftrightarrow> \<not> panicked s \<and>
     (if textdisplayed s = 0 then cursorposition P (mem s) \<in> {0..<24 * 80}
      else textdisplayed s = 1 \<and> cursor_chip P \<and> hw_cursor P s \<in> {0..<24 * 80})"

text \<open>What output may change: the cells it writes to and the traffic with the devices.\<close>

definition con_region :: "platform \<Rightarrow> 's console_state_scheme \<Rightarrow> u32 set" where
  "con_region P s = (if textdisplayed s = 0 then consbuffer_region P else region crt 4000)"

definition con_frame :: "platform \<Rightarrow> 's console_state_scheme \<Rightarrow> 's console_state_scheme \<Rightarrow> bool" where
  "con_frame P s t \<longleftrightarrow> t = s\<lparr>mem := mem t, io := io t\<rparr> \<and> same_outside (con_region P s) (mem s) (mem t)"

lemma con_frame_refl [simp]: "con_frame P s s"
  by (simp add: con_frame_def)

lemma con_frame_fields:
  assumes "con_frame P s t"
  shows "textdisplayed t = textdisplayed s" "panicked t = panicked s" "cons_held t = cons_held s"
    "cons_locking t = cons_locking s" "cur_pid t = cur_pid s" "cur_sz t = cur_sz s" "cur_esp t = cur_esp s"
    "input_buf t = input_buf s" "input_r t = input_r s" "input_w t = input_w s" "input_e t = input_e s"
    "wakeups t = wakeups s" "cur_killed t = cur_killed s"
    "same_outside (con_region P s) (mem s) (mem t)" "con_region P t = con_region P s"
proof -
  have t: "t = s\<lparr>mem := mem t, io := io t\<rparr>" using assms by (simp add: con_frame_def)
  show "textdisplayed t = textdisplayed s" "panicked t = panicked s" "cons_held t = cons_held s"
    "cons_locking t = cons_locking s" "cur_pid t = cur_pid s" "cur_sz t = cur_sz s" "cur_esp t = cur_esp s"
    "input_buf t = input_buf s" "input_r t = input_r s" "input_w t = input_w s" "input_e t = input_e s"
    "wakeups t = wakeups s" "cur_killed t = cur_killed s"
    "con_region P t = con_region P s"
    by (subst t, simp add: con_region_def)+
  show "same_outside (con_region P s) (mem s) (mem t)" using assms by (simp add: con_frame_def)
qed

lemma con_frame_trans:
  assumes "con_frame P s t" "con_frame P t u"
  shows "con_frame P s u"
proof -
  have t: "t = s\<lparr>mem := mem t, io := io t\<rparr>" and u: "u = t\<lparr>mem := mem u, io := io u\<rparr>"
    using assms by (auto simp: con_frame_def)
  have "u = s\<lparr>mem := mem u, io := io u\<rparr>" by (subst u, subst t) simp
  with assms con_frame_fields(15)[OF assms(1)] show ?thesis
    by (auto simp: con_frame_def intro: same_outside_trans)
qed

lemma cell_addr:
  assumes "0 \<le> pos" "2 * nat pos + n \<le> 4000"
  shows "region (vm + 2 * word_of_int pos) n \<subseteq> region vm 4000"
  using assms by (intro region_sub) (simp_all add: unat_double)

lemma cga_cell_ok:
  assumes "pos \<in> {0..<1920}" "cga_cell vm c pos m = (pos', m')"
  shows "pos' \<in> {0..1920} \<and> same_outside (region vm 4000) m m'"
proof -
  have "pos smod 80 = pos mod 80" using assms by (simp add: smod_nonneg)
  moreover have "pos + 80 - pos mod 80 \<le> 1920"
  proof -
    have "pos - pos mod 80 = 80 * (pos div 80)" by (simp add: minus_mod_eq_mult_div)
    moreover have "pos div 80 \<le> 23" using assms(1) by auto
    ultimately show ?thesis by simp
  qed
  moreover have "pos mod 80 < 80" by simp
  moreover have "same_outside (region vm 4000) m (store16 m (vm + 2 * word_of_int pos) v)" for v
    using assms(1) by (intro same_outside_store16 cell_addr) auto
  ultimately show ?thesis using assms by (auto simp: cga_cell_def split: if_splits)
qed

lemma cga_scroll_ok:
  assumes "unat vm + 4000 < 2 ^ 32" "pos \<in> {0..1920}" "cga_scroll vm pos m = (pos', m')"
  shows "pos' \<in> {0..<1920} \<and> same_outside (region vm 4000) m m'"
proof (cases "24 \<le> pos sdiv 80")
  case True
  then have p: "pos = 1920" using assms(2) by (auto simp: sdiv_nonneg)
  have "same_outside (region vm 4000) m (memmove m vm (vm + 160) 3680)"
  proof (rule same_outside_memmove)
    have "unat (vm + 160) = unat vm + 160" using assms(1) by (simp add: unat_word_ariths)
    then show "unat (vm + 160) + unat (3680 :: u32) < 2 ^ 32" using assms(1) by simp
    show "unat vm + unat (3680 :: u32) \<le> 2 ^ 32" using assms(1) by simp
    show "region vm (unat (3680 :: u32)) \<subseteq> region vm 4000" by (rule region_mono) simp
  qed
  also have "same_outside (region vm 4000) \<dots> (memset \<dots> (vm + 2 * word_of_int 1840) 0 (word_of_int 160))"
    using cell_addr[of 1840 160 vm] by (intro same_outside_memset) simp
  finally show ?thesis using assms(3) True p by (auto simp: cga_scroll_def Let_def)
next
  case False
  then have "pos < 1920" using assms(2) by (simp add: sdiv_nonneg)
  with False assms show ?thesis by (auto simp: cga_scroll_def)
qed

lemma cgaputc_saved:
  assumes "consbuffer_ok P" "con_ok P s" "textdisplayed s = 0"
  shows "runs (cgaputc P c s) (\<lambda>_ t. con_ok P t \<and> con_frame P s t)"
proof -
  let ?b = "sym_consbuffer P" and ?pos = "cursorposition P (mem s)"
  obtain p1 m1 where c1: "cga_cell ?b c ?pos (mem s) = (p1, m1)" by fastforce
  obtain p2 m2 where c2: "cga_scroll ?b p1 m1 = (p2, m2)" by fastforce
  have k1: "p1 \<in> {0..1920}" "same_outside (region ?b 4000) (mem s) m1"
    using cga_cell_ok[OF _ c1] assms(2,3) by (auto simp: con_ok_def)
  have k2: "p2 \<in> {0..<1920}" "same_outside (region ?b 4000) m1 m2"
    using cga_scroll_ok[OF _ k1(1) c2] assms(1) by (auto simp: consbuffer_ok_def)
  define m3 where "m3 = store_int m2 (?b + 4000) p2"
  define m4 where "m4 = store16 m3 (?b + 2 * word_of_int p2) 0x0720"
  have sub: "region ?b 4000 \<subseteq> consbuffer_region P" unfolding consbuffer_region_def by (rule region_mono) simp
  have "same_outside (consbuffer_region P) m2 m3" unfolding m3_def consbuffer_region_def
    by (intro same_outside_store_int region_sub) simp_all
  moreover have s4: "same_outside (region ?b 4000) m3 m4"
    unfolding m4_def using k2(1) by (intro same_outside_store16 cell_addr) auto
  ultimately have frame: "same_outside (consbuffer_region P) (mem s) m4"
    using k1(2) k2(2) sub by (blast intro: same_outside_trans same_outside_mono)
  have "region (?b + 4000) 4 \<inter> region ?b 4000 = {}"
    using assms(1) by (intro region_disjoint) (simp_all add: consbuffer_ok_def unat_word_ariths)
  then have "cursorposition P m4 = cursorposition P m3"
    unfolding cursorposition_def using load_int_same[OF s4] by blast
  also have "\<dots> = p2" using k2(1) by (simp add: cursorposition_def m3_def in_i32_def)
  finally have "cursorposition P m4 = p2" .
  moreover have "cgaputc P c s = Ret () (s\<lparr>mem := m4\<rparr>)"
    using assms(3) c1 c2 k1(1) by (simp add: cgaputc_def m4_def m3_def)
  ultimately show ?thesis using frame k2(1) assms(2,3) by (simp add: con_ok_def con_frame_def con_region_def)
qed

lemma gethw_io: "snd (gethardwarecursorposition P s) = s\<lparr>io := io (snd (gethardwarecursorposition P s))\<rparr>"
  by (simp add: gethardwarecursorposition_def inb_def outb_def Let_def)

lemma sethw_io: "sethardwarecursorposition pos s = s\<lparr>io := io (sethardwarecursorposition pos s)\<rparr>"
  by (simp add: sethardwarecursorposition_def inb_def outb_def Let_def)

lemma cgaputc_text:
  assumes "con_ok P s" "textdisplayed s \<noteq> 0"
  shows "runs (cgaputc P c s) (\<lambda>_ t. con_ok P t \<and> con_frame P s t)"
proof -
  have td: "textdisplayed s = 1" and chip: "cursor_chip P" and hw: "hw_cursor P s \<in> {0..<1920}"
    using assms by (auto simp: con_ok_def)
  define s1 where "s1 = snd (gethardwarecursorposition P s)"
  have s1: "s1 = s\<lparr>io := io s1\<rparr>" unfolding s1_def by (rule gethw_io)
  have f1: "mem s1 = mem s" "textdisplayed s1 = 1" by (subst s1, simp add: td)+
  obtain p1 m1 where c1: "cga_cell crt c (hw_cursor P s) (mem s) = (p1, m1)" by fastforce
  obtain p2 m2 where c2: "cga_scroll crt p1 m1 = (p2, m2)" by fastforce
  note k1 = cga_cell_ok[OF hw c1]
  have k2: "p2 \<in> {0..<1920}" "same_outside (region crt 4000) m1 m2"
    using cga_scroll_ok[OF _ _ c2] k1 by (auto simp: crt_def P2V_def KERNBASE_def)
  define s2 where "s2 = sethardwarecursorposition p2 (s1\<lparr>mem := m2\<rparr>)"
  define m4 where "m4 = store16 m2 (crt + 2 * word_of_int p2) 0x0720"
  have s2: "s2 = s1\<lparr>mem := m2, io := io s2\<rparr>"
    unfolding s2_def using sethw_io[of p2 "s1\<lparr>mem := m2\<rparr>"] by simp
  have m: "mem s2 = m2" by (subst s2) simp
  have r: "cgaputc P c s = Ret () (s2\<lparr>mem := m4\<rparr>)"
    using c1 c2 k1 f1 td by (simp add: cgaputc_def hw_cursor_def s1_def s2_def[symmetric] m4_def split_def Let_def)
      (simp add: s2_def[unfolded s1_def, symmetric] m m4_def)
  have "same_outside (region crt 4000) m2 m4"
    unfolding m4_def using k2(1) by (intro same_outside_store16 cell_addr) auto
  then have frame: "same_outside (region crt 4000) (mem s) m4"
    using k1 k2(2) by (blast intro: same_outside_trans)
  have u: "s2\<lparr>mem := m4\<rparr> = s\<lparr>mem := m4, io := io s2\<rparr>" by (subst s2, subst s1) simp
  have "hw_cursor P (s2\<lparr>mem := m4\<rparr>) = p2"
    using hw_cursor_set[OF chip, of p2] k2(1) by (simp add: s2_def)
  then have "con_ok P (s2\<lparr>mem := m4\<rparr>)" using k2(1) chip assms(1) td by (simp add: u con_ok_def)
  moreover have "con_frame P s (s2\<lparr>mem := m4\<rparr>)" using frame td by (simp add: u con_frame_def con_region_def)
  ultimately show ?thesis by (simp add: r)
qed

lemma cgaputc_ok:
  "consbuffer_ok P \<Longrightarrow> con_ok P s \<Longrightarrow> runs (cgaputc P c s) (\<lambda>_ t. con_ok P t \<and> con_frame P s t)"
  by (cases "textdisplayed s = 0") (auto intro: cgaputc_saved cgaputc_text)

text \<open>The serial line: only events on its ports are added.\<close>

definition serial_io :: "'s machine_scheme \<Rightarrow> 's machine_scheme \<Rightarrow> bool" where
  "serial_io s t \<longleftrightarrow> (\<exists>es. t = s\<lparr>io := io s @ es\<rparr> \<and>
     (\<forall>e \<in> set es. \<forall>v. e \<noteq> OutB CRTPORT v \<and> e \<noteq> OutB (CRTPORT + 1) v))"

lemma serial_io_refl [simp]: "serial_io s s"
  unfolding serial_io_def by (intro exI[of _ "[]"]) simp

lemma serial_io_trans: "serial_io s t \<Longrightarrow> serial_io t u \<Longrightarrow> serial_io s u"
  unfolding serial_io_def by (elim exE conjE, rule_tac x = "es @ esa" in exI) auto

lemma serial_io_cursor:
  assumes "cursor_chip P" "serial_io s t"
  shows "hw_cursor P t = hw_cursor P s"
proof -
  obtain es where es: "t = s\<lparr>io := io s @ es\<rparr>" "\<forall>e \<in> set es. \<forall>v. e \<noteq> OutB CRTPORT v \<and> e \<noteq> OutB (CRTPORT + 1) v"
    using assms(2) by (auto simp: serial_io_def)
  from es(2) have "hw_cursor P (s\<lparr>io := io s @ es\<rparr>) = hw_cursor P s"
  proof (induction es rule: rev_induct)
    case (snoc e es)
    then show ?case using hw_cursor_other[OF assms(1), of "s\<lparr>io := io s @ es @ [e]\<rparr>" "s\<lparr>io := io s @ es\<rparr>" e] by auto
  qed simp
  with es(1) show ?thesis by simp
qed

lemma serial_io_step:
  "(\<And>v. e \<noteq> OutB CRTPORT v \<and> e \<noteq> OutB (CRTPORT + 1) v) \<Longrightarrow> serial_io s (s\<lparr>io := io s @ [e]\<rparr>)"
  unfolding serial_io_def by (intro exI[of _ "[e]"]) simp

lemma uart_poll_io: "serial_io s (uart_poll P n s)"
proof (induction n arbitrary: s)
  case (Suc n)
  have "serial_io s (snd (inb P (COM1 + 5) s))" unfolding inb_def Let_def snd_conv by (rule serial_io_step) simp
  with Suc show ?case by (auto simp: split_def intro: serial_io_trans)
qed simp

lemma uartputc_io: "serial_io s (uartputc P c s)"
proof -
  have "serial_io s (outb COM1 v s)" for v and s :: "'a dev_state_scheme"
    unfolding outb_def by (rule serial_io_step) (simp add: COM1_def CRTPORT_def)
  then show ?thesis using uart_poll_io[of s P 128] by (auto simp: uartputc_def intro: serial_io_trans)
qed

lemma con_io:
  assumes "serial_io s t"
  shows "con_frame P s t \<and> (con_ok P s \<longrightarrow> con_ok P t)"
proof -
  obtain es where t: "t = s\<lparr>io := io s @ es\<rparr>" using assms by (auto simp: serial_io_def)
  have "con_frame P s t" by (simp add: t con_frame_def)
  moreover have "con_ok P s \<longrightarrow> con_ok P t" using serial_io_cursor[OF _ assms, of P] by (simp add: t con_ok_def)
  ultimately show ?thesis by blast
qed

lemma con_seq:
  assumes "runs m (\<lambda>_ t. con_ok P t \<and> con_frame P s t)"
    and "\<And>x t. con_ok P t \<Longrightarrow> runs (k x t) (\<lambda>_ u. con_ok P u \<and> con_frame P t u)"
  shows "runs (bindO m k) (\<lambda>_ u. con_ok P u \<and> con_frame P s u)"
proof (cases m)
  case (Ret x t)
  with assms(1) have t: "con_ok P t" "con_frame P s t" by auto
  from assms(2)[OF t(1), of x] show ?thesis using Ret t(2)
    by (auto elim!: runs_mono intro: con_frame_trans)
qed (use assms(1) in auto)

lemma consputc_ok:
  assumes "consbuffer_ok P" "con_ok P s"
  shows "runs (consputc P c s) (\<lambda>_ t. con_ok P t \<and> con_frame P s t)"
proof -
  define t where "t = (if c = BACKSPACE then uartputc P 8 (uartputc P 32 (uartputc P 8 s)) else uartputc P c s)"
  have u: "con_frame P s (uartputc P c s)" "con_ok P s \<Longrightarrow> con_ok P (uartputc P c s)" for c and s :: "'a console_state_scheme"
    using con_io[OF uartputc_io] by blast+
  have f: "con_frame P s t \<and> con_ok P t"
    unfolding t_def using assms(2) con_frame_trans[OF con_frame_trans[OF u(1) u(1)] u(1)] by (auto intro: u)
  have "consputc P c s = cgaputc P c t" using assms(2) by (simp add: consputc_def t_def con_ok_def)
  with cgaputc_ok[OF assms(1), of t c] f show ?thesis by (auto elim!: runs_mono intro: con_frame_trans)
qed

lemma consputs_ok:
  assumes "consbuffer_ok P"
  shows "con_ok P s \<Longrightarrow> runs (consputs P cs s) (\<lambda>_ t. con_ok P t \<and> con_frame P s t)"
  by (induction cs arbitrary: s) (auto simp del: runs_bindO intro!: con_seq consputc_ok[OF assms])

text \<open>The conversions of a format, and the ones that take a number.\<close>

fun fmt_ints :: "string \<Rightarrow> nat option" where
  "fmt_ints [] = Some 0"
| "fmt_ints [c] = Some 0"
| "fmt_ints (c # d # fmt) =
     (if c \<noteq> CHR ''%'' then fmt_ints (d # fmt)
      else if d = CHR ''s'' then None
      else if d \<in> {CHR ''d'', CHR ''x'', CHR ''p''} then map_option Suc (fmt_ints fmt)
      else fmt_ints fmt)"

lemma cprintf_loop_ok:
  assumes "consbuffer_ok P"
  shows "con_ok P s \<Longrightarrow> fmt_ints fmt = Some n \<Longrightarrow> n \<le> length args \<Longrightarrow>
    runs (cprintf_loop P fmt args s) (\<lambda>_ t. con_ok P t \<and> con_frame P s t)"
proof (induction fmt arbitrary: s n args rule: fmt_ints.induct)
  case (2 c)
  then show ?case using consputc_ok[OF assms] by auto
next
  case (3 c d fmt)
  note c = consputc_ok[OF assms] and cs = consputs_ok[OF assms]
  consider "c \<noteq> CHR ''%''" | "c = CHR ''%''" "d \<in> {CHR ''d'', CHR ''x'', CHR ''p''}"
    | "c = CHR ''%''" "d \<notin> {CHR ''d'', CHR ''x'', CHR ''p'', CHR ''s''}"
    using "3.prems"(2) by (auto split: if_splits)
  then show ?case
  proof cases
    case 1
    with 3 show ?thesis by (simp del: runs_bindO) (intro con_seq c; simp)
  next
    case 2
    then obtain k where k: "fmt_ints fmt = Some k" "n = Suc k" using "3.prems"(2) by auto
    then obtain a as where a: "args = a # as" "k \<le> length as" using "3.prems"(3) by (cases args) auto
    have "runs (cprintf_loop P fmt as t) (\<lambda>_ u. con_ok P u \<and> con_frame P t u)" if "con_ok P t" for t :: "'a console_state_scheme"
      using "3.IH"(2) 2 that k(1) a(2) by auto
    then show ?thesis using 2 a(1) "3.prems"(1)
      by (auto simp: printint_def simp del: runs_bindO intro!: con_seq cs)
  next
    case 4: 3
    then have k: "fmt_ints fmt = Some n" using "3.prems"(2) by auto
    have "runs (cprintf_loop P fmt args t) (\<lambda>_ u. con_ok P u \<and> con_frame P t u)" if "con_ok P t" for t :: "'a console_state_scheme"
      using "3.IH"(3) 4 that k "3.prems"(3) by auto
    then show ?thesis using 4 "3.prems"(1) by (auto simp del: runs_bindO intro!: con_seq c)
  qed
qed simp

lemma con_ok_held [simp]: "con_ok P (s\<lparr>cons_held := h\<rparr>) = con_ok P s"
    "con_ok P (s\<lparr>input_e := e\<rparr>) = con_ok P s" "con_ok P (s\<lparr>input_w := e\<rparr>) = con_ok P s"
    "con_ok P (s\<lparr>input_r := e\<rparr>) = con_ok P s" "con_ok P (s\<lparr>input_buf := b\<rparr>) = con_ok P s"
    "con_ok P (s\<lparr>wakeups := w\<rparr>) = con_ok P s"
  by (simp_all add: con_ok_def hw_cursor_def gethardwarecursorposition_def inb_def outb_def Let_def)

lemma cprintf_ok:
  assumes "consbuffer_ok P" "con_ok P s" "fmt_ints fmt = Some n" "n \<le> length args" "\<not> cons_held s"
  shows "runs (cprintf P fmt args s) (\<lambda>_ t. con_ok P t \<and> con_frame P s t)"
proof (cases "cons_locking s")
  case True
  let ?s = "s\<lparr>cons_held := True\<rparr>"
  have "con_ok P ?s" using assms(2) by (simp add: con_ok_held)
  from cprintf_loop_ok[OF assms(1) this assms(3,4)]
  have "runs (cprintf_loop P fmt args ?s) (\<lambda>_ t. con_ok P t \<and> con_frame P ?s t)" .
  moreover have "runs (release_cons t) (\<lambda>_ u. con_ok P u \<and> con_frame P s u)"
    if t: "con_ok P t" "con_frame P ?s t" for t
  proof -
    have u: "t = ?s\<lparr>mem := mem t, io := io t\<rparr>" using t(2) by (simp add: con_frame_def)
    have "cons_held t" by (subst u) simp
    moreover have "t\<lparr>cons_held := False\<rparr> = s\<lparr>mem := mem t, io := io t\<rparr>" by (subst u) (simp add: assms(5))
    moreover have "con_ok P (t\<lparr>cons_held := False\<rparr>)" using t(1) by (simp add: con_ok_held)
    ultimately show ?thesis using con_frame_fields(14)[OF t(2)] by (simp add: release_cons_def con_frame_def con_region_def)
  qed
  ultimately show ?thesis using True assms(5)
    by (auto simp: cprintf_def acquire_cons_def elim!: runs_mono)
next
  case False
  have "runs (cprintf_loop P fmt args s) (\<lambda>_ t. con_ok P t \<and> con_frame P s t)"
    using cprintf_loop_ok[OF assms(1-4)] .
  then show ?thesis using False by (auto simp: cprintf_def elim!: runs_mono)
qed

section \<open>Printing numbers\<close>

definition digit_value :: "int \<Rightarrow> nat" where
  "digit_value c = (if c \<le> 57 then nat (c - 48) else nat (c - 87))"

definition digits_value :: "nat \<Rightarrow> int list \<Rightarrow> nat" where
  "digits_value base cs = foldr (\<lambda>c v. v * base + digit_value c) cs 0"

text \<open>Reads a printed number back.\<close>

definition read_int :: "nat \<Rightarrow> int list \<Rightarrow> int" where
  "read_int base cs =
     (case cs of
        [] \<Rightarrow> 0
      | c # ds \<Rightarrow> if c = 45 then - int (digits_value base (rev ds)) else int (digits_value base (rev cs)))"

lemma digit_value_digits: "n < 16 \<Longrightarrow> digit_value (of_char (digits ! n)) = n \<and> of_char (digits ! n) \<noteq> (45 :: int)"
proof -
  assume "n < 16"
  then have "n \<in> set [0..<16]" by simp
  moreover have "\<forall>n \<in> set [0..<16]. digit_value (of_char (digits ! n)) = n \<and> of_char (digits ! n) \<noteq> (45 :: int)"
    by (simp add: upt_rec digits_def digit_value_def)
  ultimately show ?thesis by blast
qed

lemma digit_loop_value:
  assumes "1 < base" "base \<le> 16"
  shows "digits_value (unat base) (digit_loop base x) = unat x \<and> 45 \<notin> set (digit_loop base x)"
  using assms
proof (induction base x rule: digit_loop.induct)
  case (1 base x)
  have b: "1 < unat base" "unat base \<le> 16"
    using "1.prems" by (simp_all add: word_less_nat_alt word_le_nat_alt)
  have "unat (x mod base) = unat x mod unat base" by (simp add: unat_mod_distrib)
  moreover have "unat x mod unat base < 16" using b by (meson less_le_trans mod_less_divisor less_trans zero_less_one)
  ultimately have d: "digit_value (of_char (digits ! unat (x mod base))) = unat x mod unat base"
      "of_char (digits ! unat (x mod base)) \<noteq> (45 :: int)"
    using digit_value_digits[of "unat (x mod base)"] by auto
  show ?case
  proof (cases "x div base = 0")
    case True
    then have "unat x div unat base = 0" by (metis unat_div_distrib unat_0)
    then have "unat x mod unat base = unat x" using b by (auto simp: div_eq_0_iff)
    with True d show ?thesis by (subst (1 2) digit_loop.simps) (simp add: digits_value_def)
  next
    case False
    moreover have "\<not> base \<le> 1" using "1.prems"(1) by simp
    ultimately have "digits_value (unat base) (digit_loop base (x div base)) = unat x div unat base \<and>
        45 \<notin> set (digit_loop base (x div base))"
      using "1.IH" "1.prems" by (simp add: unat_div_distrib)
    with False \<open>\<not> base \<le> 1\<close> d show ?thesis
      by (subst (1 2) digit_loop.simps) (simp add: digits_value_def)
  qed
qed

lemma length_digit_loop:
  "1 < base \<Longrightarrow> unat x < unat base ^ Suc n \<Longrightarrow> length (digit_loop base x) \<le> Suc n"
proof (induction n arbitrary: x)
  case 0
  then have "x div base = 0" by (simp add: word_unat_eq_iff unat_div_distrib)
  then show ?case by (subst digit_loop.simps) simp
next
  case (Suc n)
  then have "unat (x div base) < unat base ^ Suc n"
    by (simp add: unat_div_distrib less_mult_imp_div_less mult.commute)
  with Suc have "length (digit_loop base (x div base)) \<le> Suc n" by blast
  then show ?case by (subst digit_loop.simps) simp
qed

text \<open>
  C30. A number printed in decimal by \<^verbatim>\<open>printint\<close> reads back as itself for every
  32-bit value, the smallest included, and its characters fit into the local buffer of 16 bytes;
  in hexadecimal the unsigned value is printed.
\<close>

theorem printint_round_trip:
  assumes "in_i32 xx"
  shows "read_int 10 (printint_chars xx 10 True) = xx \<and> length (printint_chars xx 10 True) \<le> 11
    \<and> read_int 16 (printint_chars xx 16 False) = xx mod 2 ^ 32 \<and> length (printint_chars xx 16 False) \<le> 8"
proof -
  have v10: "int (digits_value 10 (digit_loop 10 x)) = uint x \<and> 45 \<notin> set (digit_loop 10 x)" for x
    using digit_loop_value[of 10 x] by simp
  have l10: "length (digit_loop 10 x) \<le> 10" for x
    using length_digit_loop[of 10 x 9] unat_u32_lt[of x] by simp
  have v16: "int (digits_value 16 (digit_loop 16 x)) = uint x \<and> 45 \<notin> set (digit_loop 16 x)" for x
    using digit_loop_value[of 16 x] by simp
  have l16: "length (digit_loop 16 x) \<le> 8" for x
    using length_digit_loop[of 16 x 7] unat_u32_lt[of x] by simp
  have plain: "read_int b (rev ds) = int (digits_value b ds)" if "45 \<notin> set ds" for b ds
    using that by (cases ds rule: rev_cases) (auto simp: read_int_def digits_value_def)
  have "uint (- word_of_int xx :: u32) = - xx" if "xx < 0"
    using that assms by (simp add: wi_hom_neg uint_word_of_int in_i32_def del: of_int_minus)
  then have "read_int 10 (printint_chars xx 10 True) = xx" "length (printint_chars xx 10 True) \<le> 11"
    using assms v10[of "word_of_int (- xx)"] v10[of "word_of_int xx"] l10[of "word_of_int (- xx)"] l10[of "word_of_int xx"]
    by (auto simp: printint_chars_def Let_def plain read_int_def[of _ "45 # _"] uint_word_of_int in_i32_def)
  moreover have "read_int 16 (printint_chars xx 16 False) = xx mod 2 ^ 32" "length (printint_chars xx 16 False) \<le> 8"
    using v16[of "word_of_int xx"] l16[of "word_of_int xx"] by (simp_all add: printint_chars_def plain uint_word_of_int)
  ultimately show ?thesis by blast
qed

theorem printint_round_trip_witness:
  "read_int 10 (printint_chars (- 2147483648) 10 True) = - 2147483648"
  using printint_round_trip[of "- 2147483648"] by (simp add: in_i32_def)

section \<open>The line discipline\<close>

text \<open>
  The input buffer as two lists: the bytes that readers may take and the line being edited.
\<close>

definition committed :: "'s console_state_scheme \<Rightarrow> u8 list" where
  "committed s = ring_at INPUT_BUF (input_buf s) (input_r s) (unat (input_w s - input_r s))"

definition editing :: "'s console_state_scheme \<Rightarrow> u8 list" where
  "editing s = ring_at INPUT_BUF (input_buf s) (input_w s) (unat (input_e s - input_w s))"

definition inp_inv :: "'s console_state_scheme \<Rightarrow> bool" where
  "inp_inv s \<longleftrightarrow> length (input_buf s) = INPUT_BUF \<and> length (committed s) + length (editing s) \<le> INPUT_BUF
     \<and> 10 \<notin> set (editing s)"

text \<open>What one input character does to the two lists.\<close>

definition line_step :: "int \<Rightarrow> u8 list \<times> u8 list \<Rightarrow> u8 list \<times> u8 list" where
  "line_step c = (\<lambda>(com, ed).
     if c = 16 then (com, ed)
     else if c = 21 then (com, [])
     else if c = 8 \<or> c = 0x7f then (com, butlast ed)
     else if c \<noteq> 0 \<and> length com + length ed < INPUT_BUF then
       let c = (if c = 13 then 10 else c)
       in if c = 10 \<or> c = 4 \<or> length com + length ed + 1 = INPUT_BUF then (com @ ed @ [word_of_int c], [])
          else (com, ed @ [word_of_int c])
     else (com, ed))"

lemma INPUT_BUF_dvd: "INPUT_BUF dvd 2 ^ 32"
  by (simp add: INPUT_BUF_def)

lemma length_committed [simp]: "length (committed s) = unat (input_w s - input_r s)"
  by (simp add: committed_def)

lemma length_editing [simp]: "length (editing s) = unat (input_e s - input_w s)"
  by (simp add: editing_def)

lemma input_total:
  assumes "inp_inv s"
  shows "unat (input_e s - input_r s) = length (committed s) + length (editing s)"
proof -
  have "input_e s - input_r s = (input_w s - input_r s) + (input_e s - input_w s)" by simp
  then show ?thesis using assms by (simp only:) (subst unat_word_ariths, simp add: inp_inv_def INPUT_BUF_def)
qed

lemma lists_frame:
  assumes "con_frame P s t"
  shows "committed t = committed s" "editing t = editing s" "inp_inv t = inp_inv s"
  using con_frame_fields[OF assms] by (simp_all add: committed_def editing_def inp_inv_def)

lemma ring_all:
  assumes "inp_inv s"
  shows "ring_at INPUT_BUF (input_buf s) (input_r s) (unat (input_e s - input_r s)) = committed s @ editing s"
  unfolding input_total[OF assms] length_committed length_editing ring_at_append
  by (simp add: committed_def editing_def)

lemma edit_back:
  assumes "inp_inv s" "input_e s \<noteq> input_w s"
  defines "t \<equiv> s\<lparr>input_e := input_e s - 1\<rparr>"
  shows "committed t = committed s \<and> editing t = butlast (editing s) \<and> inp_inv t
    \<and> last (editing s) = input_buf s ! (unat (input_e s - 1) mod INPUT_BUF)"
proof -
  let ?d = "input_e s - input_w s"
  have "?d \<noteq> 0" using assms(2) by simp
  then obtain n where n: "unat ?d = Suc n" by (metis not0_implies_Suc unat_0 word_unat_eq_iff)
  have d: "input_e s - 1 - input_w s = ?d - 1" by (simp add: algebra_simps)
  have u: "unat (input_e s - 1 - input_w s) = n" unfolding d unat_minus_one[OF \<open>?d \<noteq> 0\<close>] n by simp
  have "(of_nat n :: u32) = input_e s - 1 - input_w s" unfolding u[symmetric] by simp
  then have "input_w s + of_nat n = input_e s - 1" by simp
  then have e: "editing s = editing t @ [input_buf s ! (unat (input_e s - 1) mod INPUT_BUF)]"
    by (simp add: editing_def t_def n u ring_at_snoc)
  have "committed t = committed s" by (simp add: committed_def t_def)
  moreover have "inp_inv t" using assms(1) e calculation n u
    by (auto simp: inp_inv_def t_def)
  ultimately show ?thesis using e by simp
qed

lemma kill_line_ok:
  assumes "consbuffer_ok P"
  shows "con_ok P s \<Longrightarrow> inp_inv s \<Longrightarrow> n = unat (input_e s - input_w s) \<Longrightarrow>
    runs (kill_line P n s) (\<lambda>_ t. con_ok P t \<and> inp_inv t \<and> committed t = committed s \<and> editing t = []
      \<and> wakeups t = wakeups s)"
proof (induction n arbitrary: s)
  case 0
  then have "unat (input_e s - input_w s) = 0" by simp
  with 0 show ?case by (simp add: editing_def)
next
  case (Suc n)
  let ?t = "s\<lparr>input_e := input_e s - 1\<rparr>"
  have ne: "input_e s \<noteq> input_w s" using Suc.prems(3) by auto
  note eb = edit_back[OF Suc.prems(2) ne]
  have "editing s \<noteq> []" using Suc.prems(3) by (metis length_editing list.size(3) nat.distinct(1))
  then have "last (editing s) \<noteq> 10" using Suc.prems(2) by (metis inp_inv_def last_in_set)
  moreover have "con_ok P ?t" using Suc.prems(1) by simp
  moreover have "runs (kill_line P n u) (\<lambda>_ t. con_ok P t \<and> inp_inv t \<and> committed t = committed s \<and> editing t = []
      \<and> wakeups t = wakeups s)" if "con_ok P u" "con_frame P ?t u" for u
  proof -
    have n: "n = unat (input_e u - input_w u)"
      using arg_cong[OF lists_frame(2)[OF that(2)], of length] eb Suc.prems(3) by simp
    have "runs (kill_line P n u) (\<lambda>_ t. con_ok P t \<and> inp_inv t \<and> committed t = committed u \<and> editing t = []
      \<and> wakeups t = wakeups u)"
      using Suc.IH[OF that(1) _ n] eb lists_frame(3)[OF that(2)] by blast
    moreover have "wakeups u = wakeups s" using con_frame_fields(12)[OF that(2)] by simp
    ultimately show ?thesis using eb lists_frame(1)[OF that(2)] by (auto elim!: runs_mono)
  qed
  ultimately show ?case using ne eb consputc_ok[OF assms, of ?t BACKSPACE]
    by (auto elim!: runs_mono)
qed

lemma input_char_ok:
  assumes "consbuffer_ok P" "con_ok P s" "inp_inv s" "0 \<le> c" "c < 256" "c \<notin> {16, 21, 8, 0x7f}"
  shows "runs (input_char P c s) (\<lambda>_ t. con_ok P t \<and> inp_inv t
    \<and> (committed t, editing t) = line_step c (committed s, editing s)
    \<and> wakeups t = wakeups s @ (if committed t \<noteq> committed s then [ChInput] else []))"
proof (cases "c \<noteq> 0 \<and> unat (input_e s - input_r s) < INPUT_BUF")
  case False
  then show ?thesis using assms input_total[OF assms(3)] by (auto simp: input_char_def line_step_def)
next
  case True
  define c' where "c' = (if c = 13 then 10 else c)"
  define v where "v = (word_of_int c' :: u8)"
  let ?t = "s\<lparr>input_buf := (input_buf s)[unat (input_e s) mod INPUT_BUF := v], input_e := input_e s + 1\<rparr>"
  let ?n = "length (committed s) + length (editing s)"
  have n: "unat (input_e s - input_r s) = ?n" "?n < INPUT_BUF" using True input_total[OF assms(3)] by auto
  have len: "length (input_buf s) = INPUT_BUF" using assms(3) by (simp add: inp_inv_def)
  have e: "input_e s = input_r s + of_nat ?n" unfolding n(1)[symmetric] by simp
  have e': "input_e s = input_w s + of_nat (length (editing s))" by simp
  have com: "committed ?t = committed s"
    using ring_at_upd_outside[OF INPUT_BUF_dvd, of "length (committed s)" ?n "input_buf s" "input_r s" v] n(2)
    by (simp add: committed_def flip: e)
  have ew: "unat (input_e s + 1 - input_w s) = Suc (unat (input_e s - input_w s))"
  proof -
    have "input_e s + 1 - input_w s = (input_e s - input_w s) + 1" by (simp add: algebra_simps)
    then show ?thesis using n(2) by (simp only:) (subst unat_word_ariths, simp add: INPUT_BUF_def)
  qed
  have ed: "editing ?t = editing s @ [v]"
    using ring_at_put[OF INPUT_BUF_dvd _ len, of "length (editing s)" "input_w s" v] n(2)
    by (simp add: editing_def ew)
  have v10: "v = 10 \<longleftrightarrow> c' = 10" unfolding v_def using assms(4,5)
    by (auto simp: c'_def word_uint_eq_iff uint_word_of_int split: if_splits)
  have all: "ring_at INPUT_BUF (input_buf ?t) (input_r s) (Suc ?n) = committed s @ editing s @ [v]"
    using ring_at_put[OF INPUT_BUF_dvd n(2) len, of "input_r s" v] ring_all[OF assms(3)]
    by (simp add: n(1) flip: e)
  have fin: "runs (if c' = 10 \<or> c' = 4 \<or> input_e u = input_r u + of_nat INPUT_BUF
        then Ret () (wakeup_call ChInput (u\<lparr>input_w := input_e u\<rparr>)) else Ret () u)
      (\<lambda>_ t. con_ok P t \<and> inp_inv t \<and> (committed t, editing t) = line_step c (committed s, editing s)
        \<and> wakeups t = wakeups s @ (if committed t \<noteq> committed s then [ChInput] else []))"
    if u: "con_ok P u" "con_frame P ?t u" for u
  proof -
    note fu = con_frame_fields[OF u(2)] and lu = lists_frame[OF u(2)]
    have full: "input_e u = input_r u + of_nat INPUT_BUF \<longleftrightarrow> ?n + 1 = INPUT_BUF"
    proof -
      have "input_e u = input_r u + of_nat (?n + 1)" using e fu by (simp add: add.assoc[symmetric])
      then have "input_e u = input_r u + of_nat INPUT_BUF \<longleftrightarrow> (of_nat (?n + 1) :: u32) = of_nat INPUT_BUF" by simp
      also have "\<dots> \<longleftrightarrow> ?n + 1 = INPUT_BUF" using n(2)
        by (simp only: word_unat_eq_iff unat_of_nat) (simp add: INPUT_BUF_def)
      finally show ?thesis .
    qed
    define commit where "commit = (c' = 10 \<or> c' = 4 \<or> ?n + 1 = INPUT_BUF)"
    let ?w = "wakeup_call ChInput (u\<lparr>input_w := input_e u\<rparr>)"
    have step: "line_step c (committed s, editing s) =
        (if commit then (committed s @ editing s @ [v], []) else (committed s, editing s @ [v]))"
      using True n(1,2) assms(6) by (auto simp: line_step_def Let_def commit_def v_def c'_def)
    show ?thesis
    proof (cases commit)
      case True
      have "unat (input_e s + 1 - input_r s) = Suc ?n"
      proof -
        have "input_e s + 1 - input_r s = (input_e s - input_r s) + 1" by (simp add: algebra_simps)
        then show ?thesis using n by (simp only:) (subst unat_word_ariths, simp add: INPUT_BUF_def)
      qed
      then have "committed ?w = committed s @ editing s @ [v]" using all fu
        by (simp add: wakeup_call_def committed_def)
      moreover have "editing ?w = []" by (simp add: wakeup_call_def editing_def)
      moreover have "inp_inv ?w" using calculation n(2) len fu by (simp add: inp_inv_def wakeup_call_def)
      moreover have "con_ok P ?w" using u(1) by (simp add: wakeup_call_def)
      moreover have "wakeups ?w = wakeups s @ [ChInput]" using fu by (simp add: wakeup_call_def)
      ultimately show ?thesis using True step full by (simp add: commit_def)
    next
      case False
      then have "c' \<noteq> 10" by (simp add: commit_def)
      then have "inp_inv ?t" using com ed n(2) len assms(3) v10
        by (auto simp: inp_inv_def ew)
      then show ?thesis using False full u(1) lu com ed step fu by (simp add: commit_def)
    qed
  qed
  have "input_char P c s = bindO (consputc P c' ?t) (\<lambda>_ u. if c' = 10 \<or> c' = 4 \<or> input_e u = input_r u + of_nat INPUT_BUF
        then Ret () (wakeup_call ChInput (u\<lparr>input_w := input_e u\<rparr>)) else Ret () u)"
    using True by (simp add: input_char_def Let_def v_def c'_def)
  moreover have "runs (consputc P c' ?t) (\<lambda>_ u. con_ok P u \<and> con_frame P ?t u)"
    by (intro consputc_ok[OF assms(1)]) (simp add: assms(2))
  ultimately show ?thesis by (simp only: runs_bindO) (erule runs_mono, use fin in blast)
qed

lemma consoleintr_char_ok:
  assumes "consbuffer_ok P" "con_ok P s" "inp_inv s" "0 \<le> c" "c < 256"
  shows "runs (consoleintr_char P c d s) (\<lambda>_ t. con_ok P t \<and> inp_inv t
    \<and> (committed t, editing t) = line_step c (committed s, editing s)
    \<and> wakeups t = wakeups s @ (if committed t \<noteq> committed s then [ChInput] else []))"
proof -
  consider "c = 16" | "c = 21" | "c = 8 \<or> c = 0x7f" "input_e s = input_w s"
    | "c = 8 \<or> c = 0x7f" "input_e s \<noteq> input_w s" | "c \<notin> {16, 21, 8, 0x7f}" by auto
  then show ?thesis
  proof cases
    case 1
    with assms show ?thesis by (simp add: consoleintr_char_def line_step_def)
  next
    case 2
    with kill_line_ok[OF assms(1-3) refl] show ?thesis
      by (auto simp: consoleintr_char_def line_step_def elim!: runs_mono)
  next
    case 3
    then have "editing s = []" by (simp add: editing_def)
    with 3 assms show ?thesis by (auto simp: consoleintr_char_def line_step_def)
  next
    case 4
    let ?t = "s\<lparr>input_e := input_e s - 1\<rparr>"
    note eb = edit_back[OF assms(3) 4(2)]
    have "runs (consputc P BACKSPACE ?t) (\<lambda>_ u. con_ok P u \<and> con_frame P ?t u)"
      by (intro consputc_ok[OF assms(1)]) (simp add: assms(2))
    then have "runs (consputc P BACKSPACE ?t) (\<lambda>_ u. con_ok P u \<and> inp_inv u \<and> committed u = committed s
        \<and> editing u = butlast (editing s) \<and> wakeups u = wakeups s)"
      by (rule runs_mono) (use eb lists_frame con_frame_fields(12) in fastforce)
    then show ?thesis using 4 by (auto simp: consoleintr_char_def line_step_def elim!: runs_mono)
  next
    case 5
    with input_char_ok[OF assms] show ?thesis
      by (auto simp: consoleintr_char_def elim!: runs_mono)
  qed
qed

text \<open>The part of the committed bytes that one read of at most \<open>n\<close> bytes returns.\<close>

fun take_line :: "nat \<Rightarrow> u8 list \<Rightarrow> u8 list" where
  "take_line (Suc n) (x # xs) = (if x = 4 then [] else if x = 10 then [x] else x # take_line n xs)"
| "take_line n xs = []"

text \<open>The read needs no more input: it ends by its count, by a newline or by a control-D.\<close>

fun line_ready :: "nat \<Rightarrow> u8 list \<Rightarrow> bool" where
  "line_ready 0 xs = True"
| "line_ready (Suc n) [] = False"
| "line_ready (Suc n) (x # xs) = (x = 4 \<or> x = 10 \<or> line_ready n xs)"

text \<open>What remains: a control-D that ends a line with bytes before it stays for the next read.\<close>

fun rest_line :: "bool \<Rightarrow> nat \<Rightarrow> u8 list \<Rightarrow> u8 list" where
  "rest_line begun (Suc n) (x # xs) =
     (if x = 4 then (if begun then x # xs else xs) else if x = 10 then xs else rest_line True n xs)"
| "rest_line begun n xs = xs"

lemma length_take_line: "length (take_line n xs) \<le> n"
  by (induction n xs rule: take_line.induct) auto

lemma committed_Cons:
  assumes "input_r s \<noteq> input_w s"
  shows "committed s = input_buf s ! (unat (input_r s) mod INPUT_BUF) # committed (s\<lparr>input_r := input_r s + 1\<rparr>)"
proof -
  let ?d = "input_w s - input_r s"
  have "?d \<noteq> 0" using assms by simp
  then obtain n where n: "unat ?d = Suc n" by (metis not0_implies_Suc unat_0 word_unat_eq_iff)
  have d: "input_w s - (input_r s + 1) = ?d - 1" by (simp add: algebra_simps)
  have "unat (input_w s - (input_r s + 1)) = n" unfolding d unat_minus_one[OF \<open>?d \<noteq> 0\<close>] n by simp
  then show ?thesis by (simp add: committed_def n ring_at_Cons)
qed

lemma consoleread_loop_ok:
  assumes "line_ready n (committed s)" "n \<le> target" "int target < 2 ^ 31"
  shows "runs (consoleread_loop envs dst (int target) (int n) s) (\<lambda>m t.
    m = Some (int n - int (length (take_line n (committed s))))
    \<and> bytes_at (mem t) dst (length (take_line n (committed s))) = take_line n (committed s)
    \<and> (\<forall>x. length (take_line n (committed s)) \<le> unat (x - dst) \<longrightarrow> mem t x = mem s x)
    \<and> committed t = rest_line (n < target) n (committed s) \<and> editing t = editing s)"
  using assms
proof (induction n arbitrary: s dst)
  case 0
  then show ?case by (simp add: consoleread_loop.simps)
next
  case (Suc n)
  have ne: "input_r s \<noteq> input_w s" using Suc.prems(1) by (auto simp: committed_def)
  let ?c = "input_buf s ! (unat (input_r s) mod INPUT_BUF)" and ?t = "s\<lparr>input_r := input_r s + 1\<rparr>"
  note com = committed_Cons[OF ne]
  have ed: "editing ?t = editing s" "editing (?t\<lparr>mem := m\<rparr>) = editing s" for m by (simp_all add: editing_def)
  have cm: "committed (?t\<lparr>mem := m\<rparr>) = committed ?t" for m by (simp add: committed_def)
  consider "?c = 4" | "?c = 10" | "?c \<noteq> 4" "?c \<noteq> 10" by blast
  then show ?case
  proof cases
    case 1
    then show ?thesis using ne com ed by (subst consoleread_loop.simps) (auto simp: Let_def)
  next
    case 2
    then show ?thesis using ne com ed cm by (subst consoleread_loop.simps) (auto simp: Let_def bytes_at_Suc)
  next
    case 3
    let ?u = "?t\<lparr>mem := (mem s)(dst := ?c)\<rparr>"
    have r: "consoleread_loop envs dst (int target) (int (Suc n)) s = consoleread_loop envs (dst + 1) (int target) (int n) ?u"
      using 3 ne by (subst consoleread_loop.simps) (simp add: Let_def)
    let ?k = "length (take_line n (committed ?t))"
    have k: "?k \<le> n" by (rule length_take_line)
    have "runs (consoleread_loop envs (dst + 1) (int target) (int n) ?u) (\<lambda>m t.
        m = Some (int n - int ?k) \<and> bytes_at (mem t) (dst + 1) ?k = take_line n (committed ?t)
        \<and> (\<forall>x. ?k \<le> unat (x - (dst + 1)) \<longrightarrow> mem t x = mem ?u x)
        \<and> committed t = rest_line True n (committed ?t) \<and> editing t = editing s)"
      using Suc.IH[of ?u "dst + 1"] Suc.prems 3 com cm ed by auto
    then show ?thesis unfolding r
    proof (rule runs_mono, elim conjE, intro conjI)
      fix m t
      assume a: "m = Some (int n - int ?k)" "bytes_at (mem t) (dst + 1) ?k = take_line n (committed ?t)"
        "\<forall>x. ?k \<le> unat (x - (dst + 1)) \<longrightarrow> mem t x = mem ?u x" "committed t = rest_line True n (committed ?t)"
        "editing t = editing s"
      have b: "?k < 2 ^ 31" using k Suc.prems(2,3) by simp
      show "m = Some (int (Suc n) - int (length (take_line (Suc n) (committed s))))" using a(1) com 3 by simp
      have "unat (dst - (dst + 1)) = 2 ^ 32 - 1" by simp
      then have "mem t dst = ?c" using a(3) b by auto
      then show "bytes_at (mem t) dst (length (take_line (Suc n) (committed s))) = take_line (Suc n) (committed s)"
        using a(2) com 3 by (simp add: bytes_at_Suc)
      show "\<forall>x. length (take_line (Suc n) (committed s)) \<le> unat (x - dst) \<longrightarrow> mem t x = mem s x"
      proof (intro allI impI)
        fix x assume x: "length (take_line (Suc n) (committed s)) \<le> unat (x - dst)"
        then have "Suc ?k \<le> unat (x - dst)" using com 3 by simp
        then have "x - dst \<noteq> 0" "?k \<le> unat (x - dst) - 1" by auto
        then have "?k \<le> unat (x - (dst + 1))" "x \<noteq> dst"
          using unat_minus_one[of "x - dst"] by (auto simp: algebra_simps)
        then show "mem t x = mem s x" using a(3) by simp
      qed
      show "committed t = rest_line (Suc n < target) (Suc n) (committed s)" "editing t = editing s"
        using a(4,5) com 3 by simp_all
    qed
  qed
qed

section \<open>Properties of the console\<close>

text \<open>
  C39. Kernel output never panics and never strays: with the cursor above the last row,
  \<^verbatim>\<open>cprintf\<close> of a format whose numeric conversions have arguments returns, leaves the cursor above
  the last row and the lock free, and changes no memory but the text cells of the screen, or of the
  buffer that stands in for it while a graphics mode is on.
\<close>

theorem cprintf_safe:
  assumes "consbuffer_ok P" and "con_ok P s" and "\<not> cons_held s"
    and "fmt_ints fmt = Some n" and "n \<le> length args"
  shows "runs (cprintf P fmt args s) (\<lambda>_ t. con_ok P t \<and> \<not> cons_held t
    \<and> (\<forall>a. a \<notin> con_region P s \<longrightarrow> mem t a = mem s a))"
  using cprintf_ok[OF assms(1,2,4,5,3)]
proof (rule runs_mono)
  fix t assume "con_ok P t \<and> con_frame P s t"
  then show "con_ok P t \<and> \<not> cons_held t \<and> (\<forall>a. a \<notin> con_region P s \<longrightarrow> mem t a = mem s a)"
    using con_frame_fields(3,14)[of P s t] assms(3) by (simp add: same_outside_def)
qed

definition console0 :: console_state where
  "console0 = \<lparr>mem = (\<lambda>_. 0), io = [], wakeups = [], freelist = 0, use_lock = False, cur_pid = 1, cur_name = [], cur_sz = 0, cur_esp = 0, cur_eax = 0,
     cur_killed = False, uart = False, lapic = 0, shift = 0, panicked = False, cons_locking = True, cons_held = False,
     textdisplayed = 0, input_buf = replicate 128 0, input_r = 0xFFFFFFFF, input_w = 0xFFFFFFFF, input_e = 0xFFFFFFFF\<rparr>"

definition console_platform :: platform where
  "console_platform = clock_platform\<lparr>sym_consbuffer := 0x80110fe0\<rparr>"

lemma console0_ok: "consbuffer_ok console_platform" "con_ok console_platform console0" "\<not> cons_held console0"
    "inp_inv console0" "committed console0 = []" "editing console0 = []" "wakeups console0 = []"
  by (simp_all add: consbuffer_ok_def console_platform_def con_ok_def console0_def cursorposition_def
      load_int_def load32_def inp_inv_def committed_def editing_def INPUT_BUF_def)

theorem cprintf_safe_witness:
  "runs (cprintf console_platform ''%d x, %d y'' [5, 0xFFFFFFFF] console0)
     (\<lambda>_ t. con_ok console_platform t \<and> mem t 0x80000000 = 0)"
proof -
  have "fmt_ints ''%d x, %d y'' = Some 2" by simp
  from cprintf_safe[OF console0_ok(1-3) this, of "[5, 0xFFFFFFFF]"] show ?thesis
    by (auto elim!: runs_mono simp: con_region_def console0_def consbuffer_region_def console_platform_def in_region)
qed

text \<open>
  C15. The line discipline: every character from the keyboard or the serial line acts on the input
  ring buffer as on two lists, the bytes readers may take and the line being edited. It appends,
  erases the last character or the line, or commits the line; a commit, and only a commit, wakes the
  readers. The counters may wrap around.
\<close>

theorem console_line_discipline:
  assumes "consbuffer_ok P" and "con_ok P s" and "inp_inv s" and "0 \<le> c" and "c < 256"
  shows "runs (consoleintr_char P c d s) (\<lambda>_ t. inp_inv t
    \<and> (committed t, editing t) = line_step c (committed s, editing s)
    \<and> wakeups t = wakeups s @ (if committed t \<noteq> committed s then [ChInput] else []))"
  using consoleintr_char_ok[OF assms] by (rule runs_mono) blast

theorem console_line_discipline_witness:
  "runs (bindO (consoleintr_char console_platform 97 False console0) (\<lambda>d t. consoleintr_char console_platform 13 d t))
     (\<lambda>_ t. committed t = [97, 10] \<and> editing t = [] \<and> wakeups t = [ChInput])"
proof -
  have "runs (consoleintr_char console_platform 97 False console0) (\<lambda>_ t. con_ok console_platform t \<and> inp_inv t
      \<and> committed t = [] \<and> editing t = [97] \<and> wakeups t = [])"
    using consoleintr_char_ok[OF console0_ok(1,2,4), of 97 False] console0_ok(5-7)
    by (auto elim!: runs_mono simp: line_step_def INPUT_BUF_def)
  moreover have "runs (consoleintr_char console_platform 13 d t)
      (\<lambda>_ u. committed u = [97, 10] \<and> editing u = [] \<and> wakeups u = [ChInput])"
    if "con_ok console_platform t" "inp_inv t" "committed t = []" "editing t = [97]" "wakeups t = []" for d and t :: console_state
    using console_line_discipline[OF console0_ok(1) that(1,2), of 13 d] that(3-5)
    by (auto elim!: runs_mono simp: line_step_def INPUT_BUF_def)
  ultimately show ?thesis by (auto elim!: runs_mono)
qed

text \<open>A read that does not sleep changes the destination and the read counter only, between the two locks of the inode.\<close>

lemma consoleread_loop_frame:
  "consoleread_loop [] dst target n s = Ret m t \<Longrightarrow> t = s\<lparr>mem := mem t, input_r := input_r t\<rparr>"
proof (induction "[] :: ('a console_state_scheme \<Rightarrow> 'a console_state_scheme) list" dst target n s rule: consoleread_loop.induct)
  case (1 dst target n s)
  show ?case using "1.prems" "1.hyps"(2)
    by (subst (asm) consoleread_loop.simps) (auto simp: Let_def split: if_splits)
qed

lemma consoleread_line:
  assumes "iunlock s = Ret () u" "mem u = mem s" "\<not> cons_held u" "committed u = committed s" "editing u = editing s"
    and "line_ready n (committed s)" and "int n < 2 ^ 31"
  obtains t where "consoleread iunlock ilock [] dst (int n) s =
      bindO (ilock t) (\<lambda>_ t. Ret (int (length (take_line n (committed s)))) t)"
    "t = u\<lparr>mem := mem t, input_r := input_r t\<rparr>"
    "bytes_at (mem t) dst (length (take_line n (committed s))) = take_line n (committed s)"
    "\<forall>x. length (take_line n (committed s)) \<le> unat (x - dst) \<longrightarrow> mem t x = mem s x"
    "committed t = rest_line False n (committed s)" "editing t = editing s"
proof -
  let ?u = "u\<lparr>cons_held := True\<rparr>"
  have c: "committed (w\<lparr>cons_held := b\<rparr>) = committed w" "editing (w\<lparr>cons_held := b\<rparr>) = editing w" for w :: "'a console_state_scheme" and b
    by (simp_all add: committed_def editing_def)
  obtain m w where w: "consoleread_loop [] dst (int n) (int n) ?u = Ret m w"
      "m = Some (int n - int (length (take_line n (committed s))))"
      "bytes_at (mem w) dst (length (take_line n (committed s))) = take_line n (committed s)"
      "\<forall>x. length (take_line n (committed s)) \<le> unat (x - dst) \<longrightarrow> mem w x = mem s x"
      "committed w = rest_line False n (committed s)" "editing w = editing s"
    using consoleread_loop_ok[of n ?u n "[]" dst] assms by (auto simp: runs_iff c)
  have f: "w = ?u\<lparr>mem := mem w, input_r := input_r w\<rparr>" by (rule consoleread_loop_frame[OF w(1)])
  define t where "t = w\<lparr>cons_held := False\<rparr>"
  have h: "cons_held w" by (subst f) simp
  have "t = u\<lparr>mem := mem t, input_r := input_r t\<rparr>" unfolding t_def using assms(3) by (subst f) simp
  moreover have "consoleread iunlock ilock [] dst (int n) s = bindO (ilock t) (\<lambda>_ t. Ret (int (length (take_line n (committed s)))) t)"
    using assms(1,3) w(1,2) h by (simp add: consoleread_def acquire_cons_def release_cons_def t_def)
  moreover have "mem t = mem w" "committed t = committed w" "editing t = editing w" by (simp_all add: t_def c)
  ultimately show thesis using w(3-6) that[of t] by metis
qed

text \<open>
  \<^verbatim>\<open>consoleget\<close> loses a key: the byte that follows a modifier or a key release is read and thrown
  away, whatever it is.
\<close>

lemma consoleget_drops_key:
  assumes "kbdgetc P s = (0, t)" "kbdgetc P t = (c, u)"
  shows "consoleget_loop P s = consoleget_loop P u"
  using assms by (subst consoleget_loop.simps) simp

end
