(* ===== verification/Graphics.thy ===== *)
theory Graphics
  imports Console
begin

text \<open>
  The graphics system calls, \<^verbatim>\<open>src/graphics.c\<close>: drawing contexts, pens, pixels, lines and
  rectangles in the 320 by 200 mode. The off-screen buffer, the table of contexts and the other
  variables of the file lie in memory at the addresses the linker gave them (\<open>sym_videobuffer\<close>,
  \<open>sym_hdcArray\<close>, ...), because the code dereferences the handle it gets from the user as a
  pointer and stores pixels without a range check. C integers wrap (\<open>i32\<close>).
\<close>

section \<open>Drawing contexts in memory\<close>

definition MAX_PROCESSES :: nat where "MAX_PROCESSES = 64"

definition video_memory :: u32 where "video_memory = P2V 0xA0000"

text \<open>The fields of \<^verbatim>\<open>struct HDC\<close> at their offsets.\<close>

definition hdc_x :: "memory \<Rightarrow> u32 \<Rightarrow> int" where "hdc_x m h = load_int m h"
definition hdc_y :: "memory \<Rightarrow> u32 \<Rightarrow> int" where "hdc_y m h = load_int m (h + 4)"
definition hdc_colour :: "memory \<Rightarrow> u32 \<Rightarrow> int" where "hdc_colour m h = load_int m (h + 8)"
definition hdc_pid :: "memory \<Rightarrow> u32 \<Rightarrow> int" where "hdc_pid m h = load_int m (h + 12)"

definition hdcArray :: "platform \<Rightarrow> nat \<Rightarrow> u32" where
  "hdcArray P i = sym_hdcArray P + 16 * of_nat i"

definition indexWritten :: "platform \<Rightarrow> int \<Rightarrow> u32" where
  "indexWritten P index = sym_indexWritten P + 4 * word_of_int index"

text \<open>A store into \<^verbatim>\<open>videobuffer\<close>, and the copy to the screen that follows every drawing call.\<close>

definition pixel_addr :: "platform \<Rightarrow> int \<Rightarrow> int \<Rightarrow> u32" where
  "pixel_addr P x y = sym_videobuffer P + word_of_int (i32 (320 * y + x))"

definition put_pixel :: "platform \<Rightarrow> int \<Rightarrow> int \<Rightarrow> u32 \<Rightarrow> memory \<Rightarrow> memory" where
  "put_pixel P x y hdc m = m(pixel_addr P x y := word_of_int (hdc_colour m hdc))"

definition flush :: "platform \<Rightarrow> 's machine_scheme \<Rightarrow> 's machine_scheme" where
  "flush P s = s\<lparr>mem := memmove (mem s) video_memory (sym_videobuffer P) (2 * 320 * 200)\<rparr>"

section \<open>Drawing\<close>

text \<open>
  The drawing loops count up to and including a bound they get from the user. When the bound is the largest
  \<^verbatim>\<open>int\<close>, the increment after the last round overflows, which C leaves undefined.
\<close>

definition counts_over :: "int \<Rightarrow> int \<Rightarrow> bool" where
  "counts_over i bound \<longleftrightarrow> i \<le> bound \<and> bound = 2 ^ 31 - 1"

definition drawn :: "int \<Rightarrow> int \<Rightarrow> memory \<Rightarrow> 's machine_scheme \<Rightarrow> (unit, 's machine_scheme) outcome" where
  "drawn i bound m s = (if counts_over i bound then Fault ''loop counter'' else Ret () (s\<lparr>mem := m\<rparr>))"

fun clear_loop :: "platform \<Rightarrow> nat \<Rightarrow> nat \<Rightarrow> memory \<Rightarrow> memory" where
  "clear_loop P i 0 m = m"
| "clear_loop P i (Suc n) m = clear_loop P (Suc i) n (m(sym_videobuffer P + of_nat i := 0))"

definition clear320x200x256 :: "platform \<Rightarrow> 's machine_scheme \<Rightarrow> 's machine_scheme" where
  "clear320x200x256 P s = flush P (s\<lparr>mem := clear_loop P 0 (320 * 200) (mem s)\<rparr>)"

definition sys_setpixel :: "platform \<Rightarrow> 's console_state_scheme \<Rightarrow> (int, 's console_state_scheme) outcome" where
  "sys_setpixel P s =
     (case (argint 0 s, argint 1 s, argint 2 s) of
        (Some hdcHandle, Some uX, Some uY) \<Rightarrow>
          Ret 0 (flush P (s\<lparr>mem := put_pixel P uX uY (word_of_int hdcHandle) (mem s)\<rparr>))
      | _ \<Rightarrow> Ret (-1) s)"

definition sys_moveto :: "'s console_state_scheme \<Rightarrow> (int, 's console_state_scheme) outcome" where
  "sys_moveto s =
     (case (argint 0 s, argint 1 s, argint 2 s) of
        (Some hdcHandle, Some uX, Some uY) \<Rightarrow>
          let hdc = word_of_int hdcHandle;
              s = s\<lparr>mem := store_int (mem s) hdc uX\<rparr>
          in Ret 0 (s\<lparr>mem := store_int (mem s) (hdc + 4) uY\<rparr>)
      | _ \<Rightarrow> Ret (-1) s)"

function vline_loop :: "platform \<Rightarrow> u32 \<Rightarrow> int \<Rightarrow> int \<Rightarrow> int \<Rightarrow> memory \<Rightarrow> memory" where
  "vline_loop P hdc x y y2 m =
     (if y \<le> y2 then vline_loop P hdc x (y + 1) y2 (put_pixel P x y hdc m) else m)"
  by pat_completeness auto
termination by (relation "measure (\<lambda>(P, hdc, x, y, y2, m). nat (y2 + 1 - y))") auto

definition VerticalLine :: "platform \<Rightarrow> u32 \<Rightarrow> int \<Rightarrow> int \<Rightarrow> int \<Rightarrow> int \<Rightarrow> memory \<Rightarrow> memory" where
  "VerticalLine P hdc x y1 y2 direction m =
     (let m = vline_loop P hdc x y1 y2 m
      in if direction = 1 then store_int m (hdc + 4) y1 else store_int m (hdc + 4) y2)"

function hline_loop :: "platform \<Rightarrow> u32 \<Rightarrow> int \<Rightarrow> int \<Rightarrow> int \<Rightarrow> memory \<Rightarrow> memory" where
  "hline_loop P hdc x x2 y m =
     (if x \<le> x2 then hline_loop P hdc (x + 1) x2 y (put_pixel P x y hdc m) else m)"
  by pat_completeness auto
termination by (relation "measure (\<lambda>(P, hdc, x, x2, y, m). nat (x2 + 1 - x))") auto

declare vline_loop.simps [simp del] hline_loop.simps [simp del]

definition HorizontalLine :: "platform \<Rightarrow> u32 \<Rightarrow> int \<Rightarrow> int \<Rightarrow> int \<Rightarrow> int \<Rightarrow> memory \<Rightarrow> memory" where
  "HorizontalLine P hdc x1 x2 y direction m =
     (let m = hline_loop P hdc x1 x2 y m
      in if direction = 1 then store_int m hdc x1 else store_int m hdc x2)"

text \<open>One column of \<^verbatim>\<open>BressenhamLine\<close>: the new error and the new row.\<close>

definition bres_next :: "int \<Rightarrow> int \<Rightarrow> int \<times> int \<Rightarrow> int \<times> int" where
  "bres_next dx dy = (\<lambda>(y, slope_error_new).
     let m_new = i32 (2 * dy);
         y_increment = (if 0 < dy then 1 else -1);
         slope_error_new = i32 (slope_error_new + m_new)
     in if (0 \<le> slope_error_new \<and> 0 < dy) \<or> (slope_error_new \<le> 0 \<and> dy < 0)
        then (i32 (y + y_increment), i32 (slope_error_new - 2 * dx))
        else (y, slope_error_new))"

function bres_loop ::
  "platform \<Rightarrow> u32 \<Rightarrow> int \<Rightarrow> int \<Rightarrow> int \<Rightarrow> int \<Rightarrow> int \<times> int \<Rightarrow> 's console_state_scheme \<Rightarrow>
    (unit, 's console_state_scheme) outcome" where
  "bres_loop P hdc dx dy x x2 ye s =
     (if x \<le> x2 then
        let index = pixel_addr P x (fst ye);
            s = s\<lparr>mem := put_pixel P x (fst ye) hdc (mem s)\<rparr>;
            ye = bres_next dx dy ye
        in bindO (cprintf P ''%d x, %d y | %d\<newline>'' [word_of_int x, word_of_int (fst ye), scast (mem s index)] s) (\<lambda>_ s.
             let s = s\<lparr>mem := store_int (mem s) hdc x\<rparr>;
                 s = s\<lparr>mem := store_int (mem s) (hdc + 4) (fst ye)\<rparr>
             in if counts_over x x2 then Fault ''loop counter'' else bres_loop P hdc dx dy (x + 1) x2 ye s)
      else Ret () s)"
  by pat_completeness auto
termination by (relation "measure (\<lambda>(P, hdc, dx, dy, x, x2, ye, s). nat (x2 + 1 - x))") auto

declare bres_loop.simps [simp del]

definition BressenhamLine ::
  "platform \<Rightarrow> int \<Rightarrow> int \<Rightarrow> int \<Rightarrow> int \<Rightarrow> u32 \<Rightarrow> 's console_state_scheme \<Rightarrow> (unit, 's console_state_scheme) outcome" where
  "BressenhamLine P x1 x2 y1 y2 hdc s =
     (let dx = i32 (x2 - x1);
          dy = i32 (y2 - y1);
          m_new = i32 (2 * (y2 - y1))
      in bres_loop P hdc dx dy x1 x2 (y1, i32 (m_new - (x2 - x1))) s)"

definition sys_lineto :: "platform \<Rightarrow> 's console_state_scheme \<Rightarrow> (int, 's console_state_scheme) outcome" where
  "sys_lineto P s =
     (case (argint 0 s, argint 1 s, argint 2 s) of
        (Some hdcHandle, Some uX, Some uY) \<Rightarrow>
          let hdc = word_of_int hdcHandle;
              sX = hdc_x (mem s) hdc;
              sY = hdc_y (mem s) hdc
          in bindO (if uX = sX then
                      (if uY < sY then drawn uY sY (VerticalLine P hdc sX uY sY 1 (mem s)) s
                       else drawn sY uY (VerticalLine P hdc sX sY uY 0 (mem s)) s)
                    else if uY = sY then
                      (if uX < sX then drawn uX sX (HorizontalLine P hdc uX sX sY 1 (mem s)) s
                       else drawn sX uX (HorizontalLine P hdc sX uX sY 0 (mem s)) s)
                    else BressenhamLine P sX uX sY uY hdc s) (\<lambda>_ s.
               Ret 1 (flush P s))
      | _ \<Rightarrow> Ret (-1) s)"

function rect_loop ::
  "platform \<Rightarrow> bool \<Rightarrow> u32 \<Rightarrow> int \<Rightarrow> int \<Rightarrow> int \<Rightarrow> int \<Rightarrow> 's console_state_scheme \<Rightarrow> (unit, 's console_state_scheme) outcome" where
  "rect_loop P noisy hdc x1 x2 y y2 s =
     (if y \<le> y2 then
        bindO (if noisy then cprintf P ''using hdc %d\<newline>'' [hdc] s else Ret () s) (\<lambda>_ s.
        bindO (drawn x1 x2 (HorizontalLine P hdc x1 x2 y 0 (mem s)) s) (\<lambda>_ s.
          if counts_over y y2 then Fault ''loop counter'' else rect_loop P noisy hdc x1 x2 (y + 1) y2 s))
      else Ret () s)"
  by pat_completeness auto
termination by (relation "measure (\<lambda>(P, noisy, hdc, x1, x2, y, y2, s). nat (y2 + 1 - y))") auto

declare rect_loop.simps [simp del]

definition sys_fillrect :: "platform \<Rightarrow> 's console_state_scheme \<Rightarrow> (int, 's console_state_scheme) outcome" where
  "sys_fillrect P s =
     (case (argint 0 s, argptr 1 16 s) of
        (Some hdcHandle, Some r) \<Rightarrow>
          bindO (cprintf P ''rect print %d, %d, %d, %d\<newline>''
              [load32 (mem s) r, load32 (mem s) (r + 4), load32 (mem s) (r + 8), load32 (mem s) (r + 12)] s) (\<lambda>_ s.
            let x1 = load_int (mem s) r;
                x2 = load_int (mem s) (r + 8);
                y1 = load_int (mem s) (r + 4);
                y2 = load_int (mem s) (r + 12);
                hdc = word_of_int hdcHandle
            in bindO (if y1 < y2 then rect_loop P True hdc x1 x2 y1 y2 s
                      else rect_loop P False hdc x1 x2 y2 y1 s) (\<lambda>_ s.
                 Ret 1 (flush P s)))
      | _ \<Rightarrow> Ret (-1) s)"

section \<open>Pens\<close>

definition sys_setpencolour :: "platform \<Rightarrow> 's console_state_scheme \<Rightarrow> (int, 's console_state_scheme) outcome" where
  "sys_setpencolour P s =
     (case (argint 0 s, argint 1 s, argint 2 s, argint 3 s) of
        (Some index, Some r, Some g, Some b) \<Rightarrow>
          bindO (cprintf P ''%d index, %d, r, %d g, %d b\<newline>''
              [word_of_int index, word_of_int r, word_of_int g, word_of_int b] s) (\<lambda>_ s.
            bindO
              (if index \<le> 15 \<or> 255 < index then
                 cprintf P ''The index cannot be between 0 and 15, and cannot exceed 255. Try again\<newline>'' [] s
               else if 64 \<le> r \<or> 64 \<le> g \<or> 64 \<le> b then
                 cprintf P ''RGB values can not equal or exceed 64. Try a value between 0-63\<newline>'' [] s
               else
                 bindO (cprintf P ''Successfully applied colour to index %d.\<newline> Select it be using setpen.\<newline>''
                   [word_of_int index] s) (\<lambda>_ s.
                 let s = outb 0x3C8 (word_of_int index) s;
                     s = outb 0x3C9 (word_of_int r) s;
                     s = outb 0x3C9 (word_of_int g) s;
                     s = outb 0x3C9 (word_of_int b) s
                 in bindO (if load_int (mem s) (indexWritten P index) = 1
                           then cprintf P ''Warning: You have reassigned this index\<newline>'' [] s
                           else Ret () s) (\<lambda>_ s.
                      Ret () (s\<lparr>mem := store_int (mem s) (indexWritten P index) 1\<rparr>))))
              (\<lambda>_ s. Ret 1 s))
      | _ \<Rightarrow> Ret (-1) s)"

definition sys_selectpen :: "platform \<Rightarrow> 's console_state_scheme \<Rightarrow> (int, 's console_state_scheme) outcome" where
  "sys_selectpen P s =
     bindO (cprintf P ''This system call is PID %d\<newline>'' [word_of_int (cur_pid s)] s) (\<lambda>_ s.
       case (argint 0 s, argint 1 s) of
         (Some hdcHandle, Some index) \<Rightarrow>
           let hdc = word_of_int hdcHandle
           in bindO
                (if index \<le> 15 \<or> load_int (mem s) (indexWritten P index) = 1 then
                   let s = s\<lparr>mem := store_int (mem s) (hdc + 8) index\<rparr>
                   in cprintf P ''Pen colour is now index %d\<newline>'' [load32 (mem s) (hdc + 8)] s
                 else cprintf P ''This colour has not been made. Use makepen to set it up.\<newline>'' [] s)
                (\<lambda>_ s. Ret hdcHandle s)
       | _ \<Rightarrow> Ret (-1) s)"

section \<open>Allocation of drawing contexts\<close>

definition reset_hdc :: "u32 \<Rightarrow> memory \<Rightarrow> memory" where
  "reset_hdc h m = store_int (store_int (store_int (store_int m (h + 12) (-1)) (h + 8) 15) h 0) (h + 4) 0"

fun init_loop :: "platform \<Rightarrow> nat \<Rightarrow> nat \<Rightarrow> memory \<Rightarrow> memory" where
  "init_loop P i 0 m = m"
| "init_loop P i (Suc n) m = init_loop P (Suc i) n (reset_hdc (hdcArray P i) m)"

definition initHdcArray :: "platform \<Rightarrow> memory \<Rightarrow> memory" where
  "initHdcArray P m = init_loop P 0 MAX_PROCESSES m"

text \<open>The first free context from \<open>i\<close> on, of \<open>n\<close>; the result 0 is the null pointer.\<close>

fun alloc_loop :: "platform \<Rightarrow> int \<Rightarrow> nat \<Rightarrow> nat \<Rightarrow> 's console_state_scheme \<Rightarrow> (u32, 's console_state_scheme) outcome" where
  "alloc_loop P pid i 0 s = Ret 0 s"
| "alloc_loop P pid i (Suc n) s =
     (if hdc_pid (mem s) (hdcArray P i) = -1 then
        let s = s\<lparr>mem := store_int (mem s) (hdcArray P i + 12) pid\<rparr>
        in bindO (cprintf P ''Assigned HDC %d\<newline>'' [load32 (mem s) (hdcArray P i + 12)] s) (\<lambda>_ s.
             Ret (hdcArray P i) s)
      else alloc_loop P pid (Suc i) n s)"

definition allocateHDC :: "platform \<Rightarrow> int \<Rightarrow> 's console_state_scheme \<Rightarrow> (u32, 's console_state_scheme) outcome" where
  "allocateHDC P pid s = alloc_loop P pid 0 MAX_PROCESSES s"

definition print_hdc :: "platform \<Rightarrow> u32 \<Rightarrow> 's console_state_scheme \<Rightarrow> (unit, 's console_state_scheme) outcome" where
  "print_hdc P hdc s = cprintf P ''%d, %d, %d, %d\<newline>''
     [load32 (mem s) (hdc + 12), load32 (mem s) (hdc + 8), load32 (mem s) hdc, load32 (mem s) (hdc + 4)] s"

definition releaseHDC :: "platform \<Rightarrow> u32 \<Rightarrow> 's console_state_scheme \<Rightarrow> (unit, 's console_state_scheme) outcome" where
  "releaseHDC P hdc s = print_hdc P hdc (s\<lparr>mem := reset_hdc hdc (mem s)\<rparr>)"

definition sys_beginpaint :: "platform \<Rightarrow> 's console_state_scheme \<Rightarrow> (int, 's console_state_scheme) outcome" where
  "sys_beginpaint P s =
     (let s = (if load_int (mem s) (sym_firstTime P) \<noteq> 1
               then s\<lparr>mem := store_int (initHdcArray P (mem s)) (sym_firstTime P) 1\<rparr> else s)
      in bindO (allocateHDC P (cur_pid s) s) (\<lambda>hdc s.
         bindO (print_hdc P hdc s) (\<lambda>_ s. Ret (sint hdc) s)))"

definition sys_endpaint :: "platform \<Rightarrow> 's console_state_scheme \<Rightarrow> (int, 's console_state_scheme) outcome" where
  "sys_endpaint P s =
     (case argint 0 s of
        None \<Rightarrow> Ret (-1) s
      | Some hdcHandle \<Rightarrow> bindO (releaseHDC P (word_of_int hdcHandle) s) (\<lambda>_ s. Ret 0 s))"

section \<open>Layout\<close>

text \<open>
  The linker places the variables of the file apart from each other and from the saved text screen,
  above the video memory and below the end of the address space.
\<close>

definition gfx_vars :: "platform \<Rightarrow> (nat \<times> nat) list" where
  "gfx_vars P = [(unat (sym_consbuffer P), 4004), (unat (sym_videobuffer P), 64000), (unat (sym_indexWritten P), 1020),
     (unat (sym_firstTime P), 4), (unat (sym_hdcArray P), 1024)]"

fun apart :: "(nat \<times> nat) list \<Rightarrow> bool" where
  "apart [] = True"
| "apart ((a, n) # vs) = ((\<forall>(b, k) \<in> set vs. a + n \<le> b \<or> b + k \<le> a) \<and> apart vs)"

definition gfx_layout :: "platform \<Rightarrow> bool" where
  "gfx_layout P \<longleftrightarrow> apart (gfx_vars P) \<and> (\<forall>(a, n) \<in> set (gfx_vars P). unat KERNLINK \<le> a \<and> a + 2 * n < 2 ^ 32)"

abbreviation vb_region :: "platform \<Rightarrow> u32 set" where "vb_region P \<equiv> region (sym_videobuffer P) 64000"
abbreviation iw_region :: "platform \<Rightarrow> u32 set" where "iw_region P \<equiv> region (sym_indexWritten P) 1020"
abbreviation ft_region :: "platform \<Rightarrow> u32 set" where "ft_region P \<equiv> region (sym_firstTime P) 4"
abbreviation ha_region :: "platform \<Rightarrow> u32 set" where "ha_region P \<equiv> region (sym_hdcArray P) 1024"
abbreviation video_window :: "u32 set" where "video_window \<equiv> region video_memory 128000"
abbreviation user_space :: "u32 set" where "user_space \<equiv> region 0 0x80000000"

lemma gfx_layout_consbuffer: "gfx_layout P \<Longrightarrow> consbuffer_ok P"
  by (simp add: gfx_layout_def gfx_vars_def consbuffer_ok_def)

lemma layout_regions:
  assumes "gfx_layout P"
  shows "vb_region P \<inter> ha_region P = {}" "vb_region P \<inter> iw_region P = {}" "vb_region P \<inter> ft_region P = {}"
    "ha_region P \<inter> iw_region P = {}" "ha_region P \<inter> ft_region P = {}" "iw_region P \<inter> ft_region P = {}"
    "consbuffer_region P \<inter> vb_region P = {}" "consbuffer_region P \<inter> ha_region P = {}"
    "consbuffer_region P \<inter> iw_region P = {}" "consbuffer_region P \<inter> ft_region P = {}"
  using assms unfolding consbuffer_region_def gfx_layout_def gfx_vars_def
  by (intro region_disjoint; force)+

lemma window_regions:
  assumes "gfx_layout P"
  shows "vb_region P \<inter> video_window = {}" "ha_region P \<inter> video_window = {}" "iw_region P \<inter> video_window = {}"
    "ft_region P \<inter> video_window = {}" "consbuffer_region P \<inter> video_window = {}"
    "vb_region P \<inter> user_space = {}" "ha_region P \<inter> user_space = {}" "iw_region P \<inter> user_space = {}"
    "ft_region P \<inter> user_space = {}" "consbuffer_region P \<inter> user_space = {}" "video_window \<inter> user_space = {}"
    "region crt 4000 \<inter> vb_region P = {}" "region crt 4000 \<inter> ha_region P = {}" "region crt 4000 \<inter> iw_region P = {}"
    "region crt 4000 \<inter> ft_region P = {}" "region crt 4000 \<inter> user_space = {}"
  using assms unfolding consbuffer_region_def gfx_layout_def gfx_vars_def
  by (intro region_disjoint; force simp: layout_defs video_memory_def P2V_def crt_def)+

section \<open>Pixels\<close>

definition on_screen :: "int \<Rightarrow> int \<Rightarrow> bool" where
  "on_screen x y \<longleftrightarrow> 0 \<le> x \<and> x < 320 \<and> 0 \<le> y \<and> y < 200"

text \<open>A pixel of the off-screen buffer and of the screen.\<close>

definition pix :: "platform \<Rightarrow> memory \<Rightarrow> int \<Rightarrow> int \<Rightarrow> u8" where
  "pix P m x y = m (pixel_addr P x y)"

definition pixel_off :: "int \<Rightarrow> int \<Rightarrow> u32" where
  "pixel_off x y = word_of_int (320 * y + x)"

definition screen :: "memory \<Rightarrow> int \<Rightarrow> int \<Rightarrow> u8" where
  "screen m x y = m (video_memory + pixel_off x y)"

lemma pixel_addr_eq:
  assumes "on_screen x y"
  shows "pixel_addr P x y = sym_videobuffer P + pixel_off x y"
    "unat (pixel_off x y) = nat (320 * y + x)" "nat (320 * y + x) < 64000"
proof -
  have b: "0 \<le> 320 * y + x" "320 * y + x < 64000" using assms by (auto simp: on_screen_def)
  then have "in_i32 (320 * y + x)" by (simp add: in_i32_def)
  then show "pixel_addr P x y = sym_videobuffer P + pixel_off x y" by (simp add: pixel_addr_def pixel_off_def)
  show "unat (pixel_off x y) = nat (320 * y + x)" "nat (320 * y + x) < 64000"
    using b unat_word_of_int[of "320 * y + x"] unfolding pixel_off_def by simp_all
qed

lemma pixel_in_buffer: "on_screen x y \<Longrightarrow> pixel_addr P x y \<in> vb_region P"
  by (simp add: in_region pixel_addr_eq)

lemma pixel_addr_inj:
  assumes "on_screen x y" "on_screen x' y'"
  shows "pixel_addr P x y = pixel_addr P x' y' \<longleftrightarrow> x = x' \<and> y = y'"
proof -
  have "pixel_addr P x y = pixel_addr P x' y' \<longleftrightarrow> unat (pixel_off x y) = unat (pixel_off x' y')"
    using assms by (simp add: pixel_addr_eq(1) flip: word_unat_eq_iff)
  also have "\<dots> \<longleftrightarrow> x = x' \<and> y = y'"
  proof -
    have "x = x' \<and> y = y'" if e: "320 * y + x = 320 * y' + x'"
    proof -
      have "\<not> y < y'" "\<not> y' < y" using e assms by (auto simp: on_screen_def)
      with e show ?thesis by simp
    qed
    moreover have "0 \<le> 320 * y + x" "0 \<le> 320 * y' + x'" using assms by (simp_all add: on_screen_def)
    ultimately show ?thesis using assms by (auto simp: pixel_addr_eq(2) nat_eq_iff)
  qed
  finally show ?thesis .
qed

lemma flush_screen:
  assumes "gfx_layout P"
  shows "same_outside video_window (mem s) (mem (flush P s))"
    and "on_screen x y \<Longrightarrow> screen (mem (flush P s)) x y = pix P (mem s) x y"
proof -
  have b: "unat (sym_videobuffer P) + unat (128000 :: u32) < 2 ^ 32" "unat video_memory + unat (128000 :: u32) \<le> 2 ^ 32"
    using assms by (simp_all add: gfx_layout_def gfx_vars_def video_memory_def P2V_def KERNBASE_def)
  then show "same_outside video_window (mem s) (mem (flush P s))"
    using same_outside_memmove[OF b, of video_window] by (simp add: flush_def)
  assume "on_screen x y"
  then show "screen (mem (flush P s)) x y = pix P (mem s) x y"
    using memmove_apply[OF b, of "mem s"] pixel_addr_eq(3)[of x y]
    by (simp add: flush_def screen_def pix_def pixel_addr_eq(1,2))
qed

lemma flush_fields [simp]:
  "cur_sz (flush P s) = cur_sz s" "cur_esp (flush P s) = cur_esp s" for s :: "'a console_state_scheme"
  by (simp_all add: flush_def)

lemma pix_same: "same_outside A m m' \<Longrightarrow> vb_region P \<inter> A = {} \<Longrightarrow> on_screen x y \<Longrightarrow> pix P m' x y = pix P m x y"
  using pixel_in_buffer[of x y P] by (auto simp: pix_def same_outside_def)

section \<open>Handles\<close>

definition valid_hdc :: "platform \<Rightarrow> u32 \<Rightarrow> bool" where
  "valid_hdc P h \<longleftrightarrow> (\<exists>i < MAX_PROCESSES. h = hdcArray P i)"

lemma hdcArray_region:
  assumes "i < MAX_PROCESSES" "unat d + n \<le> 16"
  shows "region (hdcArray P i + d) n \<subseteq> ha_region P"
proof -
  have "unat (16 * of_nat i :: u32) = 16 * i" using assms(1)
    by (subst unat_word_ariths) (simp add: MAX_PROCESSES_def unat_of_nat)
  moreover have "unat (16 * of_nat i + d) = unat (16 * of_nat i :: u32) + unat d"
    using assms calculation by (subst unat_word_ariths) (simp add: MAX_PROCESSES_def)
  ultimately have "unat (16 * of_nat i + d) + n \<le> 1024" using assms by (simp add: MAX_PROCESSES_def)
  from region_sub[OF this, of "sym_hdcArray P"] show ?thesis by (simp add: hdcArray_def add.assoc)
qed

lemma valid_hdc_region:
  "valid_hdc P h \<Longrightarrow> unat d + n \<le> 16 \<Longrightarrow> region (h + d) n \<subseteq> ha_region P"
  unfolding valid_hdc_def using hdcArray_region by blast

lemma valid_hdc_field: "valid_hdc P h \<Longrightarrow> region h 4 \<subseteq> ha_region P" "valid_hdc P h \<Longrightarrow> region (h + 4) 4 \<subseteq> ha_region P"
  "valid_hdc P h \<Longrightarrow> region (h + 8) 4 \<subseteq> ha_region P" "valid_hdc P h \<Longrightarrow> region (h + 12) 4 \<subseteq> ha_region P"
  using valid_hdc_region[of P h 0 4] valid_hdc_region[of P h 4 4] valid_hdc_region[of P h 8 4]
    valid_hdc_region[of P h 12 4] by simp_all

text \<open>The fields of a context do not overlap.\<close>

lemma field_regions:
  fixes a b :: u32
  assumes "unat (b - a) = 4 \<or> unat (b - a) = 8 \<or> unat (b - a) = 12"
  shows "region (h + a) 4 \<inter> region (h + b) 4 = {}"
proof -
  have "x \<notin> region (h + b) 4" if "x \<in> region (h + a) 4" for x
  proof
    assume "x \<in> region (h + b) 4"
    let ?u = "x - (h + a)" and ?v = "x - (h + b)"
    have "unat ?u < 4" "unat ?v < 4" using that \<open>x \<in> region (h + b) 4\<close> by (auto simp: in_region)
    moreover have "?u = ?v + (b - a)" by simp
    then have "unat ?u = (unat ?v + unat (b - a)) mod 2 ^ 32" by (simp only:) (subst unat_word_ariths, simp)
    ultimately show False using assms by auto
  qed
  then show ?thesis by blast
qed

definition same_hdc :: "u32 \<Rightarrow> memory \<Rightarrow> memory \<Rightarrow> bool" where
  "same_hdc h m m' \<longleftrightarrow> hdc_x m' h = hdc_x m h \<and> hdc_y m' h = hdc_y m h \<and> hdc_colour m' h = hdc_colour m h
     \<and> hdc_pid m' h = hdc_pid m h"

lemma hdc_same:
  assumes "same_outside A m m'" "ha_region P \<inter> A = {}" "valid_hdc P h"
  shows "same_hdc h m m'"
proof -
  have "region h 4 \<inter> A = {}" "region (h + 4) 4 \<inter> A = {}" "region (h + 8) 4 \<inter> A = {}" "region (h + 12) 4 \<inter> A = {}"
    using valid_hdc_field[OF assms(3)] assms(2) by blast+
  then show ?thesis using load_int_same[OF assms(1)]
    by (simp add: same_hdc_def hdc_x_def hdc_y_def hdc_colour_def hdc_pid_def)
qed

lemma hdc_store:
  assumes "in_i32 v"
  shows "hdc_x (store_int m h v) h = v" "hdc_y (store_int m h v) h = hdc_y m h"
    "hdc_colour (store_int m h v) h = hdc_colour m h" "hdc_pid (store_int m h v) h = hdc_pid m h"
    "hdc_y (store_int m (h + 4) v) h = v" "hdc_x (store_int m (h + 4) v) h = hdc_x m h"
    "hdc_colour (store_int m (h + 4) v) h = hdc_colour m h" "hdc_pid (store_int m (h + 4) v) h = hdc_pid m h"
    "hdc_colour (store_int m (h + 8) v) h = v" "hdc_x (store_int m (h + 8) v) h = hdc_x m h"
    "hdc_y (store_int m (h + 8) v) h = hdc_y m h" "hdc_pid (store_int m (h + 8) v) h = hdc_pid m h"
    "hdc_pid (store_int m (h + 12) v) h = v" "hdc_x (store_int m (h + 12) v) h = hdc_x m h"
    "hdc_y (store_int m (h + 12) v) h = hdc_y m h" "hdc_colour (store_int m (h + 12) v) h = hdc_colour m h"
proof -
  have o: "load_int (store_int m (h + a) v) (h + b) = load_int m (h + b)"
    if "unat (a - b) = 4 \<or> unat (a - b) = 8 \<or> unat (a - b) = 12 \<or> unat (b - a) = 4 \<or> unat (b - a) = 8 \<or> unat (b - a) = 12" for a b
    using load_int_same[OF same_outside_store_int[OF subset_refl]] field_regions[of a b h] field_regions[of b a h] that by blast
  show "hdc_x (store_int m h v) h = v" "hdc_y (store_int m h v) h = hdc_y m h"
    "hdc_colour (store_int m h v) h = hdc_colour m h" "hdc_pid (store_int m h v) h = hdc_pid m h"
    "hdc_y (store_int m (h + 4) v) h = v" "hdc_x (store_int m (h + 4) v) h = hdc_x m h"
    "hdc_colour (store_int m (h + 4) v) h = hdc_colour m h" "hdc_pid (store_int m (h + 4) v) h = hdc_pid m h"
    "hdc_colour (store_int m (h + 8) v) h = v" "hdc_x (store_int m (h + 8) v) h = hdc_x m h"
    "hdc_y (store_int m (h + 8) v) h = hdc_y m h" "hdc_pid (store_int m (h + 8) v) h = hdc_pid m h"
    "hdc_pid (store_int m (h + 12) v) h = v" "hdc_x (store_int m (h + 12) v) h = hdc_x m h"
    "hdc_y (store_int m (h + 12) v) h = hdc_y m h" "hdc_colour (store_int m (h + 12) v) h = hdc_colour m h"
    using assms o[of 0 4] o[of 0 8] o[of 0 12] o[of 4 0] o[of 4 8] o[of 4 12] o[of 8 0] o[of 8 4] o[of 8 12]
      o[of 12 0] o[of 12 4] o[of 12 8]
    by (simp_all add: hdc_x_def hdc_y_def hdc_colour_def hdc_pid_def)
qed

lemma put_pixel_frame: "on_screen x y \<Longrightarrow> same_outside (vb_region P) m (put_pixel P x y h m)"
  unfolding put_pixel_def by (intro same_outside_upd pixel_in_buffer)

lemma put_pixel_pix:
  assumes "on_screen x y" "on_screen x' y'"
  shows "pix P (put_pixel P x y h m) x' y' =
    (if x' = x \<and> y' = y then word_of_int (hdc_colour m h) else pix P m x' y')"
  using pixel_addr_inj[OF assms, of P] by (auto simp: put_pixel_def pix_def)

section \<open>Straight lines and rectangles\<close>

lemma counts_over_screen [simp]: "bound < 320 \<Longrightarrow> \<not> counts_over i bound" "bound < 320 \<Longrightarrow> drawn i bound m s = Ret () (s\<lparr>mem := m\<rparr>)"
  by (simp_all add: counts_over_def drawn_def)

definition in_box :: "int \<Rightarrow> int \<Rightarrow> int \<Rightarrow> int \<Rightarrow> int \<Rightarrow> int \<Rightarrow> bool" where
  "in_box x1 x2 y1 y2 x y \<longleftrightarrow> x1 \<le> x \<and> x \<le> x2 \<and> y1 \<le> y \<and> y \<le> y2"

text \<open>
  \<open>paints\<close>: the pixels of the box take the colour of the context, every other pixel stays, and no
  memory outside the buffer and the table of contexts changes.
\<close>

definition paints :: "platform \<Rightarrow> (int \<Rightarrow> int \<Rightarrow> bool) \<Rightarrow> u8 \<Rightarrow> memory \<Rightarrow> memory \<Rightarrow> bool" where
  "paints P D c m m' \<longleftrightarrow>
     (\<forall>x y. on_screen x y \<longrightarrow> pix P m' x y = (if D x y then c else pix P m x y))"

lemma paints_none: "(\<And>x y. \<not> D x y) \<Longrightarrow> paints P D c m m"
  by (simp add: paints_def)

lemma paints_seq:
  "paints P D c m m' \<Longrightarrow> paints P E c m' m'' \<Longrightarrow> paints P (\<lambda>x y. D x y \<or> E x y) c m m''"
  by (simp add: paints_def)

lemma paints_same:
  "paints P D c m m' \<Longrightarrow> same_outside A m' m'' \<Longrightarrow> vb_region P \<inter> A = {} \<Longrightarrow> paints P D c m m''"
  by (simp add: paints_def pix_same)

lemma paints_eq: "paints P D c m m' \<Longrightarrow> (\<And>x y. on_screen x y \<Longrightarrow> D x y = E x y) \<Longrightarrow> paints P E c m m'"
  by (auto simp: paints_def)

lemma put_pixel_paints:
  "on_screen x y \<Longrightarrow> paints P (\<lambda>x' y'. x' = x \<and> y' = y) (word_of_int (hdc_colour m h)) m (put_pixel P x y h m)"
  by (auto simp: paints_def put_pixel_pix)

lemma hline_loop_paints:
  assumes "gfx_layout P" "valid_hdc P h" "0 \<le> x" "x2 < 320" "0 \<le> y" "y < 200"
  shows "paints P (in_box x x2 y y) (word_of_int (hdc_colour m h)) m (hline_loop P h x x2 y m)
    \<and> same_outside (vb_region P) m (hline_loop P h x x2 y m)"
  using assms(3)
proof (induction "nat (x2 + 1 - x)" arbitrary: x m)
  case 0
  then have "\<not> x \<le> x2" by simp
  then show ?case by (subst (1 2) hline_loop.simps) (auto intro: paints_none simp: in_box_def)
next
  case (Suc n)
  then have le: "x \<le> x2" by simp
  then have os: "on_screen x y" using Suc.prems assms by (simp add: on_screen_def)
  let ?m = "put_pixel P x y h m"
  note fr = put_pixel_frame[OF os, of P m h]
  have col: "hdc_colour ?m h = hdc_colour m h"
    using hdc_same[OF fr _ assms(2)] layout_regions(1)[OF assms(1)] by (auto simp: same_hdc_def)
  have "n = nat (x2 + 1 - (x + 1))" using Suc.hyps(2) by simp
  with Suc.hyps(1)[of "x + 1" ?m] Suc.prems
  have ih: "paints P (in_box (x + 1) x2 y y) (word_of_int (hdc_colour m h)) ?m (hline_loop P h (x + 1) x2 y ?m)"
    "same_outside (vb_region P) ?m (hline_loop P h (x + 1) x2 y ?m)" unfolding col by auto
  have r: "hline_loop P h x x2 y m = hline_loop P h (x + 1) x2 y ?m" using le by (subst hline_loop.simps) simp
  have "paints P (in_box x x2 y y) (word_of_int (hdc_colour m h)) m (hline_loop P h (x + 1) x2 y ?m)"
    using paints_seq[OF put_pixel_paints[OF os] ih(1)] by (rule paints_eq) (use le in \<open>auto simp: in_box_def\<close>)
  then show ?case unfolding r using fr ih(2) by (blast intro: same_outside_trans)
qed

lemma vline_loop_paints:
  assumes "gfx_layout P" "valid_hdc P h" "0 \<le> y" "y2 < 200" "0 \<le> x" "x < 320"
  shows "paints P (in_box x x y y2) (word_of_int (hdc_colour m h)) m (vline_loop P h x y y2 m)
    \<and> same_outside (vb_region P) m (vline_loop P h x y y2 m)"
  using assms(3)
proof (induction "nat (y2 + 1 - y)" arbitrary: y m)
  case 0
  then have "\<not> y \<le> y2" by simp
  then show ?case by (subst (1 2) vline_loop.simps) (auto intro: paints_none simp: in_box_def)
next
  case (Suc n)
  then have le: "y \<le> y2" by simp
  then have os: "on_screen x y" using Suc.prems assms by (simp add: on_screen_def)
  let ?m = "put_pixel P x y h m"
  note fr = put_pixel_frame[OF os, of P m h]
  have col: "hdc_colour ?m h = hdc_colour m h"
    using hdc_same[OF fr _ assms(2)] layout_regions(1)[OF assms(1)] by (auto simp: same_hdc_def)
  have "n = nat (y2 + 1 - (y + 1))" using Suc.hyps(2) by simp
  with Suc.hyps(1)[of "y + 1" ?m] Suc.prems
  have ih: "paints P (in_box x x (y + 1) y2) (word_of_int (hdc_colour m h)) ?m (vline_loop P h x (y + 1) y2 ?m)"
    "same_outside (vb_region P) ?m (vline_loop P h x (y + 1) y2 ?m)" unfolding col by auto
  have r: "vline_loop P h x y y2 m = vline_loop P h x (y + 1) y2 ?m" using le by (subst vline_loop.simps) simp
  have "paints P (in_box x x y y2) (word_of_int (hdc_colour m h)) m (vline_loop P h x (y + 1) y2 ?m)"
    using paints_seq[OF put_pixel_paints[OF os] ih(1)] by (rule paints_eq) (use le in \<open>auto simp: in_box_def\<close>)
  then show ?case unfolding r using fr ih(2) by (blast intro: same_outside_trans)
qed

text \<open>
  The result of drawing with one context: its box is painted, its position is as given, its colour
  and owner stay, and nothing else changes.
\<close>

definition draws :: "platform \<Rightarrow> (int \<Rightarrow> int \<Rightarrow> bool) \<Rightarrow> u32 \<Rightarrow> int \<Rightarrow> int \<Rightarrow> memory \<Rightarrow> memory \<Rightarrow> bool" where
  "draws P D h px py m m' \<longleftrightarrow> paints P D (word_of_int (hdc_colour m h)) m m'
     \<and> hdc_x m' h = px \<and> hdc_y m' h = py \<and> hdc_colour m' h = hdc_colour m h \<and> hdc_pid m' h = hdc_pid m h
     \<and> same_outside (vb_region P \<union> region h 8) m m'"

lemma HorizontalLine_draws:
  assumes "gfx_layout P" "valid_hdc P h" "0 \<le> x1" "x2 < 320" "0 \<le> y" "y < 200" "in_i32 x1" "in_i32 x2"
  shows "draws P (in_box x1 x2 y y) h (if direction = 1 then x1 else x2) (hdc_y m h) m
    (HorizontalLine P h x1 x2 y direction m)"
proof -
  let ?m = "hline_loop P h x1 x2 y m" and ?px = "if direction = 1 then x1 else x2"
  from hline_loop_paints[OF assms(1-6), of m]
  have p: "paints P (in_box x1 x2 y y) (word_of_int (hdc_colour m h)) m ?m" "same_outside (vb_region P) m ?m" by auto
  have sh: "same_hdc h m ?m" using hdc_same[OF p(2) _ assms(2)] layout_regions(1)[OF assms(1)] by auto
  have r: "HorizontalLine P h x1 x2 y direction m = store_int ?m h ?px" by (simp add: HorizontalLine_def)
  have s: "same_outside (region h 4) ?m (store_int ?m h ?px)" by (rule same_outside_store_int) simp
  have "vb_region P \<inter> region h 4 = {}" using valid_hdc_field(1)[OF assms(2)] layout_regions(1)[OF assms(1)] by blast
  then have "paints P (in_box x1 x2 y y) (word_of_int (hdc_colour m h)) m (store_int ?m h ?px)"
    using paints_same[OF p(1) s] by blast
  moreover have "same_outside (vb_region P \<union> region h 8) m (store_int ?m h ?px)"
    using region_mono[of 4 8 h] by (intro same_outside_seq[OF p(2) s]) auto
  moreover have "in_i32 ?px" using assms(7,8) by simp
  ultimately show ?thesis unfolding r draws_def using sh hdc_store(1-4)[of ?px ?m h] by (simp add: same_hdc_def)
qed

lemma VerticalLine_draws:
  assumes "gfx_layout P" "valid_hdc P h" "0 \<le> y1" "y2 < 200" "0 \<le> x" "x < 320" "in_i32 y1" "in_i32 y2"
  shows "draws P (in_box x x y1 y2) h (hdc_x m h) (if direction = 1 then y1 else y2) m
    (VerticalLine P h x y1 y2 direction m)"
proof -
  let ?m = "vline_loop P h x y1 y2 m" and ?py = "if direction = 1 then y1 else y2"
  from vline_loop_paints[OF assms(1-6), of m]
  have p: "paints P (in_box x x y1 y2) (word_of_int (hdc_colour m h)) m ?m" "same_outside (vb_region P) m ?m" by auto
  have sh: "same_hdc h m ?m" using hdc_same[OF p(2) _ assms(2)] layout_regions(1)[OF assms(1)] by auto
  have r: "VerticalLine P h x y1 y2 direction m = store_int ?m (h + 4) ?py" by (simp add: VerticalLine_def)
  have s: "same_outside (region (h + 4) 4) ?m (store_int ?m (h + 4) ?py)" by (rule same_outside_store_int) simp
  have "vb_region P \<inter> region (h + 4) 4 = {}" using valid_hdc_field(2)[OF assms(2)] layout_regions(1)[OF assms(1)] by blast
  then have "paints P (in_box x x y1 y2) (word_of_int (hdc_colour m h)) m (store_int ?m (h + 4) ?py)"
    using paints_same[OF p(1) s] by blast
  moreover have "same_outside (vb_region P \<union> region h 8) m (store_int ?m (h + 4) ?py)"
    using region_sub[of 4 4 8 h] by (intro same_outside_seq[OF p(2) s]) auto
  moreover have "in_i32 ?py" using assms(7,8) by simp
  ultimately show ?thesis unfolding r draws_def using sh hdc_store(5-8)[of ?py ?m h] by (simp add: same_hdc_def)
qed

lemma con_region_disjoint:
  assumes "gfx_layout P"
  shows "vb_region P \<inter> con_region P s = {}" "ha_region P \<inter> con_region P s = {}" "iw_region P \<inter> con_region P s = {}"
    "ft_region P \<inter> con_region P s = {}" "user_space \<inter> con_region P s = {}"
  using layout_regions[OF assms] window_regions[OF assms] unfolding con_region_def by (auto split: if_splits)

lemma con_region_mem [simp]: "con_region P (s\<lparr>mem := m\<rparr>) = con_region P s"
  by (simp add: con_region_def)

lemma con_ok_mem:
  assumes "consbuffer_ok P" "con_ok P s" "same_outside A (mem s) m" "consbuffer_region P \<inter> A = {}"
  shows "con_ok P (s\<lparr>mem := m\<rparr>)"
proof -
  have "region (sym_consbuffer P + 4000) 4 \<subseteq> consbuffer_region P"
    unfolding consbuffer_region_def by (rule region_sub) simp_all
  then have "cursorposition P m = cursorposition P (mem s)"
    unfolding cursorposition_def using load_int_same[OF assms(3)] assms(4) by blast
  with assms(2) show ?thesis by (simp add: con_ok_def split: if_splits)
qed

section \<open>Slanted lines\<close>

text \<open>The row of the line \<open>k\<close> columns after its start.\<close>

definition bres_row :: "int \<Rightarrow> int \<Rightarrow> int \<times> int \<Rightarrow> nat \<Rightarrow> int" where
  "bres_row dx dy ye k = fst ((bres_next dx dy ^^ k) ye)"

lemma bres_row_0 [simp]: "bres_row dx dy ye 0 = fst ye"
  by (simp add: bres_row_def)

lemma bres_row_Suc: "bres_row dx dy ye (Suc k) = bres_row dx dy (bres_next dx dy ye) k"
  by (simp add: bres_row_def funpow_swap1)

lemma bres_next_i32: "in_i32 (fst ye) \<Longrightarrow> in_i32 (fst (bres_next dx dy ye))"
  by (auto simp: bres_next_def split_def Let_def)

definition bres_shape :: "int \<Rightarrow> int \<Rightarrow> int \<Rightarrow> int \<Rightarrow> int \<times> int \<Rightarrow> int \<Rightarrow> int \<Rightarrow> bool" where
  "bres_shape dx dy x x2 ye x' y' \<longleftrightarrow> x \<le> x' \<and> x' \<le> x2 \<and> y' = bres_row dx dy ye (nat (x' - x))"

lemma bres_shape_step:
  assumes "x \<le> x2"
  shows "bres_shape dx dy x x2 ye x' y' \<longleftrightarrow>
    (x' = x \<and> y' = fst ye) \<or> bres_shape dx dy (x + 1) x2 (bres_next dx dy ye) x' y'"
proof (cases "x' = x")
  case False
  then have "nat (x' - x) = Suc (nat (x' - (x + 1)))" if "x \<le> x'" using that by simp
  with False show ?thesis by (auto simp: bres_shape_def bres_row_Suc)
qed (use assms in \<open>auto simp: bres_shape_def\<close>)

definition bres_frame :: "platform \<Rightarrow> u32 \<Rightarrow> 's console_state_scheme \<Rightarrow> u32 set" where
  "bres_frame P h s = vb_region P \<union> region h 8 \<union> con_region P s"

lemma bres_loop_draws:
  assumes "gfx_layout P" "valid_hdc P h"
  shows "con_ok P s \<Longrightarrow> \<not> cons_held s \<Longrightarrow> in_i32 (fst ye) \<Longrightarrow> in_i32 x2 \<Longrightarrow>
    (\<And>k. x + int k \<le> x2 \<Longrightarrow> on_screen (x + int k) (bres_row dx dy ye k)) \<Longrightarrow>
    runs (bres_loop P h dx dy x x2 ye s) (\<lambda>_ t. con_ok P t \<and> \<not> cons_held t \<and> con_region P t = con_region P s
      \<and> paints P (bres_shape dx dy x x2 ye) (word_of_int (hdc_colour (mem s) h)) (mem s) (mem t)
      \<and> (hdc_x (mem t) h, hdc_y (mem t) h) =
          (if x \<le> x2 then (x2, bres_row dx dy ye (nat (x2 + 1 - x))) else (hdc_x (mem s) h, hdc_y (mem s) h))
      \<and> hdc_colour (mem t) h = hdc_colour (mem s) h \<and> hdc_pid (mem t) h = hdc_pid (mem s) h
      \<and> same_outside (bres_frame P h s) (mem s) (mem t))"
proof (induction "nat (x2 + 1 - x)" arbitrary: x ye s)
  case 0
  then have "\<not> x \<le> x2" by simp
  then show ?case using 0 by (subst bres_loop.simps) (auto intro: paints_none simp: bres_shape_def)
next
  case (Suc n)
  let ?c = "word_of_int (hdc_colour (mem s) h) :: u8" and ?ye = "bres_next dx dy ye"
  have le: "x \<le> x2" using Suc.hyps(2) by simp
  have os: "on_screen x (fst ye)" using Suc.prems(5)[of 0] le by simp
  have "x2 < 320" using Suc.prems(5)[of "nat (x2 - x)"] le by (simp add: on_screen_def)
  define s1 where "s1 = s\<lparr>mem := put_pixel P x (fst ye) h (mem s)\<rparr>"
  define args :: "u32 list" where "args = [word_of_int x, word_of_int (fst ?ye), scast (mem s1 (pixel_addr P x (fst ye)))]"
  have fr1: "same_outside (vb_region P) (mem s) (mem s1)" using put_pixel_frame[OF os] by (simp add: s1_def)
  have p1: "paints P (\<lambda>x' y'. x' = x \<and> y' = fst ye) ?c (mem s) (mem s1)"
    using put_pixel_paints[OF os, of P "mem s" h] by (simp add: s1_def)
  have h1: "same_hdc h (mem s) (mem s1)" using hdc_same[OF fr1 _ assms(2)] layout_regions(1)[OF assms(1)] by auto
  have ok1: "con_ok P s1" "\<not> cons_held s1" "con_region P s1 = con_region P s"
    using con_ok_mem[OF gfx_layout_consbuffer[OF assms(1)] Suc.prems(1) fr1[unfolded s1_def, simplified]]
      layout_regions(7)[OF assms(1)] Suc.prems(2) by (simp_all add: s1_def)
  have "fmt_ints ''%d x, %d y | %d\<newline>'' = Some 3" by simp
  from cprintf_ok[OF gfx_layout_consbuffer[OF assms(1)] ok1(1) this _ ok1(2), of args]
  have pr: "runs (cprintf P ''%d x, %d y | %d\<newline>'' args s1) (\<lambda>_ t. con_ok P t \<and> con_frame P s1 t)"
    by (simp add: args_def)
  have step: "bres_loop P h dx dy x x2 ye s = bindO (cprintf P ''%d x, %d y | %d\<newline>'' args s1) (\<lambda>_ s.
      bres_loop P h dx dy (x + 1) x2 ?ye (s\<lparr>mem := store_int (store_int (mem s) h x) (h + 4) (fst ?ye)\<rparr>))"
    using le \<open>x2 < 320\<close> by (subst bres_loop.simps) (simp add: Let_def s1_def args_def)
  have fin: "runs (bres_loop P h dx dy (x + 1) x2 ?ye (t\<lparr>mem := store_int (store_int (mem t) h x) (h + 4) (fst ?ye)\<rparr>))
      (\<lambda>_ u. con_ok P u \<and> \<not> cons_held u \<and> con_region P u = con_region P s
        \<and> paints P (bres_shape dx dy x x2 ye) ?c (mem s) (mem u)
        \<and> (hdc_x (mem u) h, hdc_y (mem u) h) = (x2, bres_row dx dy ye (nat (x2 + 1 - x)))
        \<and> hdc_colour (mem u) h = hdc_colour (mem s) h \<and> hdc_pid (mem u) h = hdc_pid (mem s) h
        \<and> same_outside (bres_frame P h s) (mem s) (mem u))"
    if t: "con_ok P t" "con_frame P s1 t" for t
  proof -
    define m3 where "m3 = store_int (store_int (mem t) h x) (h + 4) (fst ?ye)"
    let ?s3 = "t\<lparr>mem := m3\<rparr>"
    note ft = con_frame_fields[OF t(2)]
    have fr2: "same_outside (con_region P s) (mem s1) (mem t)" using ft ok1(3) by simp
    have h2: "same_hdc h (mem s1) (mem t)" using hdc_same[OF fr2 _ assms(2)] con_region_disjoint(2)[OF assms(1)] by blast
    have i: "in_i32 x" "in_i32 (fst ?ye)" using os Suc.prems(3) bres_next_i32 by (auto simp: on_screen_def in_i32_def)
    have h3: "hdc_x m3 h = x" "hdc_y m3 h = fst ?ye" "hdc_colour m3 h = hdc_colour (mem s) h" "hdc_pid m3 h = hdc_pid (mem s) h"
      using h1 h2 i by (simp_all add: m3_def hdc_store same_hdc_def)
    have r48: "region h 4 \<subseteq> region h 8" "region (h + 4) 4 \<subseteq> region h 8" "region h 8 \<subseteq> ha_region P"
      using region_mono[of 4 8 h] region_sub[of 4 4 8 h] valid_hdc_region[OF assms(2), of 0 8] by simp_all
    have fr3: "same_outside (region h 8) (mem t) m3" unfolding m3_def
      by (rule same_outside_trans; rule same_outside_store_int) (use r48 in blast)+
    have fr: "same_outside (bres_frame P h s) (mem s) m3"
      by (rule same_outside_seq[OF fr1 same_outside_seq[OF fr2 fr3, of "region h 8 \<union> con_region P s"]]) (auto simp: bres_frame_def)
    have d: "vb_region P \<inter> region h 8 = {}" using r48(3) layout_regions(1)[OF assms(1)] by blast
    have p3: "paints P (\<lambda>x' y'. x' = x \<and> y' = fst ye) ?c (mem s) m3"
      using paints_same[OF paints_same[OF p1 fr2 con_region_disjoint(1)[OF assms(1)]] fr3 d] .
    have ok3: "con_ok P ?s3"
      using con_ok_mem[OF gfx_layout_consbuffer[OF assms(1)] t(1) fr3] r48(3) layout_regions(8)[OF assms(1)] by blast
    have c3: "con_region P ?s3 = con_region P s" "\<not> cons_held ?s3" using ft ok1 by simp_all
    have n: "n = nat (x2 + 1 - (x + 1))" using Suc.hyps(2) by simp
    have pos: "on_screen (x + 1 + int k) (bres_row dx dy ?ye k)" if "x + 1 + int k \<le> x2" for k
      using Suc.prems(5)[of "Suc k"] that by (simp add: bres_row_Suc add.assoc)
    have row: "bres_row dx dy ye (nat (x2 + 1 - x)) = bres_row dx dy ?ye (nat (x2 + 1 - (x + 1)))"
      using Suc.hyps(2) n by (metis bres_row_Suc)
    have "runs (bres_loop P h dx dy (x + 1) x2 ?ye ?s3) (\<lambda>_ u. con_ok P u \<and> \<not> cons_held u \<and> con_region P u = con_region P ?s3
      \<and> paints P (bres_shape dx dy (x + 1) x2 ?ye) (word_of_int (hdc_colour (mem ?s3) h)) (mem ?s3) (mem u)
      \<and> (hdc_x (mem u) h, hdc_y (mem u) h) =
          (if x + 1 \<le> x2 then (x2, bres_row dx dy ?ye (nat (x2 + 1 - (x + 1)))) else (hdc_x (mem ?s3) h, hdc_y (mem ?s3) h))
      \<and> hdc_colour (mem u) h = hdc_colour (mem ?s3) h \<and> hdc_pid (mem u) h = hdc_pid (mem ?s3) h
      \<and> same_outside (bres_frame P h ?s3) (mem ?s3) (mem u))"
      using Suc.hyps(1)[OF n ok3 c3(2) i(2) Suc.prems(4) pos] .
    then show ?thesis unfolding m3_def[symmetric]
    proof (rule runs_mono, elim conjE, intro conjI)
      fix u
      assume u: "paints P (bres_shape dx dy (x + 1) x2 ?ye) (word_of_int (hdc_colour (mem ?s3) h)) (mem ?s3) (mem u)"
        "(hdc_x (mem u) h, hdc_y (mem u) h) =
          (if x + 1 \<le> x2 then (x2, bres_row dx dy ?ye (nat (x2 + 1 - (x + 1)))) else (hdc_x (mem ?s3) h, hdc_y (mem ?s3) h))"
        "same_outside (bres_frame P h ?s3) (mem ?s3) (mem u)"
      show "paints P (bres_shape dx dy x x2 ye) ?c (mem s) (mem u)"
        by (rule paints_eq[OF paints_seq[OF p3]]) (use u(1) h3(3) bres_shape_step[OF le, of dx dy ye] in auto)
      show "(hdc_x (mem u) h, hdc_y (mem u) h) = (x2, bres_row dx dy ye (nat (x2 + 1 - x)))"
        using u(2) h3(1,2) le unfolding row by auto
      show "same_outside (bres_frame P h s) (mem s) (mem u)"
        using u(3) fr c3(1) by (auto simp: bres_frame_def intro: same_outside_trans)
    qed (use c3 h3 in simp_all)
  qed
  show ?case unfolding step runs_bindO by (rule runs_mono[OF pr]) (use fin le in simp)
qed

text \<open>
  The row the code reaches on a gentle downward slope: the ideal height one column further on,
  rounded, and never more than one row per column.
\<close>

definition gentle :: "int \<Rightarrow> int \<Rightarrow> nat \<Rightarrow> int" where
  "gentle dx dy k = min (int k) ((2 * dy * (int k + 1) + dx) div (2 * dx))"

lemma int_div_bounds:
  fixes a q :: int
  assumes "0 < q"
  shows "a div q * q \<le> a" "a < a div q * q + q" "b \<le> a div q \<longleftrightarrow> b * q \<le> a"
proof -
  show l: "a div q * q \<le> a" and "a < a div q * q + q"
    using pos_mod_sign[OF assms, of a] pos_mod_bound[OF assms, of a] div_mult_mod_eq[of a q] by linarith+
  show "b \<le> a div q \<longleftrightarrow> b * q \<le> a"
  proof
    assume "b \<le> a div q"
    then have "b * q \<le> a div q * q" using assms by (intro mult_right_mono) auto
    with l show "b * q \<le> a" by simp
  next
    assume "b * q \<le> a"
    then have "b * q div q \<le> a div q" using assms by (intro zdiv_mono1)
    then show "b \<le> a div q" using assms by simp
  qed
qed

lemma gentle_step:
  assumes "0 < dy" "dy \<le> dx"
  defines "R \<equiv> \<lambda>k :: nat. (2 * dy * (int k + 1) + dx) div (2 * dx)"
  shows "gentle dx dy (Suc k) = (if gentle dx dy k + 1 \<le> R (Suc k) then gentle dx dy k + 1 else gentle dx dy k)"
proof -
  have e: "2 * dy * (int (Suc k) + 1) + dx = (2 * dy * (int k + 1) + dx) + 2 * dy" by (simp add: algebra_simps)
  have "R k \<le> R (Suc k)" unfolding R_def e using assms by (intro zdiv_mono1) auto
  moreover have "R (Suc k) \<le> R k + 1"
  proof -
    have "R (Suc k) \<le> (2 * dy * (int k + 1) + dx + 2 * dx) div (2 * dx)"
      unfolding R_def e using assms by (intro zdiv_mono1) auto
    also have "\<dots> = R k + 1" unfolding R_def using assms by (intro div_add_self2) simp
    finally show ?thesis .
  qed
  ultimately show ?thesis unfolding gentle_def R_def[symmetric]
    using assms by (auto simp: R_def)
qed

lemma gentle_bounds:
  assumes "0 < dy" "dy \<le> dx"
  shows "0 \<le> gentle dx dy k \<and> gentle dx dy k \<le> int k"
proof -
  have "0 \<le> (2 * dy * (int k + 1) + dx) div (2 * dx)" using assms by (intro div_int_pos_iff[THEN iffD2]) auto
  then show ?thesis by (simp add: gentle_def)
qed

lemma gentle_iter:
  assumes "0 < dy" "dy \<le> dx" "dx < 320" "0 \<le> y1" "y1 < 200"
  shows "k \<le> 321 \<Longrightarrow>
    (bres_next dx dy ^^ k) (y1, 2 * dy - dx) = (y1 + gentle dx dy k, 2 * dy * (int k + 1) - dx - 2 * dx * gentle dx dy k)"
proof (induction k)
  case 0
  then show ?case using gentle_bounds[OF assms(1,2), of 0] by simp
next
  case (Suc k)
  let ?g = "gentle dx dy k"
  have g: "0 \<le> ?g" "?g \<le> int k" using gentle_bounds[OF assms(1,2)] by auto
  have "dy * (int k + 2) \<le> 320 * 323" "0 \<le> dy * (int k + 2)" 
    using mult_mono[of dy 320 "int k + 2" 323] assms Suc.prems by simp_all
  moreover have "dx * ?g \<le> 320 * 321" "0 \<le> dx * ?g" 
    using mult_mono[of dx 320 ?g 321] assms g Suc.prems by simp_all
  moreover define e where "e = 2 * (dy * (int k + 2)) - dx - 2 * (dx * ?g)"
  ultimately have "- 1000000 < e" "e < 1000000" using assms unfolding e_def by linarith+
  then have e: "in_i32 e" "in_i32 (e - 2 * dx)" using assms by (auto simp: in_i32_def)
  have i: "in_i32 (2 * dy)" "in_i32 (y1 + ?g + 1)" using assms g Suc.prems by (auto simp: in_i32_def)
  have ee: "2 * dy * (int k + 1) - dx - 2 * dx * ?g + 2 * dy = e" by (simp add: e_def algebra_simps)
  have "0 \<le> e \<longleftrightarrow> ?g + 1 \<le> (2 * dy * (int (Suc k) + 1) + dx) div (2 * dx)"
  proof -
    have "?g + 1 \<le> (2 * dy * (int (Suc k) + 1) + dx) div (2 * dx) \<longleftrightarrow> (?g + 1) * (2 * dx) \<le> 2 * dy * (int (Suc k) + 1) + dx"
      using assms by (intro int_div_bounds(3)) simp
    then show ?thesis by (simp add: e_def algebra_simps)
  qed
  then have "gentle dx dy (Suc k) = (if 0 \<le> e then ?g + 1 else ?g)" using gentle_step[OF assms(1,2), of k] by simp
  moreover have "bres_next dx dy (y1 + ?g, 2 * dy * (int k + 1) - dx - 2 * dx * ?g) =
      (if 0 \<le> e then (y1 + ?g + 1, e - 2 * dx) else (y1 + ?g, e))"
    using assms(1) i e by (simp add: bres_next_def Let_def ee)
  ultimately show ?case using Suc by (auto simp: e_def algebra_simps)
qed

text \<open>Each row is at most one and a half rows from the ideal line.\<close>

lemma gentle_close:
  assumes "0 < dy" "dy \<le> dx"
  shows "\<bar>2 * dx * gentle dx dy k - 2 * dy * int k\<bar> \<le> 3 * dx"
proof -
  define r where "r = (2 * dy * (int k + 1) + dx) div (2 * dx)"
  have "r * (2 * dx) \<le> 2 * dy * (int k + 1) + dx" and "2 * dy * (int k + 1) + dx < r * (2 * dx) + 2 * dx"
    unfolding r_def using assms int_div_bounds[of "2 * dx" "2 * dy * (int k + 1) + dx"] by auto
  then have "2 * (dx * r) \<le> 2 * (dy * int k) + 2 * dy + dx" "2 * (dy * int k) + 2 * dy + dx < 2 * (dx * r) + 2 * dx"
    by (simp_all add: algebra_simps)
  moreover have "dy * int k \<le> dx * int k" using assms by (intro mult_right_mono) auto
  moreover have "dx * gentle dx dy k \<le> dx * r" using assms by (intro mult_left_mono) (auto simp: gentle_def r_def)
  moreover have "gentle dx dy k = int k \<or> gentle dx dy k = r" by (auto simp: gentle_def r_def)
  then have "dy * int k \<le> dx * gentle dx dy k \<or> dx * gentle dx dy k = dx * r" using calculation(3) by (elim disjE) simp_all
  ultimately have "\<bar>2 * (dx * gentle dx dy k) - 2 * (dy * int k)\<bar> \<le> 3 * dx" using assms by linarith
  then show ?thesis by (simp add: mult.assoc)
qed

text \<open>On an upward slope the test of the error always succeeds, so every column rises by one row.\<close>

lemma upward_iter:
  assumes "0 < dx" "dy < 0" "dx < 320" "-200 < dy" "0 \<le> y1" "y1 < 200"
  shows "k \<le> 321 \<Longrightarrow> \<exists>e. (bres_next dx dy ^^ k) (y1, 2 * dy - dx) = (y1 - int k, e) \<and> e \<le> 0 \<and> -1100 * (int k + 1) \<le> e"
proof (induction k)
  case 0
  then show ?case using assms by simp
next
  case (Suc k)
  then obtain e where e: "(bres_next dx dy ^^ k) (y1, 2 * dy - dx) = (y1 - int k, e)" "e \<le> 0" "-1100 * (int k + 1) \<le> e" by auto
  have "in_i32 (2 * dy)" "in_i32 (e + 2 * dy)" "in_i32 (e + 2 * dy - 2 * dx)" "in_i32 (y1 - int k - 1)"
    using assms e Suc.prems by (auto simp: in_i32_def)
  then have "bres_next dx dy (y1 - int k, e) = (y1 - int (Suc k), e + 2 * dy - 2 * dx)"
    using assms e by (simp add: bres_next_def Let_def)
  then show ?case using e assms by simp
qed

section \<open>System calls\<close>

text \<open>Everything drawn is on the screen: each pixel of the screen is that of the buffer.\<close>

definition shown :: "platform \<Rightarrow> (int \<Rightarrow> int \<Rightarrow> bool) \<Rightarrow> u8 \<Rightarrow> memory \<Rightarrow> memory \<Rightarrow> bool" where
  "shown P D c m m' \<longleftrightarrow> paints P D c m m' \<and> (\<forall>x y. on_screen x y \<longrightarrow> screen m' x y = pix P m' x y)"

lemma flush_shown:
  assumes "gfx_layout P" "paints P D c m (mem s)"
  shows "shown P D c m (mem (flush P s))"
proof -
  note f = flush_screen(1)[OF assms(1), of s] flush_screen(2)[OF assms(1), where s = s]
  have p: "pix P (mem (flush P s)) x y = pix P (mem s) x y" if "on_screen x y" for x y
    using pix_same[OF f(1) window_regions(1)[OF assms(1)] that] .
  then show ?thesis using assms(2) f(2) by (auto simp: shown_def paints_def)
qed

lemma flush_hdc:
  assumes "gfx_layout P" "valid_hdc P h"
  shows "same_hdc h (mem s) (mem (flush P s))"
  using hdc_same[OF flush_screen(1)[OF assms(1)] _ assms(2)] window_regions(2)[OF assms(1)] by blast

text \<open>
  C38. \<^verbatim>\<open>setpixel\<close> with a context of the table and a point of the screen returns 0, sets that pixel to
  the colour of the context, leaves every other pixel as it was, shows the buffer on the screen, and
  changes no memory besides the buffer and the video memory.
\<close>

theorem setpixel_sets_pixel:
  assumes "gfx_layout P" and "argint 0 s = Some h" and "argint 1 s = Some x" and "argint 2 s = Some y"
    and "valid_hdc P (word_of_int h)" and "on_screen x y"
  shows "runs (sys_setpixel P s) (\<lambda>r t. r = 0
    \<and> shown P (\<lambda>x' y'. x' = x \<and> y' = y) (word_of_int (hdc_colour (mem s) (word_of_int h))) (mem s) (mem t)
    \<and> same_outside (vb_region P \<union> video_window) (mem s) (mem t))"
proof -
  let ?s = "s\<lparr>mem := put_pixel P x y (word_of_int h) (mem s)\<rparr>"
  have "same_outside (vb_region P \<union> video_window) (mem s) (mem (flush P ?s))"
    using put_pixel_frame[OF assms(6), of P "mem s" "word_of_int h"]
    by (intro same_outside_seq[OF _ flush_screen(1)[OF assms(1), of ?s], of "vb_region P"]) auto
  moreover have "shown P (\<lambda>x' y'. x' = x \<and> y' = y) (word_of_int (hdc_colour (mem s) (word_of_int h))) (mem s) (mem (flush P ?s))"
    using put_pixel_paints[OF assms(6), of P "mem s" "word_of_int h"] by (intro flush_shown[OF assms(1)]) simp
  ultimately show ?thesis using assms(2-4) by (simp add: sys_setpixel_def)
qed

text \<open>A machine with the graphics variables apart, and a process that calls with three arguments.\<close>

definition gfx_platform :: platform where
  "gfx_platform = clock_platform\<lparr>sym_consbuffer := 0x80110000, sym_videobuffer := 0x80120000, sym_indexWritten := 0x80140000,
     sym_firstTime := 0x80141000, sym_hdcArray := 0x80142000\<rparr>"

lemma gfx_platform_layout: "gfx_layout gfx_platform"
  by (simp add: gfx_layout_def gfx_vars_def gfx_platform_def clock_platform_def KERNLINK_def KERNBASE_def EXTMEM_def)

definition call3 :: "int \<Rightarrow> int \<Rightarrow> int \<Rightarrow> memory \<Rightarrow> memory" where
  "call3 a b c m = store_int (store_int (store_int m 0x1004 a) 0x1008 b) 0x100c c"

definition gfx_state :: "memory \<Rightarrow> console_state" where
  "gfx_state m = console0\<lparr>mem := m, cur_sz := 0x2000, cur_esp := 0x1000\<rparr>"

lemma call3_args:
  assumes "in_i32 a" "in_i32 b" "in_i32 c"
  shows "argint 0 (gfx_state (call3 a b c m)) = Some a" "argint 1 (gfx_state (call3 a b c m)) = Some b"
    "argint 2 (gfx_state (call3 a b c m)) = Some c"
  using assms
  by (simp_all add: argint_def fetchint_def gfx_state_def console0_def call3_def store_int_def load_int_def load32_store32_other
      sint_sbintrunc' in_i32_def signed_take_bit_int_eq_self)

lemma hdc0_valid: "valid_hdc gfx_platform 0x80142000" "valid_hdc gfx_platform (word_of_int (-0x7FEBE000))"
  by (auto simp: valid_hdc_def hdcArray_def gfx_platform_def MAX_PROCESSES_def intro: exI[of _ 0])

theorem setpixel_sets_pixel_witness:
  "runs (sys_setpixel gfx_platform (gfx_state (call3 (-0x7FEBE000) 10 20 (\<lambda>_. 0)))) (\<lambda>r t. r = 0 \<and> screen (mem t) 11 20 = 0)"
proof -
  let ?m = "call3 (-0x7FEBE000) 10 20 (\<lambda>_. 0)"
  have "mem (gfx_state ?m) = ?m" by (simp add: gfx_state_def)
  moreover have "pix gfx_platform ?m 11 20 = 0"
    by (simp add: pix_def pixel_addr_def gfx_platform_def in_i32_def call3_def store_int_def store32_def)
  moreover have "in_i32 (-0x7FEBE000)" "in_i32 10" "in_i32 20" "on_screen 10 20" "on_screen 11 20"
    by (simp_all add: in_i32_def on_screen_def)
  ultimately show ?thesis
    using setpixel_sets_pixel[OF gfx_platform_layout call3_args hdc0_valid(2), of 10 20 "\<lambda>_. 0"]
    by (auto simp: shown_def paints_def elim!: runs_mono)
qed

definition line_frame :: "platform \<Rightarrow> u32 \<Rightarrow> u32 set" where
  "line_frame P h = vb_region P \<union> video_window \<union> region h 8"

lemma flush_frame:
  assumes "gfx_layout P" "same_outside A m (mem s)"
  shows "same_outside (A \<union> video_window) m (mem (flush P s))"
  by (rule same_outside_seq[OF assms(2) flush_screen(1)[OF assms(1)]]) auto

lemma lineto_straight_draws:
  assumes "gfx_layout P" and "argint 0 s = Some hh" and "argint 1 s = Some x" and "argint 2 s = Some y"
    and "h = word_of_int hh" and "valid_hdc P h"
    and "on_screen x y" and "on_screen (hdc_x (mem s) h) (hdc_y (mem s) h)"
    and "x = hdc_x (mem s) h \<or> y = hdc_y (mem s) h"
  shows "\<exists>m. sys_lineto P s = Ret 1 (flush P (s\<lparr>mem := m\<rparr>)) \<and> draws P
    (in_box (min x (hdc_x (mem s) h)) (max x (hdc_x (mem s) h)) (min y (hdc_y (mem s) h)) (max y (hdc_y (mem s) h))) h x y (mem s) m"
proof -
  let ?x = "hdc_x (mem s) h" and ?y = "hdc_y (mem s) h"
  let ?D = "in_box (min x ?x) (max x ?x) (min y ?y) (max y ?y)"
  have i: "in_i32 x" "in_i32 y" "in_i32 ?x" "in_i32 ?y" and b: "0 \<le> x" "x < 320" "0 \<le> y" "y < 200" "0 \<le> ?x" "?x < 320" "0 \<le> ?y" "?y < 200"
    using assms(7,8) by (auto simp: on_screen_def in_i32_def)
  show ?thesis
  proof (cases "x = ?x")
    case True
    have e: "?D = in_box ?x ?x (min y ?y) (max y ?y)" using True by simp
    show ?thesis
    proof (cases "y < ?y")
      case yl: True
      let ?m = "VerticalLine P h ?x y ?y 1 (mem s)"
      have "draws P (in_box ?x ?x y ?y) h ?x y (mem s) ?m"
        using VerticalLine_draws[OF assms(1,6), of y ?y ?x "mem s" 1] b i by simp
      then show ?thesis using assms(2-5) True yl e b(4,8) by (intro exI[of _ ?m]) (simp add: sys_lineto_def Let_def)
    next
      case yl: False
      let ?m = "VerticalLine P h ?x ?y y 0 (mem s)"
      have "draws P (in_box ?x ?x ?y y) h ?x y (mem s) ?m"
        using VerticalLine_draws[OF assms(1,6), of ?y y ?x "mem s" 0] b i by simp
      then show ?thesis using assms(2-5) True yl e b(4,8) by (intro exI[of _ ?m]) (simp add: sys_lineto_def Let_def)
    qed
  next
    case False
    then have y: "y = ?y" using assms(9) by simp
    have e: "?D = in_box (min x ?x) (max x ?x) ?y ?y" using y by simp
    show ?thesis
    proof (cases "x < ?x")
      case xl: True
      let ?m = "HorizontalLine P h x ?x ?y 1 (mem s)"
      have "draws P (in_box x ?x ?y ?y) h x ?y (mem s) ?m"
        using HorizontalLine_draws[OF assms(1,6), of x ?x ?y 1 "mem s"] b i by simp
      then show ?thesis using assms(2-5) False y xl e b(2,6) by (intro exI[of _ ?m]) (simp add: sys_lineto_def Let_def)
    next
      case xl: False
      let ?m = "HorizontalLine P h ?x x ?y 0 (mem s)"
      have "draws P (in_box ?x x ?y ?y) h x ?y (mem s) ?m"
        using HorizontalLine_draws[OF assms(1,6), of ?x x ?y 0 "mem s"] b i by simp
      then show ?thesis using assms(2-5) False y xl e b(2,6) by (intro exI[of _ ?m]) (simp add: sys_lineto_def Let_def)
    qed
  qed
qed

text \<open>
  C34. \<^verbatim>\<open>lineto\<close> along a row or a column of the screen, in either direction, returns 1, paints exactly the
  pixels from the pen to the target with the pen's colour, shows them, and leaves the pen at the
  target; nothing else changes.
\<close>

theorem lineto_straight:
  assumes "gfx_layout P" and "argint 0 s = Some hh" and "argint 1 s = Some x" and "argint 2 s = Some y"
    and "h = word_of_int hh" and "valid_hdc P h"
    and "on_screen x y" and "on_screen (hdc_x (mem s) h) (hdc_y (mem s) h)"
    and "x = hdc_x (mem s) h \<or> y = hdc_y (mem s) h"
  shows "runs (sys_lineto P s) (\<lambda>r t. r = 1
    \<and> shown P (in_box (min x (hdc_x (mem s) h)) (max x (hdc_x (mem s) h)) (min y (hdc_y (mem s) h)) (max y (hdc_y (mem s) h)))
        (word_of_int (hdc_colour (mem s) h)) (mem s) (mem t)
    \<and> hdc_x (mem t) h = x \<and> hdc_y (mem t) h = y \<and> hdc_colour (mem t) h = hdc_colour (mem s) h
    \<and> same_outside (line_frame P h) (mem s) (mem t))"
proof -
  let ?D = "in_box (min x (hdc_x (mem s) h)) (max x (hdc_x (mem s) h)) (min y (hdc_y (mem s) h)) (max y (hdc_y (mem s) h))"
  from lineto_straight_draws[OF assms] obtain m where r: "sys_lineto P s = Ret 1 (flush P (s\<lparr>mem := m\<rparr>))" and d: "draws P ?D h x y (mem s) m" by blast
  let ?t = "flush P (s\<lparr>mem := m\<rparr>)"
  have "shown P ?D (word_of_int (hdc_colour (mem s) h)) (mem s) (mem ?t)"
    using d by (intro flush_shown[OF assms(1)]) (simp add: draws_def)
  moreover have "same_hdc h m (mem ?t)" using flush_hdc[OF assms(1,6), of "s\<lparr>mem := m\<rparr>"] by simp
  moreover have "same_outside (vb_region P \<union> region h 8 \<union> video_window) (mem s) (mem ?t)"
    using d by (intro flush_frame[OF assms(1)]) (simp add: draws_def)
  ultimately show ?thesis using d r by (simp add: same_hdc_def draws_def line_frame_def Un_ac)
qed

lemma hdc_at_zero:
  assumes "h = 0x80142000"
  shows "hdc_x (call3 a b c (\<lambda>_. 0)) h = 0" "hdc_y (call3 a b c (\<lambda>_. 0)) h = 0" "hdc_colour (call3 a b c (\<lambda>_. 0)) h = 0"
  using assms by (simp_all add: hdc_x_def hdc_y_def hdc_colour_def call3_def store_int_def load_int_def load32_store32_other)
    (simp_all add: load32_def)

theorem lineto_straight_witness:
  "runs (sys_lineto gfx_platform (gfx_state (call3 (-0x7FEBE000) 0 150 (\<lambda>_. 0))))
     (\<lambda>r t. r = 1 \<and> hdc_x (mem t) 0x80142000 = 0 \<and> hdc_y (mem t) 0x80142000 = 150)"
proof -
  let ?m = "call3 (-0x7FEBE000) 0 150 (\<lambda>_. 0)"
  have m: "mem (gfx_state ?m) = ?m" by (simp add: gfx_state_def)
  have i: "in_i32 (-0x7FEBE000)" "in_i32 0" "in_i32 150" by (simp_all add: in_i32_def)
  have o: "on_screen 0 150" "on_screen (hdc_x (mem (gfx_state ?m)) 0x80142000) (hdc_y (mem (gfx_state ?m)) 0x80142000)"
    "0 = hdc_x (mem (gfx_state ?m)) 0x80142000 \<or> 150 = hdc_y (mem (gfx_state ?m)) 0x80142000"
    unfolding m by (simp_all add: on_screen_def hdc_at_zero)
  from lineto_straight[OF gfx_platform_layout call3_args[OF i] _ hdc0_valid(1) o] show ?thesis
    by (auto elim!: runs_mono)
qed

lemma lineto_slanted:
  assumes "gfx_layout P" "argint 0 s = Some hh" "argint 1 s = Some x2" "argint 2 s = Some y2"
    "h = word_of_int hh" "valid_hdc P h" "con_ok P s" "\<not> cons_held s"
    "x1 = hdc_x (mem s) h" "y1 = hdc_y (mem s) h" "x2 \<noteq> x1" "y2 \<noteq> y1" "dx = x2 - x1" "dy = y2 - y1"
    "in_i32 dx" "in_i32 dy" "in_i32 (2 * dy)" "in_i32 (2 * dy - dx)" "in_i32 x2"
    "\<And>k. x1 + int k \<le> x2 \<Longrightarrow> on_screen (x1 + int k) (bres_row dx dy (y1, 2 * dy - dx) k)"
  shows "runs (sys_lineto P s) (\<lambda>r t. r = 1
    \<and> shown P (bres_shape dx dy x1 x2 (y1, 2 * dy - dx)) (word_of_int (hdc_colour (mem s) h)) (mem s) (mem t)
    \<and> (hdc_x (mem t) h, hdc_y (mem t) h) =
        (if x1 \<le> x2 then (x2, bres_row dx dy (y1, 2 * dy - dx) (nat (dx + 1))) else (x1, y1))
    \<and> hdc_colour (mem t) h = hdc_colour (mem s) h
    \<and> same_outside (line_frame P h \<union> con_region P s) (mem s) (mem t))"
proof -
  let ?ye = "(y1, 2 * dy - dx)" and ?c = "word_of_int (hdc_colour (mem s) h) :: u8"
  have "in_i32 y1" by (simp add: assms(10) hdc_y_def)
  then have b: "runs (bres_loop P h dx dy x1 x2 ?ye s) (\<lambda>_ t. con_ok P t \<and> \<not> cons_held t \<and> con_region P t = con_region P s
      \<and> paints P (bres_shape dx dy x1 x2 ?ye) ?c (mem s) (mem t)
      \<and> (hdc_x (mem t) h, hdc_y (mem t) h) =
          (if x1 \<le> x2 then (x2, bres_row dx dy ?ye (nat (x2 + 1 - x1))) else (hdc_x (mem s) h, hdc_y (mem s) h))
      \<and> hdc_colour (mem t) h = hdc_colour (mem s) h \<and> hdc_pid (mem t) h = hdc_pid (mem s) h
      \<and> same_outside (bres_frame P h s) (mem s) (mem t))"
    using bres_loop_draws[OF assms(1,6,7,8), of ?ye x2 x1 dx dy] assms(19,20) by simp
  have e: "y2 - y1 = dy" "x2 - x1 = dx" "x2 + 1 - x1 = dx + 1" using assms(13,14) by simp_all
  have "sys_lineto P s = bindO (bres_loop P h dx dy x1 x2 ?ye s) (\<lambda>_ t. Ret 1 (flush P t))"
    using assms(2-4,9-12) e assms(15-18) unfolding assms(5)
    by (simp add: sys_lineto_def Let_def BressenhamLine_def)
  moreover have "runs (Ret 1 (flush P t)) (\<lambda>r t. r = 1
      \<and> shown P (bres_shape dx dy x1 x2 ?ye) ?c (mem s) (mem t)
      \<and> (hdc_x (mem t) h, hdc_y (mem t) h) = (if x1 \<le> x2 then (x2, bres_row dx dy ?ye (nat (dx + 1))) else (x1, y1))
      \<and> hdc_colour (mem t) h = hdc_colour (mem s) h
      \<and> same_outside (line_frame P h \<union> con_region P s) (mem s) (mem t))"
    if t: "paints P (bres_shape dx dy x1 x2 ?ye) ?c (mem s) (mem t)"
      "(hdc_x (mem t) h, hdc_y (mem t) h) = (if x1 \<le> x2 then (x2, bres_row dx dy ?ye (nat (x2 + 1 - x1))) else (hdc_x (mem s) h, hdc_y (mem s) h))"
      "hdc_colour (mem t) h = hdc_colour (mem s) h" "same_outside (bres_frame P h s) (mem s) (mem t)" for t :: "'a console_state_scheme"
  proof -
    have "same_outside (bres_frame P h s \<union> video_window) (mem s) (mem (flush P t))" by (rule flush_frame[OF assms(1) t(4)])
    then have "same_outside (line_frame P h \<union> con_region P s) (mem s) (mem (flush P t))"
      by (rule same_outside_mono) (auto simp: bres_frame_def line_frame_def)
    moreover have "(hdc_x (mem t) h, hdc_y (mem t) h) = (if x1 \<le> x2 then (x2, bres_row dx dy ?ye (nat (dx + 1))) else (x1, y1))"
      using t(2)[unfolded e(3)] by (simp only: assms(9,10))
    ultimately show ?thesis using flush_shown[OF assms(1) t(1)] flush_hdc[OF assms(1,6), of t] t(3)
      by (simp add: same_hdc_def)
  qed
  ultimately show ?thesis by (simp only: runs_bindO) (rule runs_mono[OF b], blast)
qed

lemma gentle_rows:
  assumes "0 < dy" "dy \<le> dx" "dx < 320" "0 \<le> y1" "y1 < 200" "k \<le> 321"
  shows "bres_row dx dy (y1, 2 * dy - dx) k = y1 + gentle dx dy k"
  using gentle_iter[OF assms] by (simp add: bres_row_def)

lemma gentle_last: "0 < dy \<Longrightarrow> dy \<le> dx \<Longrightarrow> int k \<le> dx \<Longrightarrow> gentle dx dy k \<le> dy + 1"
proof -
  assume a: "0 < dy" "dy \<le> dx" "int k \<le> dx"
  have "dy * int k \<le> dy * dx" using a by (intro mult_left_mono) auto
  moreover have "2 * dy * (int k + 1) + dx = 2 * (dy * int k) + 2 * dy + dx" by (simp add: algebra_simps)
  ultimately have "2 * dy * (int k + 1) + dx \<le> 2 * (dy * dx) + 3 * dx" using a by linarith
  also have "\<dots> < (dy + 2) * (2 * dx)" using a by (simp add: algebra_simps)
  finally have "\<not> dy + 2 \<le> (2 * dy * (int k + 1) + dx) div (2 * dx)" using int_div_bounds(3)[of "2 * dx"] a by simp
  then show ?thesis by (simp add: gentle_def)
qed

text \<open>
  C31. \<^verbatim>\<open>lineto\<close> on a gentle downward slope to the right (at most one row per column) draws exactly one
  pixel in every column from the pen to the target. The row is the ideal height one column further
  on, rounded, so it is within one and a half rows of the ideal line; the pen ends in the column of
  the target but up to two rows below it.
\<close>

theorem lineto_gentle_slope:
  assumes "gfx_layout P" and "argint 0 s = Some hh" and "argint 1 s = Some x2" and "argint 2 s = Some y2"
    and "h = word_of_int hh" and "valid_hdc P h" and "con_ok P s" and "\<not> cons_held s"
    and "x1 = hdc_x (mem s) h" and "y1 = hdc_y (mem s) h" and "0 \<le> x1" and "x2 < 320" and "0 \<le> y1" and "y2 < 199"
    and "dx = x2 - x1" and "dy = y2 - y1" and "0 < dy" and "dy \<le> dx"
  shows "runs (sys_lineto P s) (\<lambda>r t. r = 1
    \<and> shown P (\<lambda>x y. x1 \<le> x \<and> x \<le> x2 \<and> y = y1 + gentle dx dy (nat (x - x1)))
        (word_of_int (hdc_colour (mem s) h)) (mem s) (mem t)
    \<and> (\<forall>k. \<bar>2 * dx * gentle dx dy k - 2 * dy * int k\<bar> \<le> 3 * dx)
    \<and> hdc_x (mem t) h = x2 \<and> hdc_y (mem t) h = y1 + gentle dx dy (nat (dx + 1)))"
proof -
  have b: "dx < 320" "y1 < 200" "0 < dx" "x1 \<le> x2" using assms by auto
  note row = gentle_rows[OF assms(17,18) b(1) assms(13) b(2)]
  have os: "on_screen (x1 + int k) (bres_row dx dy (y1, 2 * dy - dx) k)" if "x1 + int k \<le> x2" for k
  proof -
    have "int k \<le> dx" "k \<le> 321" using that assms(15) b by auto
    moreover note gentle_last[OF assms(17,18) this(1)] gentle_bounds[OF assms(17,18), of k]
    ultimately show ?thesis using that assms row[of k] by (simp add: on_screen_def)
  qed
  have i: "in_i32 dx" "in_i32 dy" "in_i32 (2 * dy)" "in_i32 (2 * dy - dx)" "in_i32 x2"
    using assms b by (auto simp: in_i32_def)
  have ne: "x2 \<noteq> x1" "y2 \<noteq> y1" using assms by auto
  have shape: "bres_shape dx dy x1 x2 (y1, 2 * dy - dx) x y \<longleftrightarrow> x1 \<le> x \<and> x \<le> x2 \<and> y = y1 + gentle dx dy (nat (x - x1))" for x y
    using row[of "nat (x - x1)"] assms b by (auto simp: bres_shape_def)
  have s: "shown P (bres_shape dx dy x1 x2 (y1, 2 * dy - dx)) c m m' \<Longrightarrow>
      shown P (\<lambda>x y. x1 \<le> x \<and> x \<le> x2 \<and> y = y1 + gentle dx dy (nat (x - x1))) c m m'" for c m m'
    by (simp add: shown_def paints_def shape)
  show ?thesis
    using lineto_slanted[OF assms(1-10) ne assms(15,16) i os] s gentle_close[OF assms(17,18)] b(4) row[of "nat (dx + 1)"] b(1)
    by (auto elim!: runs_mono)
qed

lemma gfx_state_con_ok: "con_ok gfx_platform (gfx_state (call3 a b c (\<lambda>_. 0)))" "\<not> cons_held (gfx_state m)"
  by (simp_all add: con_ok_def gfx_state_def console0_def cursorposition_def gfx_platform_def call3_def store_int_def
      load_int_def load32_store32_other) (simp add: load32_def)

theorem lineto_gentle_slope_witness:
  "runs (sys_lineto gfx_platform (gfx_state (call3 (-0x7FEBE000) 2 1 (\<lambda>_. 0))))
     (\<lambda>r t. r = 1 \<and> hdc_x (mem t) 0x80142000 = 2 \<and> hdc_y (mem t) 0x80142000 = 2)"
proof -
  let ?m = "call3 (-0x7FEBE000) 2 1 (\<lambda>_. 0)"
  have m: "mem (gfx_state ?m) = ?m" by (simp add: gfx_state_def)
  have i: "in_i32 (-0x7FEBE000)" "in_i32 2" "in_i32 1" by (simp_all add: in_i32_def)
  have o: "0 = hdc_x (mem (gfx_state ?m)) 0x80142000" "0 = hdc_y (mem (gfx_state ?m)) 0x80142000"
    unfolding m by (simp_all add: hdc_at_zero)
  from lineto_gentle_slope[OF gfx_platform_layout call3_args[OF i] _ hdc0_valid(1) gfx_state_con_ok o, of 2 1]
  show ?thesis by (auto elim!: runs_mono simp: gentle_def)
qed

text \<open>
  C35. \<^verbatim>\<open>lineto\<close> up and to the right ignores the slope: it draws the diagonal that rises one row per column,
  whatever the target's row, and leaves the pen one row above the end of that diagonal.
\<close>

theorem lineto_upward_diagonal:
  assumes "gfx_layout P" and "argint 0 s = Some hh" and "argint 1 s = Some x2" and "argint 2 s = Some y2"
    and "h = word_of_int hh" and "valid_hdc P h" and "con_ok P s" and "\<not> cons_held s"
    and "x1 = hdc_x (mem s) h" and "y1 = hdc_y (mem s) h" and "0 \<le> x1" and "x1 < x2" and "x2 < 320"
    and "0 \<le> y2" and "y2 < y1" and "y1 < 200" and "x2 - x1 \<le> y1"
  shows "runs (sys_lineto P s) (\<lambda>r t. r = 1
    \<and> shown P (\<lambda>x y. x1 \<le> x \<and> x \<le> x2 \<and> y = y1 - (x - x1)) (word_of_int (hdc_colour (mem s) h)) (mem s) (mem t)
    \<and> hdc_x (mem t) h = x2 \<and> hdc_y (mem t) h = y1 - (x2 - x1) - 1)"
proof -
  let ?dx = "x2 - x1" and ?dy = "y2 - y1"
  have d: "0 < ?dx" "?dy < 0" "?dx < 320" "- 200 < ?dy" "0 \<le> y1" using assms by auto
  have row: "bres_row ?dx ?dy (y1, 2 * ?dy - ?dx) k = y1 - int k" if "k \<le> 321" for k
    using upward_iter[OF d assms(16) that] by (auto simp: bres_row_def)
  have os: "on_screen (x1 + int k) (bres_row ?dx ?dy (y1, 2 * ?dy - ?dx) k)" if "x1 + int k \<le> x2" for k
    using that row[of k] assms by (simp add: on_screen_def)
  have i: "in_i32 ?dx" "in_i32 ?dy" "in_i32 (2 * ?dy)" "in_i32 (2 * ?dy - ?dx)" "in_i32 x2"
    using assms by (auto simp: in_i32_def)
  have ne: "x2 \<noteq> x1" "y2 \<noteq> y1" "x1 \<le> x2" using assms by auto
  have "bres_shape ?dx ?dy x1 x2 (y1, 2 * ?dy - ?dx) x y \<longleftrightarrow> x1 \<le> x \<and> x \<le> x2 \<and> y = y1 - (x - x1)" for x y
    using row[of "nat (x - x1)"] assms by (auto simp: bres_shape_def)
  then have s: "shown P (bres_shape ?dx ?dy x1 x2 (y1, 2 * ?dy - ?dx)) c m m' \<Longrightarrow>
      shown P (\<lambda>x y. x1 \<le> x \<and> x \<le> x2 \<and> y = y1 - (x - x1)) c m m'" for c m m'
    by (simp add: shown_def paints_def)
  show ?thesis
    using lineto_slanted[OF assms(1-10) ne(1,2) refl refl i os] s ne(3) row[of "nat (?dx + 1)"] d(1,3)
    by (auto elim!: runs_mono)
qed

text \<open>A machine whose only context has the given position.\<close>

definition pen_at :: "int \<Rightarrow> int \<Rightarrow> memory" where
  "pen_at x y = store_int (store_int (\<lambda>_. 0) 0x80142000 x) 0x80142004 y"

lemma pen_at_ready:
  assumes "in_i32 x" "in_i32 y"
  shows "hdc_x (mem (gfx_state (call3 a b c (pen_at x y)))) 0x80142000 = x"
    "hdc_y (mem (gfx_state (call3 a b c (pen_at x y)))) 0x80142000 = y"
    "con_ok gfx_platform (gfx_state (call3 a b c (pen_at x y)))"
  using assms
  by (simp_all add: con_ok_def gfx_state_def console0_def cursorposition_def gfx_platform_def call3_def pen_at_def store_int_def
      load_int_def load32_store32_other hdc_x_def hdc_y_def sint_sbintrunc' in_i32_def signed_take_bit_int_eq_self)
    (simp add: load32_def)

theorem lineto_upward_diagonal_witness:
  "runs (sys_lineto gfx_platform (gfx_state (call3 (-0x7FEBE000) 200 10 (pen_at 100 101))))
     (\<lambda>r t. r = 1 \<and> hdc_x (mem t) 0x80142000 = 200 \<and> hdc_y (mem t) 0x80142000 = 0)"
proof -
  have i: "in_i32 (-0x7FEBE000)" "in_i32 200" "in_i32 10" and j: "in_i32 100" "in_i32 101" by (simp_all add: in_i32_def)
  from lineto_upward_diagonal[OF gfx_platform_layout call3_args[OF i] _ hdc0_valid(1) pen_at_ready(3)[OF j] gfx_state_con_ok(2)
      pen_at_ready(1)[OF j, symmetric] pen_at_ready(2)[OF j, symmetric]]
  show ?thesis by (auto elim!: runs_mono)
qed

text \<open>\<^verbatim>\<open>lineto\<close> to the left of the pen, other than along its row, draws nothing and does not move the pen.\<close>

lemma lineto_left_draws_nothing:
  assumes "gfx_layout P" "argint 0 s = Some hh" "argint 1 s = Some x2" "argint 2 s = Some y2"
    "h = word_of_int hh" "valid_hdc P h" "con_ok P s" "\<not> cons_held s"
    "on_screen (hdc_x (mem s) h) (hdc_y (mem s) h)" "on_screen x2 y2" "x2 < hdc_x (mem s) h" "y2 \<noteq> hdc_y (mem s) h"
  shows "runs (sys_lineto P s) (\<lambda>r t. r = 1 \<and> shown P (\<lambda>x y. False) (word_of_int (hdc_colour (mem s) h)) (mem s) (mem t)
    \<and> hdc_x (mem t) h = hdc_x (mem s) h \<and> hdc_y (mem t) h = hdc_y (mem s) h)"
proof -
  let ?x1 = "hdc_x (mem s) h" and ?y1 = "hdc_y (mem s) h"
  let ?dx = "x2 - ?x1" and ?dy = "y2 - ?y1"
  have i: "in_i32 ?dx" "in_i32 ?dy" "in_i32 (2 * ?dy)" "in_i32 (2 * ?dy - ?dx)" "in_i32 x2"
    using assms(9,10) by (auto simp: in_i32_def on_screen_def)
  have ne: "x2 \<noteq> ?x1" "\<not> ?x1 \<le> x2" using assms by auto
  have os: "on_screen (?x1 + int k) (bres_row ?dx ?dy (?y1, 2 * ?dy - ?dx) k)" if "?x1 + int k \<le> x2" for k
    using that ne(2) by simp
  have "\<not> bres_shape ?dx ?dy ?x1 x2 (?y1, 2 * ?dy - ?dx) x y" for x y using ne by (auto simp: bres_shape_def)
  then have "shown P (bres_shape ?dx ?dy ?x1 x2 (?y1, 2 * ?dy - ?dx)) c m m' \<Longrightarrow> shown P (\<lambda>x y. False) c m m'" for c m m'
    by (simp add: shown_def paints_def)
  then show ?thesis
    using lineto_slanted[OF assms(1-8) refl refl ne(1) assms(12) refl refl i os] ne(2) by (auto elim!: runs_mono)
qed

section \<open>Rectangles\<close>

text \<open>The context after drawing rows: only its column has moved.\<close>

definition pen_after :: "u32 \<Rightarrow> int \<Rightarrow> memory \<Rightarrow> memory \<Rightarrow> bool" where
  "pen_after h x m m' \<longleftrightarrow> hdc_x m' h = x \<and> hdc_y m' h = hdc_y m h \<and> hdc_colour m' h = hdc_colour m h \<and> hdc_pid m' h = hdc_pid m h"

lemma rect_loop_draws:
  assumes "gfx_layout P" "valid_hdc P h" "0 \<le> x1" "x2 < 320" "in_i32 x1" "in_i32 x2" "y2 < 200"
  shows "con_ok P s \<Longrightarrow> \<not> cons_held s \<Longrightarrow> 0 \<le> y \<Longrightarrow>
    runs (rect_loop P noisy h x1 x2 y y2 s) (\<lambda>_ t. con_ok P t \<and> \<not> cons_held t \<and> con_region P t = con_region P s
      \<and> paints P (in_box x1 x2 y y2) (word_of_int (hdc_colour (mem s) h)) (mem s) (mem t)
      \<and> pen_after h (if y \<le> y2 then x2 else hdc_x (mem s) h) (mem s) (mem t)
      \<and> same_outside (bres_frame P h s) (mem s) (mem t))"
proof (induction "nat (y2 + 1 - y)" arbitrary: y s)
  case 0
  then have "\<not> y \<le> y2" by simp
  then show ?case using 0 by (subst rect_loop.simps) (auto intro: paints_none simp: in_box_def pen_after_def)
next
  case (Suc n)
  let ?c = "word_of_int (hdc_colour (mem s) h) :: u8"
  have le: "y \<le> y2" using Suc.hyps(2) by simp
  have "fmt_ints ''using hdc %d\<newline>'' = Some 1" by simp
  from cprintf_ok[OF gfx_layout_consbuffer[OF assms(1)] Suc.prems(1) this _ Suc.prems(2), of "[h]"] Suc.prems(1)
  have pr: "runs (if noisy then cprintf P ''using hdc %d\<newline>'' [h] s else Ret () s) (\<lambda>_ t. con_ok P t \<and> con_frame P s t)"
    by simp
  have fin: "runs (rect_loop P noisy h x1 x2 (y + 1) y2 (t\<lparr>mem := HorizontalLine P h x1 x2 y 0 (mem t)\<rparr>))
      (\<lambda>_ u. con_ok P u \<and> \<not> cons_held u \<and> con_region P u = con_region P s
        \<and> paints P (in_box x1 x2 y y2) ?c (mem s) (mem u)
        \<and> pen_after h x2 (mem s) (mem u) \<and> same_outside (bres_frame P h s) (mem s) (mem u))"
    if t: "con_ok P t" "con_frame P s t" for t
  proof -
    define m where "m = HorizontalLine P h x1 x2 y 0 (mem t)"
    let ?u = "t\<lparr>mem := m\<rparr>"
    note ft = con_frame_fields[OF t(2)]
    have h2: "same_hdc h (mem s) (mem t)" by (rule hdc_same[OF ft(14) con_region_disjoint(2)[OF assms(1)] assms(2)])
    have "draws P (in_box x1 x2 y y) h x2 (hdc_y (mem t) h) (mem t) m"
      using HorizontalLine_draws[OF assms(1,2,3,4), of y 0 "mem t"] assms(5-7) le Suc.prems(3) by (simp add: m_def)
    then have d: "paints P (in_box x1 x2 y y) ?c (mem t) m" "pen_after h x2 (mem s) m"
        "same_outside (vb_region P \<union> region h 8) (mem t) m"
      using h2 by (auto simp: draws_def same_hdc_def pen_after_def)
    then have col: "hdc_colour m h = hdc_colour (mem s) h" by (simp add: pen_after_def)
    have r8: "region h 8 \<subseteq> ha_region P" using valid_hdc_region[OF assms(2), of 0 8] by simp
    have pt: "paints P (\<lambda>x y. False) ?c (mem s) (mem t)"
      by (rule paints_same[OF paints_none ft(14) con_region_disjoint(1)[OF assms(1)]]) simp
    have ok: "con_ok P ?u" "\<not> cons_held ?u" "con_region P ?u = con_region P s"
      using con_ok_mem[OF gfx_layout_consbuffer[OF assms(1)] t(1) d(3)] r8 layout_regions(7,8)[OF assms(1)] ft Suc.prems(2)
      by auto
    have fr: "same_outside (bres_frame P h s) (mem s) m"
      by (rule same_outside_seq[OF ft(14) d(3)]) (auto simp: bres_frame_def)
    have n: "n = nat (y2 + 1 - (y + 1))" "0 \<le> y + 1" using Suc.hyps(2) Suc.prems(3) by auto
    have box: "in_box x1 x2 y y2 x' y' \<longleftrightarrow> in_box x1 x2 y y x' y' \<or> in_box x1 x2 (y + 1) y2 x' y'" for x' y'
      using le by (auto simp: in_box_def)
    show ?thesis unfolding m_def[symmetric]
    proof (rule runs_mono[OF Suc.hyps(1)[OF n(1) ok(1,2) n(2)]], elim conjE, intro conjI)
      fix v assume v: "paints P (in_box x1 x2 (y + 1) y2) (word_of_int (hdc_colour (mem ?u) h)) (mem ?u) (mem v)"
        "same_outside (bres_frame P h ?u) (mem ?u) (mem v)" "pen_after h (if y + 1 \<le> y2 then x2 else hdc_x (mem ?u) h) (mem ?u) (mem v)"
      show "paints P (in_box x1 x2 y y2) ?c (mem s) (mem v)"
        by (rule paints_eq[OF paints_seq[OF paints_seq[OF pt d(1)]]]) (use v(1) col box in auto)
      show "pen_after h x2 (mem s) (mem v)" using v(3) d(2) by (auto simp: pen_after_def split: if_splits)
      show "same_outside (bres_frame P h s) (mem s) (mem v)"
        using v(2) fr ok(3) by (auto simp: bres_frame_def intro: same_outside_trans)
    qed (use ok d in simp_all)
  qed
  have "rect_loop P noisy h x1 x2 y y2 s = bindO (if noisy then cprintf P ''using hdc %d\<newline>'' [h] s else Ret () s) (\<lambda>_ t.
      rect_loop P noisy h x1 x2 (y + 1) y2 (t\<lparr>mem := HorizontalLine P h x1 x2 y 0 (mem t)\<rparr>))"
    using le assms(4,7) by (subst rect_loop.simps) simp
  then show ?case using le by (simp only: runs_bindO if_True) (rule runs_mono[OF pr], use fin in blast)
qed

text \<open>
  C32. \<^verbatim>\<open>fillrect\<close> of a rectangle within the screen, given by two corners in either vertical order, returns 1 and
  shows exactly the pixels of the rectangle in the colour of the context. It moves the pen to the right edge of the rectangle
  and leaves the rest of the context, the pen's row, its colour and its owner, as it was. Outside of the pixel buffer, its image in the
  video memory, the pen's position and the text cells that the messages go to, no memory changes.
\<close>

theorem fillrect_fills:
  assumes "gfx_layout P" and "argint 0 s = Some hh" and "argptr 1 16 s = Some r" and "cur_sz s \<le> KERNBASE"
    and "h = word_of_int hh" and "valid_hdc P h" and "con_ok P s" and "\<not> cons_held s"
    and "x1 = load_int (mem s) r" and "y1 = load_int (mem s) (r + 4)"
    and "x2 = load_int (mem s) (r + 8)" and "y2 = load_int (mem s) (r + 12)"
    and "0 \<le> x1" and "x2 < 320" and "0 \<le> min y1 y2" and "max y1 y2 < 200"
  shows "runs (sys_fillrect P s) (\<lambda>v t. v = 1
    \<and> shown P (in_box x1 x2 (min y1 y2) (max y1 y2)) (word_of_int (hdc_colour (mem s) h)) (mem s) (mem t)
    \<and> hdc_x (mem t) h = x2 \<and> hdc_y (mem t) h = hdc_y (mem s) h
    \<and> hdc_colour (mem t) h = hdc_colour (mem s) h \<and> hdc_pid (mem t) h = hdc_pid (mem s) h
    \<and> same_outside (line_frame P h \<union> con_region P s) (mem s) (mem t))"
proof -
  let ?c = "word_of_int (hdc_colour (mem s) h) :: u8" and ?D = "in_box x1 x2 (min y1 y2) (max y1 y2)"
  let ?b = "\<lambda>t. if y1 < y2 then rect_loop P True h x1 x2 y1 y2 t else rect_loop P False h x1 x2 y2 y1 t"
  have "unat r + 16 \<le> unat (cur_sz s)" using argptr_bounds[OF assms(3,4)] by (simp add: in_i32_def)
  moreover have "unat (cur_sz s) \<le> 0x80000000" using assms(4) by (simp add: word_le_nat_alt KERNBASE_def)
  ultimately have us: "region (r + d) 4 \<subseteq> user_space" if "unat d + 4 \<le> 16" for d
    using that region_sub[of d 4 16 r] region_sub[of r 16 "0x80000000" 0] by auto
  have i: "in_i32 x1" "in_i32 x2" by (simp_all add: assms)
  have "fmt_ints ''rect print %d, %d, %d, %d\<newline>'' = Some 4" by simp
  from cprintf_ok[OF gfx_layout_consbuffer[OF assms(1)] assms(7) this _ assms(8),
      of "[load32 (mem s) r, load32 (mem s) (r + 4), load32 (mem s) (r + 8), load32 (mem s) (r + 12)]"]
  have pr: "runs (cprintf P ''rect print %d, %d, %d, %d\<newline>'' [load32 (mem s) r, load32 (mem s) (r + 4), load32 (mem s) (r + 8), load32 (mem s) (r + 12)] s)
     (\<lambda>_ t. con_ok P t \<and> con_frame P s t)" by simp
  have post: "runs (bindO (?b t) (\<lambda>_ u. Ret 1 (flush P u))) (\<lambda>v t. v = (1 :: int) \<and> shown P ?D ?c (mem s) (mem t) \<and> pen_after h x2 (mem s) (mem t)
      \<and> same_outside (line_frame P h \<union> con_region P s) (mem s) (mem t))
     \<and> load_int (mem t) r = x1 \<and> load_int (mem t) (r + 4) = y1 \<and> load_int (mem t) (r + 8) = x2 \<and> load_int (mem t) (r + 12) = y2"
    if t: "con_ok P t" "con_frame P s t" for t
  proof -
    note ft = con_frame_fields[OF t(2)]
    have l: "load_int (mem t) (r + d) = load_int (mem s) (r + d)" if "unat d + 4 \<le> 16" for d
      using load_int_same[OF ft(14)] us[OF that] con_region_disjoint(5)[OF assms(1), of s] by blast
    have c: "same_hdc h (mem s) (mem t)" by (rule hdc_same[OF ft(14) con_region_disjoint(2)[OF assms(1)] assms(6)])
    have pt: "paints P (\<lambda>x y. False) ?c (mem s) (mem t)"
      by (rule paints_same[OF paints_none ft(14) con_region_disjoint(1)[OF assms(1)]]) simp
    have fr: "same_outside (bres_frame P h s) (mem s) (mem t)"
      by (rule same_outside_mono[OF ft(14)]) (auto simp: bres_frame_def)
    have bf: "bres_frame P h t = bres_frame P h s" using ft(15) by (simp add: bres_frame_def)
    have "runs (?b t) (\<lambda>_ u. paints P ?D ?c (mem t) (mem u) \<and> pen_after h x2 (mem s) (mem u) \<and> same_outside (bres_frame P h s) (mem t) (mem u))"
      using rect_loop_draws[OF assms(1,6,13,14) i _ t(1), of y2 y1 True] rect_loop_draws[OF assms(1,6,13,14) i _ t(1), of y1 y2 False]
        assms(8,15,16) ft(3) c bf by (auto simp: min_def max_def same_hdc_def pen_after_def elim!: runs_mono split: if_splits)
    moreover have "shown P ?D ?c (mem s) (mem (flush P u)) \<and> pen_after h x2 (mem s) (mem (flush P u)) \<and> same_outside (line_frame P h \<union> con_region P s) (mem s) (mem (flush P u))"
      if u: "paints P ?D ?c (mem t) (mem u)" "same_outside (bres_frame P h s) (mem t) (mem u)" "pen_after h x2 (mem s) (mem u)"
      for u :: "'a console_state_scheme"
      using flush_shown[OF assms(1) paints_eq[OF paints_seq[OF pt u(1)], of ?D]]
        same_outside_mono[OF flush_frame[OF assms(1) same_outside_trans[OF fr u(2)]], of "line_frame P h \<union> con_region P s"]
        flush_hdc[OF assms(1,6), of u] u(3)
      by (auto simp: bres_frame_def line_frame_def pen_after_def same_hdc_def)
    ultimately show ?thesis using l[of 0] l[of 4] l[of 8] l[of 12] assms(9-12) by (auto elim!: runs_mono)
  qed
  have "sys_fillrect P s = bindO (cprintf P ''rect print %d, %d, %d, %d\<newline>''
     [load32 (mem s) r, load32 (mem s) (r + 4), load32 (mem s) (r + 8), load32 (mem s) (r + 12)] s) (\<lambda>_ t.
       bindO (if load_int (mem t) (r + 4) < load_int (mem t) (r + 12)
          then rect_loop P True h (load_int (mem t) r) (load_int (mem t) (r + 8)) (load_int (mem t) (r + 4)) (load_int (mem t) (r + 12)) t
          else rect_loop P False h (load_int (mem t) r) (load_int (mem t) (r + 8)) (load_int (mem t) (r + 12)) (load_int (mem t) (r + 4)) t)
         (\<lambda>_ u. Ret 1 (flush P u)))"
    using assms(2,3) unfolding assms(5) by (simp add: sys_fillrect_def Let_def)
  then show ?thesis by (simp only: runs_bindO) (rule runs_mono[OF pr], use post in \<open>auto simp: pen_after_def elim!: runs_mono\<close>)
qed

section \<open>The table of contexts\<close>

text \<open>The owners of the contexts, -1 where a context is free; before the first call none is taken.\<close>

definition owners :: "platform \<Rightarrow> memory \<Rightarrow> int list" where
  "owners P m = (if load_int m (sym_firstTime P) = 1 then map (\<lambda>i. hdc_pid m (hdcArray P i)) [0..<MAX_PROCESSES]
     else replicate MAX_PROCESSES (-1))"

lemma length_owners [simp]: "length (owners P m) = MAX_PROCESSES"
  by (simp add: owners_def)

text \<open>A store to a context changes no other one.\<close>

lemma hdcArray_diff:
  assumes "i < MAX_PROCESSES" "j < MAX_PROCESSES" "i \<noteq> j" "unat d + k \<le> 16" "unat e + n \<le> 16"
  shows "region (hdcArray P i + d) k \<inter> region (hdcArray P j + e) n = {}"
proof -
  have off: "unat (16 * of_nat a + c :: u32) = 16 * a + unat c" if "a < MAX_PROCESSES" "unat c \<le> 16" for a c
  proof -
    have "unat (16 * of_nat a :: u32) = 16 * a" using that(1)
      by (subst unat_word_ariths) (simp add: MAX_PROCESSES_def unat_of_nat)
    then show ?thesis using that by (subst unat_word_ariths) (simp add: MAX_PROCESSES_def)
  qed
  have rel: "x \<in> region (hdcArray P a + c) l \<Longrightarrow> 16 * a \<le> unat (x - sym_hdcArray P) \<and> unat (x - sym_hdcArray P) < 16 * a + 16"
    if "a < MAX_PROCESSES" "unat c + l \<le> 16" for x a c l
  proof -
    assume x: "x \<in> region (hdcArray P a + c) l"
    let ?y = "x - (hdcArray P a + c)"
    have y: "unat ?y < l" using x by (simp add: in_region)
    have "x - sym_hdcArray P = (16 * of_nat a + c) + ?y" by (simp add: hdcArray_def)
    then have "unat (x - sym_hdcArray P) = (unat (16 * of_nat a + c :: u32) + unat ?y) mod 2 ^ 32"
      by (simp only:) (subst unat_word_ariths, simp)
    then show ?thesis using off[of a c] that y by (simp add: MAX_PROCESSES_def)
  qed
  show ?thesis
  proof (rule ccontr)
    assume "region (hdcArray P i + d) k \<inter> region (hdcArray P j + e) n \<noteq> {}"
    then obtain x where "x \<in> region (hdcArray P i + d) k" "x \<in> region (hdcArray P j + e) n" by blast
    from rel[OF assms(1,4) this(1)] rel[OF assms(2,5) this(2)] assms(3) show False by linarith
  qed
qed

definition rect_mem :: memory where
  "rect_mem = store_int (store_int (store_int (store_int (\<lambda>_. 0) 0x1800 10) 0x1804 40) 0x1808 30) 0x180c 20"

theorem fillrect_fills_witness:
  "runs (sys_fillrect gfx_platform (gfx_state (call3 (-0x7FEBE000) 0x1800 0 rect_mem)))
     (\<lambda>v t. v = 1 \<and> screen (mem t) 31 25 = 0 \<and> hdc_x (mem t) 0x80142000 = 30)"
proof -
  let ?m = "call3 (-0x7FEBE000) 0x1800 0 rect_mem" and ?s = "gfx_state (call3 (-0x7FEBE000) 0x1800 0 rect_mem)"
  have m: "mem ?s = ?m" by (simp add: gfx_state_def)
  have a: "argint 0 ?s = Some (-0x7FEBE000)" "argptr 1 16 ?s = Some 0x1800"
    using call3_args[of "-0x7FEBE000" "0x1800" 0 rect_mem]
    by (simp_all add: argptr_def in_i32_def) (simp add: gfx_state_def)
  have l: "load_int ?m 0x1800 = 10" "load_int ?m 0x1804 = 40" "load_int ?m 0x1808 = 30" "load_int ?m 0x180c = 20"
    by (simp_all add: call3_def rect_mem_def store_int_def load_int_def load32_store32_other)
  have ok: "con_ok gfx_platform ?s" "cur_sz ?s \<le> KERNBASE"
    by (simp_all add: con_ok_def gfx_state_def console0_def cursorposition_def gfx_platform_def call3_def rect_mem_def store_int_def
      load_int_def load32_store32_other KERNBASE_def) (simp add: load32_def)
  have p: "pix gfx_platform ?m 31 25 = 0"
    by (simp add: pix_def pixel_addr_def gfx_platform_def in_i32_def call3_def rect_mem_def store_int_def store32_def)
  have "on_screen 31 25" "\<not> in_box 10 30 20 40 31 25" by (simp_all add: on_screen_def in_box_def)
  with fillrect_fills[OF gfx_platform_layout a ok(2) _ hdc0_valid(1) ok(1) gfx_state_con_ok(2) refl refl refl refl] p
  show ?thesis by (auto simp: m l shown_def paints_def elim!: runs_mono)
qed

lemma reset_hdc_frame:
  assumes "valid_hdc P h"
  shows "same_outside (region h 16) m (reset_hdc h m)"
proof -
  have r: "region (h + d) 4 \<subseteq> region h 16" if "unat d + 4 \<le> 16" for d using region_sub[of d 4 16 h] that by simp
  have st: "same_outside (region h 16) m' (store_int m' (h + d) v)" if "unat d + 4 \<le> 16" for m' d v
    by (rule same_outside_store_int[OF r[OF that]])
  show ?thesis unfolding reset_hdc_def
    using st[of 12 m "-1"] st[of 8 "store_int m (h + 12) (-1)" 15] st[of 0 "store_int (store_int m (h + 12) (-1)) (h + 8) 15" 0]
      st[of 4 "store_int (store_int (store_int m (h + 12) (-1)) (h + 8) 15) h 0" 0]
    by (auto intro: same_outside_trans)
qed

lemma reset_hdc_fields: "hdc_pid (reset_hdc h m) h = -1" "hdc_colour (reset_hdc h m) h = 15" "hdc_x (reset_hdc h m) h = 0" "hdc_y (reset_hdc h m) h = 0"
  by (simp_all add: reset_hdc_def hdc_store in_i32_def)

lemma hdc_pid_other:
  assumes "same_outside (region (hdcArray P i) 16) m m'" "i < MAX_PROCESSES" "j < MAX_PROCESSES" "i \<noteq> j"
  shows "hdc_pid m' (hdcArray P j) = hdc_pid m (hdcArray P j)"
  unfolding hdc_pid_def
  using load_int_same[OF assms(1)] hdcArray_diff[OF assms(3,2), of 12 4 0 16] assms(4) by simp

lemma init_loop_resets:
  "i + n \<le> MAX_PROCESSES \<Longrightarrow> same_outside (ha_region P) m (init_loop P i n m) \<and>
    (\<forall>j < MAX_PROCESSES. hdc_pid (init_loop P i n m) (hdcArray P j) =
      (if i \<le> j \<and> j < i + n then -1 else hdc_pid m (hdcArray P j)))"
proof (induction n arbitrary: i m)
  case (Suc n)
  let ?m = "reset_hdc (hdcArray P i) m"
  have v: "valid_hdc P (hdcArray P i)" using Suc.prems by (auto simp: valid_hdc_def intro!: exI[of _ i])
  have f: "same_outside (ha_region P) m ?m"
    using same_outside_mono[OF reset_hdc_frame[OF v] ] valid_hdc_region[OF v, of 0 16] by simp
  have "hdc_pid ?m (hdcArray P j) = (if j = i then -1 else hdc_pid m (hdcArray P j))" if "j < MAX_PROCESSES" for j
    using hdc_pid_other[OF reset_hdc_frame[OF v]] reset_hdc_fields(1)[of "hdcArray P i" m] that Suc.prems by auto
  with Suc.IH[of "Suc i" ?m] Suc.prems f show ?case by (auto intro: same_outside_trans)
qed simp

lemma owners_same:
  assumes "gfx_layout P" "same_outside A m m'" "ha_region P \<inter> A = {}" "ft_region P \<inter> A = {}"
  shows "owners P m' = owners P m"
proof -
  have "hdc_pid m' (hdcArray P i) = hdc_pid m (hdcArray P i)" if "i < MAX_PROCESSES" for i
    using hdc_same[OF assms(2,3), of "hdcArray P i"] that by (auto simp: valid_hdc_def same_hdc_def)
  then show ?thesis using load_int_same[OF assms(2,4)] by (simp add: owners_def)
qed

lemma owners_con_frame:
  assumes "gfx_layout P" "con_frame P s t"
  shows "owners P (mem t) = owners P (mem s)"
  by (rule owners_same[OF assms(1) con_frame_fields(14)[OF assms(2)] con_region_disjoint(2,4)[OF assms(1)]])

lemma owners_update:
  assumes "gfx_layout P" "load_int m (sym_firstTime P) = 1" "i < MAX_PROCESSES"
    "same_outside (region (hdcArray P i) 16) m m'"
  shows "owners P m' = (owners P m)[i := hdc_pid m' (hdcArray P i)]"
proof -
  have "region (hdcArray P i) 16 \<subseteq> ha_region P" using hdcArray_region[OF assms(3), of 0 16 P] by simp
  then have "ft_region P \<inter> region (hdcArray P i) 16 = {}" using layout_regions(5)[OF assms(1)] by blast
  then have "load_int m' (sym_firstTime P) = 1" using load_int_same[OF assms(4)] assms(2) by simp
  then show ?thesis using assms(2,3) hdc_pid_other[OF assms(4,3)]
    by (auto simp: owners_def nth_list_update intro!: nth_equalityI)
qed

text \<open>The first call resets the table; the owners are as they were.\<close>

lemma first_call_owners:
  assumes "gfx_layout P" "m' = (if load_int m (sym_firstTime P) \<noteq> 1 then store_int (initHdcArray P m) (sym_firstTime P) 1 else m)"
  shows "owners P m' = owners P m" "load_int m' (sym_firstTime P) = 1" "same_outside (ha_region P \<union> ft_region P) m m'"
proof -
  let ?i = "initHdcArray P m"
  have i: "same_outside (ha_region P) m ?i" "\<And>j. j < MAX_PROCESSES \<Longrightarrow> hdc_pid ?i (hdcArray P j) = -1"
    using init_loop_resets[of 0 MAX_PROCESSES P m] by (auto simp: initHdcArray_def)
  have s: "same_outside (ft_region P) ?i (store_int ?i (sym_firstTime P) 1)" by (rule same_outside_store_int) simp
  have p: "hdc_pid (store_int ?i (sym_firstTime P) 1) (hdcArray P j) = -1" if "j < MAX_PROCESSES" for j
    using hdc_same[OF s _ , of P "hdcArray P j"] layout_regions(5)[OF assms(1)] i(2)[OF that] that
    by (auto simp: same_hdc_def valid_hdc_def)
  show "load_int m' (sym_firstTime P) = 1" by (simp add: assms(2) in_i32_def)
  then show "owners P m' = owners P m" using p by (auto simp: assms(2) owners_def in_i32_def intro!: nth_equalityI)
  show "same_outside (ha_region P \<union> ft_region P) m m'"
    using same_outside_seq[OF i(1) s, of "ha_region P \<union> ft_region P"] by (simp add: assms(2))
qed

lemma print_hdc_ok:
  assumes "gfx_layout P" "con_ok P s" "\<not> cons_held s"
  shows "runs (print_hdc P h s) (\<lambda>_ t. con_ok P t \<and> \<not> cons_held t \<and> owners P (mem t) = owners P (mem s) \<and> con_frame P s t)"
proof -
  have "fmt_ints ''%d, %d, %d, %d\<newline>'' = Some 4" by simp
  from cprintf_ok[OF gfx_layout_consbuffer[OF assms(1)] assms(2) this _ assms(3)]
  have "runs (print_hdc P h s) (\<lambda>_ t. con_ok P t \<and> con_frame P s t)" by (simp add: print_hdc_def)
  then show ?thesis
    by (rule runs_mono) (auto dest: con_frame_fields(3) owners_con_frame[OF assms(1)] simp: assms(3))
qed

lemma con_ok_hdc:
  assumes "gfx_layout P" "con_ok P s" "same_outside (ha_region P \<union> ft_region P) (mem s) m"
  shows "con_ok P (s\<lparr>mem := m\<rparr>)"
  by (rule con_ok_mem[OF gfx_layout_consbuffer[OF assms(1)] assms(2,3)]) (use layout_regions[OF assms(1)] in auto)

lemma hdc_frame: "i < MAX_PROCESSES \<Longrightarrow> same_outside (region (hdcArray P i) 16) m m' \<Longrightarrow> same_outside (ha_region P \<union> ft_region P) m m'"
  using hdcArray_region[of i 0 16 P] by (auto intro: same_outside_mono)

lemma alloc_loop_scans:
  assumes "gfx_layout P" "con_ok P s" "\<not> cons_held s" "load_int (mem s) (sym_firstTime P) = 1" "in_i32 pid"
  shows "i + n = MAX_PROCESSES \<Longrightarrow> runs (alloc_loop P pid i n s) (\<lambda>h t. con_ok P t \<and> \<not> cons_held t \<and>
    (case scan_from i (\<lambda>p. p = -1) (drop i (owners P (mem s))) of
       Some k \<Rightarrow> h = hdcArray P k \<and> owners P (mem t) = (owners P (mem s))[k := pid]
     | None \<Rightarrow> h = 0 \<and> owners P (mem t) = owners P (mem s)))"
proof (induction n arbitrary: i)
  case 0
  then have "drop i (owners P (mem s)) = []" by simp
  then show ?case using assms by simp
next
  case (Suc n)
  then have i: "i < MAX_PROCESSES" by simp
  have o: "owners P (mem s) ! i = hdc_pid (mem s) (hdcArray P i)" using i assms(4) by (simp add: owners_def)
  have d: "drop i (owners P (mem s)) = hdc_pid (mem s) (hdcArray P i) # drop (Suc i) (owners P (mem s))"
    using i o by (metis Cons_nth_drop_Suc length_owners)
  show ?case
  proof (cases "hdc_pid (mem s) (hdcArray P i) = -1")
    case True
    let ?m = "store_int (mem s) (hdcArray P i + 12) pid"
    have f: "same_outside (region (hdcArray P i) 16) (mem s) ?m"
      by (rule same_outside_store_int, rule region_sub) simp_all
    have ow: "owners P ?m = (owners P (mem s))[i := pid]"
      using owners_update[OF assms(1,4) i f] hdc_store(13)[OF assms(5)] by simp
    have ok: "con_ok P (s\<lparr>mem := ?m\<rparr>)" by (rule con_ok_hdc[OF assms(1,2) hdc_frame[OF i f]])
    have nh: "\<not> cons_held (s\<lparr>mem := ?m\<rparr>)" using assms(3) by simp
    have "fmt_ints ''Assigned HDC %d\<newline>'' = Some 1" by simp
    from cprintf_ok[OF gfx_layout_consbuffer[OF assms(1)] ok this _ nh, of "[load32 ?m (hdcArray P i + 12)]"]
    have "runs (cprintf P ''Assigned HDC %d\<newline>'' [load32 ?m (hdcArray P i + 12)] (s\<lparr>mem := ?m\<rparr>))
      (\<lambda>_ t. con_ok P t \<and> \<not> cons_held t \<and> owners P (mem t) = (owners P (mem s))[i := pid])"
      by (auto elim!: runs_mono dest: owners_con_frame[OF assms(1)] con_frame_fields(3) simp: ow assms(3))
    then show ?thesis using True by (auto simp: Let_def d elim!: runs_mono)
  next
    case False
    then show ?thesis using Suc.IH[of "Suc i"] Suc.prems by (simp add: d)
  qed
qed

text \<open>
  C33. \<^verbatim>\<open>beginpaint\<close> gives the caller the first free context of the table of 64 and records the caller as its owner;
  with no context free it returns 0 and changes no owner. The first call of all starts from a table with
  every context free.
\<close>

theorem beginpaint_first_free:
  assumes "gfx_layout P" and "con_ok P s" and "\<not> cons_held s" and "in_i32 (cur_pid s)"
  shows "runs (sys_beginpaint P s) (\<lambda>v t.
    case scan (\<lambda>p. p = -1) (owners P (mem s)) of
      Some i \<Rightarrow> v = sint (hdcArray P i) \<and> owners P (mem t) = (owners P (mem s))[i := cur_pid s]
    | None \<Rightarrow> v = 0 \<and> owners P (mem t) = owners P (mem s))"
proof -
  define m where "m = (if load_int (mem s) (sym_firstTime P) \<noteq> 1
      then store_int (initHdcArray P (mem s)) (sym_firstTime P) 1 else mem s)"
  note fc = first_call_owners[OF assms(1) m_def]
  let ?s = "s\<lparr>mem := m\<rparr>"
  have "(if load_int (mem s) (sym_firstTime P) \<noteq> 1
      then s\<lparr>mem := store_int (initHdcArray P (mem s)) (sym_firstTime P) 1\<rparr> else s) = ?s" by (simp add: m_def)
  then have e: "sys_beginpaint P s = bindO (allocateHDC P (cur_pid s) ?s) (\<lambda>hdc s.
      bindO (print_hdc P hdc s) (\<lambda>_ s. Ret (sint hdc) s))" by (simp add: sys_beginpaint_def Let_def)
  have "runs (allocateHDC P (cur_pid s) ?s) (\<lambda>h t. con_ok P t \<and> \<not> cons_held t \<and>
      (case scan (\<lambda>p. p = -1) (owners P (mem s)) of
         Some k \<Rightarrow> h = hdcArray P k \<and> owners P (mem t) = (owners P (mem s))[k := cur_pid s]
       | None \<Rightarrow> h = 0 \<and> owners P (mem t) = owners P (mem s)))"
    using alloc_loop_scans[OF assms(1) con_ok_hdc[OF assms(1,2) fc(3)] _ _ assms(4), of 0 MAX_PROCESSES] assms(3) fc(1,2)
    by (simp add: allocateHDC_def scan_def cong: option.case_cong)
  then show ?thesis unfolding e runs_bindO
    by (rule runs_mono)
      (cases "scan (\<lambda>p. p = -1) (owners P (mem s))"; auto simp del: scan_None intro!: runs_mono[OF print_hdc_ok[OF assms(1)]])
qed

theorem beginpaint_first_free_witness:
  "runs (sys_beginpaint gfx_platform (gfx_state (\<lambda>_. 0))) (\<lambda>v t. v = - 0x7FEBE000
    \<and> owners gfx_platform (mem t) = 1 # replicate 63 (-1))"
proof -
  have o: "owners gfx_platform (mem (gfx_state (\<lambda>_. 0))) = replicate 64 (-1)"
    by (simp add: owners_def load_int_def load32_def gfx_state_def MAX_PROCESSES_def)
  have u: "replicate 64 (-1 :: int) = -1 # replicate 63 (-1)" by (simp add: numeral_eq_Suc)
  have "con_ok gfx_platform (gfx_state (\<lambda>_. 0))" "\<not> cons_held (gfx_state (\<lambda>_. 0))"
    by (simp_all add: con_ok_def gfx_state_def console0_def cursorposition_def gfx_platform_def load_int_def load32_def)
  from beginpaint_first_free[OF gfx_platform_layout this]
  show ?thesis unfolding o u
    by (auto simp: scan_def gfx_state_def console0_def in_i32_def hdcArray_def gfx_platform_def elim!: runs_mono)
qed

text \<open>
  \<^verbatim>\<open>endpaint\<close> of a context of the table returns 0, frees that context, resets its pen and leaves
  the owner of every other context as it was.
\<close>

theorem endpaint_frees:
  assumes "gfx_layout P" and "con_ok P s" and "\<not> cons_held s" and "argint 0 s = Some hh"
    and "i < MAX_PROCESSES" and "word_of_int hh = hdcArray P i" and "load_int (mem s) (sym_firstTime P) = 1"
  shows "runs (sys_endpaint P s) (\<lambda>v t. v = 0 \<and> owners P (mem t) = (owners P (mem s))[i := -1]
    \<and> hdc_colour (mem t) (hdcArray P i) = 15 \<and> hdc_x (mem t) (hdcArray P i) = 0 \<and> hdc_y (mem t) (hdcArray P i) = 0)"
proof -
  let ?h = "hdcArray P i" and ?s = "s\<lparr>mem := reset_hdc (hdcArray P i) (mem s)\<rparr>"
  have v: "valid_hdc P ?h" using assms(5) by (auto simp: valid_hdc_def)
  have ow: "owners P (reset_hdc ?h (mem s)) = (owners P (mem s))[i := -1]"
    using owners_update[OF assms(1,7,5) reset_hdc_frame[OF v]] reset_hdc_fields(1) by simp
  have "con_ok P ?s" by (rule con_ok_hdc[OF assms(1,2) hdc_frame[OF assms(5) reset_hdc_frame[OF v]]])
  from print_hdc_ok[OF assms(1) this, of ?h] assms(3)
  have "runs (print_hdc P ?h ?s) (\<lambda>_ t. owners P (mem t) = (owners P (mem s))[i := -1] \<and> con_frame P ?s t)"
    by (auto simp: ow elim!: runs_mono)
  moreover have "same_hdc ?h (mem ?s) (mem t)" if "con_frame P ?s t" for t
    by (rule hdc_same[OF con_frame_fields(14)[OF that] con_region_disjoint(2)[OF assms(1)] v])
  ultimately show ?thesis using assms(4,6) reset_hdc_fields[of ?h "mem s"]
    by (auto simp: sys_endpaint_def releaseHDC_def same_hdc_def elim!: runs_mono)
qed

theorem endpaint_frees_witness:
  "runs (sys_endpaint gfx_platform (gfx_state (call3 (-0x7FEBE000) 0 0 (store_int (\<lambda>_. 0) 0x80141000 1)))) (\<lambda>v t. v = 0
    \<and> owners gfx_platform (mem t) ! 0 = -1)"
proof -
  let ?s = "gfx_state (call3 (-0x7FEBE000) 0 0 (store_int (\<lambda>_. 0) 0x80141000 1))"
  have ok: "con_ok gfx_platform ?s" "\<not> cons_held ?s" "load_int (mem ?s) (sym_firstTime gfx_platform) = 1"
    by (simp_all add: con_ok_def gfx_state_def console0_def cursorposition_def gfx_platform_def call3_def store_int_def
      load_int_def load32_store32_other) (simp add: load32_def)
  have a: "argint 0 ?s = Some (-0x7FEBE000)" by (rule call3_args) (simp_all add: in_i32_def)
  have "0 < MAX_PROCESSES" "word_of_int (-0x7FEBE000) = hdcArray gfx_platform 0"
    by (simp_all add: MAX_PROCESSES_def hdcArray_def gfx_platform_def)
  from endpaint_frees[OF gfx_platform_layout ok(1,2) a this ok(3)] this(1)
  show ?thesis by (auto elim!: runs_mono)
qed

end
