(* ===== verification/Vga.thy ===== *)
theory Vga
  imports Graphics
begin

text \<open>
  The video mode switcher, \<^verbatim>\<open>src/vga.c\<close>: the register tables of the three modes, the port writes
  that load them, the font upload and the saving and restoring of the text screen around a
  graphics mode. The font lies in memory at an address the linker chose (the argument \<open>font\<close>).
  The register tables are part of the state because \<^verbatim>\<open>writevgaregisters\<close> updates them in place.
\<close>

unbundle bit_operations_syntax

section \<open>Register tables\<close>

definition VGA_AC_INDEX :: u16 where "VGA_AC_INDEX = 0x3C0"
definition VGA_AC_WRITE :: u16 where "VGA_AC_WRITE = 0x3C0"
definition VGA_MISC_WRITE :: u16 where "VGA_MISC_WRITE = 0x3C2"
definition VGA_SEQ_INDEX :: u16 where "VGA_SEQ_INDEX = 0x3C4"
definition VGA_SEQ_DATA :: u16 where "VGA_SEQ_DATA = 0x3C5"
definition VGA_GC_INDEX :: u16 where "VGA_GC_INDEX = 0x3CE"
definition VGA_GC_DATA :: u16 where "VGA_GC_DATA = 0x3CF"
definition VGA_CRTC_INDEX :: u16 where "VGA_CRTC_INDEX = 0x3D4"
definition VGA_CRTC_DATA :: u16 where "VGA_CRTC_DATA = 0x3D5"
definition VGA_INSTAT_READ :: u16 where "VGA_INSTAT_READ = 0x3DA"
definition VGA_NUM_SEQ_REGS :: nat where "VGA_NUM_SEQ_REGS = 5"
definition VGA_NUM_CRTC_REGS :: nat where "VGA_NUM_CRTC_REGS = 25"
definition VGA_NUM_GC_REGS :: nat where "VGA_NUM_GC_REGS = 9"
definition VGA_NUM_AC_REGS :: nat where "VGA_NUM_AC_REGS = 21"
definition VGA_NUM_REGS :: nat where
  "VGA_NUM_REGS = 1 + VGA_NUM_SEQ_REGS + VGA_NUM_CRTC_REGS + VGA_NUM_GC_REGS + VGA_NUM_AC_REGS"

lemmas vga_ports = VGA_AC_INDEX_def VGA_AC_WRITE_def VGA_MISC_WRITE_def VGA_SEQ_INDEX_def VGA_SEQ_DATA_def
  VGA_GC_INDEX_def VGA_GC_DATA_def VGA_CRTC_INDEX_def VGA_CRTC_DATA_def VGA_INSTAT_READ_def
lemmas vga_counts = VGA_NUM_SEQ_REGS_def VGA_NUM_CRTC_REGS_def VGA_NUM_GC_REGS_def VGA_NUM_AC_REGS_def VGA_NUM_REGS_def

definition registers_80x25_text :: "u8 list" where
  "registers_80x25_text =
    [0x67, 0x03, 0x00, 0x03, 0x00, 0x02,
     0x5F, 0x4F, 0x50, 0x82, 0x55, 0x81, 0xBF, 0x1F, 0x00, 0x4F, 0x0D, 0x0E, 0x00, 0x00, 0x00, 0x50,
     0x9C, 0x0E, 0x8F, 0x28, 0x1F, 0x96, 0xB9, 0xA3, 0xFF,
     0x00, 0x00, 0x00, 0x00, 0x00, 0x10, 0x0E, 0x00, 0xFF,
     0x00, 0x01, 0x02, 0x03, 0x04, 0x05, 0x14, 0x07, 0x38, 0x39, 0x3A, 0x3B, 0x3C, 0x3D, 0x3E, 0x3F,
     0x0C, 0x00, 0x0F, 0x08, 0x00]"

definition registers_320x200x256 :: "u8 list" where
  "registers_320x200x256 =
    [0x63, 0x03, 0x01, 0x0F, 0x00, 0x0E,
     0x5F, 0x4F, 0x50, 0x82, 0x54, 0x80, 0xBF, 0x1F, 0x00, 0x41, 0x00, 0x00, 0x00, 0x00, 0x00, 0x00,
     0x9C, 0x0E, 0x8F, 0x28, 0x40, 0x96, 0xB9, 0xA3, 0xFF,
     0x00, 0x00, 0x00, 0x00, 0x00, 0x40, 0x05, 0x0F, 0xFF,
     0x00, 0x01, 0x02, 0x03, 0x04, 0x05, 0x06, 0x07, 0x08, 0x09, 0x0A, 0x0B, 0x0C, 0x0D, 0x0E, 0x0F,
     0x41, 0x00, 0x0F, 0x00, 0x00]"

definition registers_640x480x16 :: "u8 list" where
  "registers_640x480x16 =
    [0xE3, 0x03, 0x01, 0x08, 0x00, 0x06,
     0x5F, 0x4F, 0x50, 0x82, 0x54, 0x80, 0x0B, 0x3E, 0x00, 0x40, 0x00, 0x00, 0x00, 0x00, 0x00, 0x00,
     0xEA, 0x0C, 0xDF, 0x28, 0x00, 0xE7, 0x04, 0xE3, 0xFF,
     0x00, 0x00, 0x00, 0x00, 0x03, 0x00, 0x05, 0x0F, 0xFF,
     0x00, 0x01, 0x02, 0x03, 0x04, 0x05, 0x14, 0x07, 0x38, 0x39, 0x3A, 0x3B, 0x3C, 0x3D, 0x3E, 0x3F,
     0x01, 0x00, 0x0F, 0x00, 0x00]"

record vga_state = console_state +
  currentVideoMode :: u8
  regs_text :: "u8 list"
  regs_256 :: "u8 list"
  regs_16 :: "u8 list"

section \<open>Loading a mode\<close>

text \<open>An index and data port pair written with the entries of a table, from register \<open>i\<close> on.\<close>

fun write_regs :: "u16 \<Rightarrow> u16 \<Rightarrow> nat \<Rightarrow> u8 list \<Rightarrow> 's machine_scheme \<Rightarrow> 's machine_scheme" where
  "write_regs ip dp i [] s = s"
| "write_regs ip dp i (v # vs) s = write_regs ip dp (Suc i) vs (outb dp v (outb ip (of_nat i) s))"

fun write_ac_regs :: "platform \<Rightarrow> nat \<Rightarrow> u8 list \<Rightarrow> 's machine_scheme \<Rightarrow> 's machine_scheme" where
  "write_ac_regs P i [] s = s"
| "write_ac_regs P i (v # vs) s =
     write_ac_regs P (Suc i) vs (outb VGA_AC_WRITE v (outb VGA_AC_INDEX (of_nat i) (snd (inb P VGA_INSTAT_READ s))))"

definition unlock_crtc :: "u8 list \<Rightarrow> u8 list" where
  "unlock_crtc regs = regs[9 := regs ! 9 OR 0x80, 23 := (regs[9 := regs ! 9 OR 0x80]) ! 23 AND NOT 0x80]"

definition writevgaregisters :: "platform \<Rightarrow> u8 list \<Rightarrow> 's machine_scheme \<Rightarrow> u8 list \<times> 's machine_scheme" where
  "writevgaregisters P regs s =
     (let s = outb VGA_MISC_WRITE (regs ! 0) s;
          s = write_regs VGA_SEQ_INDEX VGA_SEQ_DATA 0 (take VGA_NUM_SEQ_REGS (drop 1 regs)) s;
          s = outb VGA_CRTC_INDEX 0x03 s;
          (v, s) = inb P VGA_CRTC_DATA s;
          s = outb VGA_CRTC_DATA (v OR 0x80) s;
          s = outb VGA_CRTC_INDEX 0x11 s;
          (v, s) = inb P VGA_CRTC_DATA s;
          s = outb VGA_CRTC_DATA (v AND NOT 0x80) s;
          regs = unlock_crtc regs;
          s = write_regs VGA_CRTC_INDEX VGA_CRTC_DATA 0 (take VGA_NUM_CRTC_REGS (drop 6 regs)) s;
          s = write_regs VGA_GC_INDEX VGA_GC_DATA 0 (take VGA_NUM_GC_REGS (drop 31 regs)) s;
          s = write_ac_regs P 0 (take VGA_NUM_AC_REGS (drop 40 regs)) s;
          (_, s) = inb P VGA_INSTAT_READ s
      in (regs, outb VGA_AC_INDEX 0x20 s))"

definition setplane :: "u8 \<Rightarrow> 's machine_scheme \<Rightarrow> 's machine_scheme" where
  "setplane plane s =
     (let plane = plane AND 3;
          planeMask = push_bit (unat plane) 1;
          s = outb VGA_GC_INDEX 4 s;
          s = outb VGA_GC_DATA plane s;
          s = outb VGA_SEQ_INDEX 2 s
      in outb VGA_SEQ_DATA planeMask s)"

definition getframebufferBase :: "platform \<Rightarrow> 's machine_scheme \<Rightarrow> u32 \<times> 's machine_scheme" where
  "getframebufferBase P s =
     (let s = outb VGA_GC_INDEX 6 s;
          (plane, s) = inb P VGA_GC_DATA s;
          plane = drop_bit 2 plane AND 3
      in (if plane = 0 \<or> plane = 1 then P2V 0xA0000 else if plane = 2 then P2V 0xB0000 else P2V 0xB8000, s))"

text \<open>The 256 glyphs, 32 bytes apart in the plane.\<close>

fun font_loop :: "nat \<Rightarrow> u32 \<Rightarrow> u32 \<Rightarrow> u32 \<Rightarrow> memory \<Rightarrow> memory" where
  "font_loop 0 fontBase fontBuffer fontHeight m = m"
| "font_loop (Suc n) fontBase fontBuffer fontHeight m =
     font_loop n (fontBase + 32) (fontBuffer + fontHeight) fontHeight (memmove m fontBase fontBuffer fontHeight)"

text \<open>Read an indexed register, leaving it selected.\<close>

definition read_reg :: "platform \<Rightarrow> u16 \<Rightarrow> u16 \<Rightarrow> u8 \<Rightarrow> 's machine_scheme \<Rightarrow> u8 \<times> 's machine_scheme" where
  "read_reg P ip dp i s = inb P dp (outb ip i s)"

definition writefont :: "platform \<Rightarrow> u32 \<Rightarrow> u32 \<Rightarrow> 's machine_scheme \<Rightarrow> 's machine_scheme" where
  "writefont P fontBuffer fontHeight s =
     (let (seq2, s) = read_reg P VGA_SEQ_INDEX VGA_SEQ_DATA 2 s;
          (seq4, s) = read_reg P VGA_SEQ_INDEX VGA_SEQ_DATA 4 s;
          s = outb VGA_SEQ_DATA (seq4 OR 0x04) s;
          (gc4, s) = read_reg P VGA_GC_INDEX VGA_GC_DATA 4 s;
          (gc5, s) = read_reg P VGA_GC_INDEX VGA_GC_DATA 5 s;
          s = outb VGA_GC_DATA (gc5 AND NOT 0x10) s;
          (gc6, s) = read_reg P VGA_GC_INDEX VGA_GC_DATA 6 s;
          s = outb VGA_GC_DATA (gc6 AND NOT 0x02) s;
          s = setplane 2 s;
          s = s\<lparr>mem := font_loop 256 (P2V 0xB8000) fontBuffer fontHeight (mem s)\<rparr>;
          s = outb VGA_SEQ_DATA seq2 (outb VGA_SEQ_INDEX 2 s);
          s = outb VGA_SEQ_DATA seq4 (outb VGA_SEQ_INDEX 4 s);
          s = outb VGA_GC_DATA gc4 (outb VGA_GC_INDEX 4 s);
          s = outb VGA_GC_DATA gc5 (outb VGA_GC_INDEX 5 s)
      in outb VGA_GC_DATA gc6 (outb VGA_GC_INDEX 6 s))"

definition videosetmode :: "platform \<Rightarrow> u32 \<Rightarrow> u8 \<Rightarrow> 's vga_state_scheme \<Rightarrow> (int, 's vga_state_scheme) outcome" where
  "videosetmode P font mode s =
     (let currentmode = currentVideoMode s
      in if currentmode = mode then Ret 0 s
         else bindO (acquire_cons s) (\<lambda>_ s.
           let s = (if currentmode = 0x03 then grabscreentobuffer P s else s);
               (returnValue, s) =
                 (if mode = 0x03 then
                    let (regs, s) = writevgaregisters P (regs_text s) s;
                        s = writefont P font 16 (s\<lparr>regs_text := regs\<rparr>)
                    in (0, outputbuffertoscreen P (s\<lparr>currentVideoMode := 0x03\<rparr>))
                  else if mode = 0x12 then
                    let (regs, s) = writevgaregisters P (regs_16 s) s
                    in (0, s\<lparr>regs_16 := regs, currentVideoMode := 0x12\<rparr>)
                  else if mode = 0x13 then
                    let (regs, s) = writevgaregisters P (regs_256 s) s
                    in (0, clear320x200x256 P (s\<lparr>regs_256 := regs, currentVideoMode := 0x13\<rparr>))
                  else (-1, s))
           in bindO (release_cons s) (\<lambda>_ s. Ret returnValue s)))"

definition sys_setvideomode :: "platform \<Rightarrow> u32 \<Rightarrow> 's vga_state_scheme \<Rightarrow> (int, 's vga_state_scheme) outcome" where
  "sys_setvideomode P font s =
     (case argint 0 s of None \<Rightarrow> Ret (-1) s | Some mode \<Rightarrow> videosetmode P font (word_of_int mode) s)"

section \<open>The register files\<close>

text \<open>
  The register files of the chip as the port writes leave them: the miscellaneous output register; an index and data pair;
  the display controller, which is such a pair and ignores writes to its registers 0 to 7 (but for bit 4 of register 7) while
  bit 7 of its register 17 is set; and the
  attribute controller, whose single port alternates between index and data after a status read.
\<close>

fun misc_step :: "u8 \<Rightarrow> io_event \<Rightarrow> u8" where
  "misc_step m (OutB p v) = (if p = VGA_MISC_WRITE then v else m)"
| "misc_step m e = m"

fun file_step :: "u16 \<Rightarrow> u16 \<Rightarrow> u8 \<times> (u8 \<Rightarrow> u8) \<Rightarrow> io_event \<Rightarrow> u8 \<times> (u8 \<Rightarrow> u8)" where
  "file_step ip dp (i, r) (OutB p v) =
     (if p = ip then (v, r) else if p = dp then (i, r(i := v)) else (i, r))"
| "file_step ip dp c e = c"

definition crtc_put :: "(u8 \<Rightarrow> u8) \<Rightarrow> u8 \<Rightarrow> u8 \<Rightarrow> u8" where
  "crtc_put r i v =
     (if bit (r 0x11) 7 \<and> i < 7 then r i
      else if bit (r 0x11) 7 \<and> i = 7 then (r i AND NOT 0x10) OR (v AND 0x10)
      else v)"

fun display_step :: "u8 \<times> (u8 \<Rightarrow> u8) \<Rightarrow> io_event \<Rightarrow> u8 \<times> (u8 \<Rightarrow> u8)" where
  "display_step (i, r) (OutB p v) =
     (if p = VGA_CRTC_INDEX then (v, r) else if p = VGA_CRTC_DATA then (i, r(i := crtc_put r i v)) else (i, r))"
| "display_step c e = c"

fun ac_step :: "bool \<times> u8 \<times> (u8 \<Rightarrow> u8) \<Rightarrow> io_event \<Rightarrow> bool \<times> u8 \<times> (u8 \<Rightarrow> u8)" where
  "ac_step (ff, i, r) (OutB p v) =
     (if p \<noteq> VGA_AC_INDEX then (ff, i, r) else if ff then (False, i, r(i AND 0x1F := v)) else (True, v, r))"
| "ac_step (ff, i, r) (InB p v) = (if p = VGA_INSTAT_READ then (False, i, r) else (ff, i, r))"
| "ac_step c e = c"

abbreviation file_of :: "u16 \<Rightarrow> u16 \<Rightarrow> u8 \<times> (u8 \<Rightarrow> u8) \<Rightarrow> 's machine_scheme \<Rightarrow> u8 \<times> (u8 \<Rightarrow> u8)" where
  "file_of ip dp c s \<equiv> foldl (file_step ip dp) c (io s)"

abbreviation misc_of :: "u8 \<Rightarrow> 's machine_scheme \<Rightarrow> u8" where
  "misc_of m s \<equiv> foldl misc_step m (io s)"

abbreviation display_of :: "u8 \<times> (u8 \<Rightarrow> u8) \<Rightarrow> 's machine_scheme \<Rightarrow> u8 \<times> (u8 \<Rightarrow> u8)" where
  "display_of c s \<equiv> foldl display_step c (io s)"

abbreviation ac_of :: "bool \<times> u8 \<times> (u8 \<Rightarrow> u8) \<Rightarrow> 's machine_scheme \<Rightarrow> bool \<times> u8 \<times> (u8 \<Rightarrow> u8)" where
  "ac_of c s \<equiv> foldl ac_step c (io s)"

lemma file_of_outb: "file_of ip dp c (outb p v s) = file_step ip dp (file_of ip dp c s) (OutB p v)"
  by (simp add: outb_def)

lemma file_of_inb: "file_of ip dp c (snd (inb P p s)) = file_of ip dp c s"
  by (cases "file_of ip dp c s") (simp add: inb_def Let_def)

lemma misc_of_outb: "misc_of m (outb p v s) = misc_step (misc_of m s) (OutB p v)"
  by (simp add: outb_def)

lemma misc_of_inb: "misc_of m (snd (inb P p s)) = misc_of m s"
  by (simp add: inb_def Let_def)

lemma display_of_outb: "display_of c (outb p v s) = display_step (display_of c s) (OutB p v)"
  by (simp add: outb_def)

lemma display_of_inb: "display_of c (snd (inb P p s)) = display_of c s"
  by (cases "display_of c s") (simp add: inb_def Let_def)

lemma ac_of_outb: "ac_of c (outb p v s) = ac_step (ac_of c s) (OutB p v)"
  by (simp add: outb_def)

lemma ac_of_inb: "ac_of c (snd (inb P p s)) = ac_step (ac_of c s) (InB p 0)"
  by (cases "ac_of c s") (simp add: inb_def Let_def)

lemma file_of_write_regs_other:
  "ip \<noteq> ip' \<Longrightarrow> dp \<noteq> ip' \<Longrightarrow> ip \<noteq> dp' \<Longrightarrow> dp \<noteq> dp' \<Longrightarrow> file_of ip' dp' c (write_regs ip dp i vs s) = file_of ip' dp' c s"
proof (induction vs arbitrary: i s)
  case (Cons v vs)
  obtain a r where "file_of ip' dp' c s = (a, r)" by fastforce
  with Cons show ?case by (simp add: file_of_outb)
qed simp

lemma file_of_write_ac_other:
  "VGA_AC_INDEX \<noteq> ip \<Longrightarrow> VGA_AC_INDEX \<noteq> dp \<Longrightarrow> file_of ip dp c (write_ac_regs P i vs s) = file_of ip dp c s"
proof (induction vs arbitrary: i s)
  case (Cons v vs)
  obtain a r where "file_of ip dp c s = (a, r)" by fastforce
  with Cons show ?case by (simp add: file_of_outb file_of_inb VGA_AC_INDEX_def VGA_AC_WRITE_def)
qed simp

lemma table_slice:
  fixes r :: "u8 \<Rightarrow> u8"
  assumes "\<And>k. unat k = i \<longleftrightarrow> k = a"
  shows "(\<lambda>k. if Suc i \<le> unat k \<and> unat k < Suc i + length vs then vs ! (unat k - Suc i) else (r(a := v)) k) =
    (\<lambda>k. if i \<le> unat k \<and> unat k < i + length (v # vs) then (v # vs) ! (unat k - i) else r k)"
proof
  fix k :: u8
  show "(if Suc i \<le> unat k \<and> unat k < Suc i + length vs then vs ! (unat k - Suc i) else (r(a := v)) k) =
    (if i \<le> unat k \<and> unat k < i + length (v # vs) then (v # vs) ! (unat k - i) else r k)"
  proof (cases "unat k = i")
    case True
    with assms[of k] show ?thesis by simp
  next
    case False
    then have "k \<noteq> a" using assms by auto
    moreover have "Suc i \<le> unat k \<Longrightarrow> unat k - i = Suc (unat k - Suc i)" by simp
    ultimately show ?thesis using False by auto
  qed
qed

lemma file_of_write_regs:
  assumes "ip \<noteq> dp"
  shows "i + length vs \<le> 256 \<Longrightarrow> snd (file_of ip dp c (write_regs ip dp i vs s)) =
    (\<lambda>k. if i \<le> unat k \<and> unat k < i + length vs then vs ! (unat k - i) else snd (file_of ip dp c s) k)"
proof (induction vs arbitrary: i s)
  case (Cons v vs)
  obtain a r where f: "file_of ip dp c s = (a, r)" by fastforce
  have "file_of ip dp c (outb dp v (outb ip (of_nat i) s)) = (of_nat i, r(of_nat i := v))"
    using assms by (simp add: file_of_outb f)
  moreover have "unat (of_nat i :: u8) = i" using Cons.prems by (simp add: unat_of_nat)
  then have "unat k = i \<longleftrightarrow> k = of_nat i" for k :: u8 by (metis word_unat_eq_iff)
  ultimately show ?case using Cons.IH[of "Suc i" "outb dp v (outb ip (of_nat i) s)"] Cons.prems f table_slice[of i "of_nat i" vs r v]
    by (simp cong: if_cong)
qed (auto simp: fun_eq_iff)

text \<open>Unlocked registers that are loaded with an unlocked register 17.\<close>

lemma display_of_write_regs:
  "i + length vs \<le> 256 \<Longrightarrow> \<not> bit (snd (display_of c s) 0x11) 7 \<Longrightarrow> (\<forall>k < length vs. i + k = 0x11 \<longrightarrow> \<not> bit (vs ! k) 7) \<Longrightarrow>
   snd (display_of c (write_regs VGA_CRTC_INDEX VGA_CRTC_DATA i vs s)) =
    (\<lambda>k. if i \<le> unat k \<and> unat k < i + length vs then vs ! (unat k - i) else snd (display_of c s) k)"
proof (induction vs arbitrary: i s)
  case (Cons v vs)
  obtain a r where f: "display_of c s = (a, r)" by fastforce
  let ?t = "outb VGA_CRTC_DATA v (outb VGA_CRTC_INDEX (of_nat i) s)"
  have t: "display_of c ?t = (of_nat i, r(of_nat i := v))"
    using Cons.prems(2) by (simp add: display_of_outb f vga_ports crtc_put_def)
  have u: "unat (of_nat i :: u8) = i" using Cons.prems(1) by (simp add: unat_of_nat)
  then have k: "unat k = i \<longleftrightarrow> k = of_nat i" for k :: u8 by (metis word_unat_eq_iff)
  have "\<not> bit (snd (display_of c ?t) 0x11) 7"
    using Cons.prems(2,3) k[of "0x11"] unfolding t by (auto simp: f)
  moreover have "\<forall>k < length vs. Suc i + k = 0x11 \<longrightarrow> \<not> bit (vs ! k) 7" using Cons.prems(3) by force
  ultimately show ?case using Cons.IH[of "Suc i" ?t] Cons.prems(1) f t table_slice[of i "of_nat i" vs r v] k
    by (simp cong: if_cong)
qed (auto simp: fun_eq_iff)

lemma misc_of_write_regs:
  "ip \<noteq> VGA_MISC_WRITE \<Longrightarrow> dp \<noteq> VGA_MISC_WRITE \<Longrightarrow> misc_of m (write_regs ip dp i vs s) = misc_of m s"
  by (induction vs arbitrary: i s) (simp_all add: misc_of_outb)

lemma misc_of_write_ac: "misc_of m (write_ac_regs P i vs s) = misc_of m s"
  by (induction vs arbitrary: i s) (simp_all add: misc_of_outb misc_of_inb vga_ports)

lemma display_of_write_regs_other:
  "ip \<notin> {VGA_CRTC_INDEX, VGA_CRTC_DATA} \<Longrightarrow> dp \<notin> {VGA_CRTC_INDEX, VGA_CRTC_DATA} \<Longrightarrow>
   display_of c (write_regs ip dp i vs s) = display_of c s"
proof (induction vs arbitrary: i s)
  case (Cons v vs)
  obtain a r where "display_of c s = (a, r)" by fastforce
  with Cons show ?case by (simp add: display_of_outb)
qed simp

lemma display_of_write_ac_other: "display_of c (write_ac_regs P i vs s) = display_of c s"
proof (induction vs arbitrary: i s)
  case (Cons v vs)
  obtain a r where "display_of c s = (a, r)" by fastforce
  with Cons show ?case by (simp add: display_of_outb display_of_inb vga_ports)
qed simp

lemma ac_of_write_regs_other:
  "ip \<noteq> VGA_AC_INDEX \<Longrightarrow> dp \<noteq> VGA_AC_INDEX \<Longrightarrow> ac_of c (write_regs ip dp i vs s) = ac_of c s"
proof (induction vs arbitrary: i s)
  case (Cons v vs)
  obtain f a r where "ac_of c s = (f, a, r)" using prod_cases3 by blast
  with Cons show ?case by (simp add: ac_of_outb)
qed simp

lemma ac_of_write_ac:
  "i + length vs \<le> 32 \<Longrightarrow> snd (snd (ac_of c (write_ac_regs P i vs s))) =
    (\<lambda>k. if i \<le> unat k \<and> unat k < i + length vs then vs ! (unat k - i) else snd (snd (ac_of c s)) k)"
proof (induction vs arbitrary: i s)
  case (Cons v vs)
  obtain f a r where f: "ac_of c s = (f, a, r)" using prod_cases3 by blast
  have u: "unat (of_nat i :: u8) = i" using Cons.prems by (simp add: unat_of_nat)
  have "(of_nat i AND 0x1F :: u8) = of_nat i"
  proof -
    have "(0x1F :: u8) = mask 5" by (simp add: mask_eq_exp_minus_1)
    moreover have "take_bit 5 i = i" using Cons.prems by (intro take_bit_nat_eq_self) simp
    ultimately show ?thesis by (metis take_bit_eq_mask take_bit_of_nat)
  qed
  then have "ac_of c (outb VGA_AC_WRITE v (outb VGA_AC_INDEX (of_nat i) (snd (inb P VGA_INSTAT_READ s)))) = (False, of_nat i, r(of_nat i := v))"
    by (simp add: ac_of_outb ac_of_inb f VGA_AC_INDEX_def VGA_AC_WRITE_def)
  moreover have "unat k = i \<longleftrightarrow> k = of_nat i" for k :: u8 using u by (metis word_unat_eq_iff)
  ultimately show ?case
    using Cons.IH[of "Suc i" "outb VGA_AC_WRITE v (outb VGA_AC_INDEX (of_nat i) (snd (inb P VGA_INSTAT_READ s)))"] Cons.prems f
      table_slice[of i "of_nat i" vs r v]
    by (simp cong: if_cong)
qed (auto simp: fun_eq_iff)

lemma tables_unlocked:
  "unlock_crtc registers_80x25_text = registers_80x25_text" "unlock_crtc registers_320x200x256 = registers_320x200x256"
  "unlock_crtc registers_640x480x16 = registers_640x480x16"
  by (simp_all add: unlock_crtc_def registers_80x25_text_def registers_320x200x256_def registers_640x480x16_def)

text \<open>The state of \<^verbatim>\<open>writevgaregisters\<close> before the registers of the display controller are loaded, and at the end.\<close>

definition unlocked_crtc :: "platform \<Rightarrow> u8 list \<Rightarrow> 's machine_scheme \<Rightarrow> 's machine_scheme" where
  "unlocked_crtc P regs s =
     (let s = outb VGA_CRTC_INDEX 3 (write_regs VGA_SEQ_INDEX VGA_SEQ_DATA 0 (take VGA_NUM_SEQ_REGS (drop 1 regs))
            (outb VGA_MISC_WRITE (regs ! 0) s));
          s = outb VGA_CRTC_INDEX 0x11 (outb VGA_CRTC_DATA (fst (inb P VGA_CRTC_DATA s) OR 0x80) (snd (inb P VGA_CRTC_DATA s)))
      in outb VGA_CRTC_DATA (fst (inb P VGA_CRTC_DATA s) AND NOT 0x80) (snd (inb P VGA_CRTC_DATA s)))"

lemma writevgaregisters_split:
  assumes "writevgaregisters P regs s = (regs', t)"
  obtains w where "regs' = unlock_crtc regs" "t = outb VGA_AC_INDEX 0x20 (snd (inb P VGA_INSTAT_READ w))"
    "w = write_ac_regs P 0 (take VGA_NUM_AC_REGS (drop 40 regs'))
        (write_regs VGA_GC_INDEX VGA_GC_DATA 0 (take VGA_NUM_GC_REGS (drop 31 regs'))
          (write_regs VGA_CRTC_INDEX VGA_CRTC_DATA 0 (take VGA_NUM_CRTC_REGS (drop 6 regs')) (unlocked_crtc P regs s)))"
  by (rule that[OF _ _ refl]) (use assms in \<open>auto simp: writevgaregisters_def unlocked_crtc_def Let_def split_beta\<close>)

lemma unlocked_crtc_unlocked: "\<not> bit (snd (display_of c (unlocked_crtc P regs s)) 0x11) 7"
proof -
  have "\<not> bit (v AND NOT 0x80 :: u8) 7" for v by (simp add: bit_simps)
  moreover obtain a r where "display_of c s = (a, r)" by fastforce
  ultimately show ?thesis
    by (simp add: unlocked_crtc_def Let_def display_of_outb display_of_inb display_of_write_regs_other vga_ports crtc_put_def)
qed

lemma unlock_crtc_entries:
  assumes "length regs = 61"
  shows "length (unlock_crtc regs) = 61" "\<not> bit (unlock_crtc regs ! 23) 7"
    "31 \<le> k \<Longrightarrow> unlock_crtc regs ! k = regs ! k"
  using assms by (simp_all add: unlock_crtc_def bit_simps)

text \<open>
  C36. Loading a table of 61 bytes leaves every register of the chip, the miscellaneous output register and those of the sequencer,
  the display controller, the graphics controller and the attribute controller, with its entry of the table (with the two write protection
  bits of the display controller's entries cleared), and the display on, whatever the registers held before. In particular the
  display controller may have been write-protected: the registers are unlocked before they are loaded.
\<close>

theorem writevgaregisters_loads:
  assumes "length regs = VGA_NUM_REGS" and "writevgaregisters P regs s = (regs', t)"
  shows "regs' = unlock_crtc regs \<and> misc_of m t = regs ! 0
    \<and> (\<forall>i < VGA_NUM_SEQ_REGS. snd (file_of VGA_SEQ_INDEX VGA_SEQ_DATA c t) (of_nat i) = regs ! (1 + i))
    \<and> (\<forall>i < VGA_NUM_CRTC_REGS. snd (display_of c t) (of_nat i) = regs' ! (6 + i))
    \<and> (\<forall>i < VGA_NUM_GC_REGS. snd (file_of VGA_GC_INDEX VGA_GC_DATA c t) (of_nat i) = regs ! (31 + i))
    \<and> (\<forall>i < VGA_NUM_AC_REGS. snd (snd (ac_of d t)) (of_nat i) = regs ! (40 + i))
    \<and> fst (snd (ac_of d t)) = 0x20"
proof -
  have l: "length regs = 61" using assms(1) by (simp add: vga_counts)
  note un = unlock_crtc_entries[OF l]
  obtain w where r: "regs' = unlock_crtc regs" and t: "t = outb VGA_AC_INDEX 0x20 (snd (inb P VGA_INSTAT_READ w))"
    and w: "w = write_ac_regs P 0 (take VGA_NUM_AC_REGS (drop 40 regs'))
        (write_regs VGA_GC_INDEX VGA_GC_DATA 0 (take VGA_NUM_GC_REGS (drop 31 regs'))
          (write_regs VGA_CRTC_INDEX VGA_CRTC_DATA 0 (take VGA_NUM_CRTC_REGS (drop 6 regs')) (unlocked_crtc P regs s)))"
    using writevgaregisters_split[OF assms(2)] by metis
  have u: "unat (of_nat i :: u8) = i" if "i < 25" for i using that by (simp add: unat_of_nat)
  have fs: "snd (file_step ip dp x (OutB p v)) = (if p = dp \<and> p \<noteq> ip then (snd x)(fst x := v) else snd x)" for ip dp x p v
    by (cases x) simp
  have ds: "snd (display_step x (OutB VGA_AC_INDEX v)) = snd x" for x v by (cases x) (simp add: vga_ports)
  note files = t w unlocked_crtc_def Let_def file_of_outb file_of_inb file_of_write_regs_other file_of_write_ac_other file_of_write_regs fs
    vga_ports vga_counts
  have misc: "misc_of m t = regs ! 0"
    by (simp add: t w unlocked_crtc_def Let_def misc_of_outb misc_of_inb misc_of_write_regs misc_of_write_ac vga_ports)
  have seq: "\<forall>i < VGA_NUM_SEQ_REGS. snd (file_of VGA_SEQ_INDEX VGA_SEQ_DATA c t) (of_nat i) = regs ! (1 + i)"
    using l u by (simp add: files)
  have gc: "\<forall>i < VGA_NUM_GC_REGS. snd (file_of VGA_GC_INDEX VGA_GC_DATA c t) (of_nat i) = regs ! (31 + i)"
    using un(1,3) u r by (simp add: files)
  have "snd (display_of c t) = snd (display_of c (write_regs VGA_CRTC_INDEX VGA_CRTC_DATA 0 (take VGA_NUM_CRTC_REGS (drop 6 regs')) (unlocked_crtc P regs s)))"
    by (simp add: t w display_of_outb display_of_inb display_of_write_ac_other ds display_of_write_regs_other) (simp add: display_of_write_regs_other vga_ports)
  then have crtc: "\<forall>i < VGA_NUM_CRTC_REGS. snd (display_of c t) (of_nat i) = regs' ! (6 + i)"
    using un(1,2) u r unlocked_crtc_unlocked[of c P regs s] by (simp add: display_of_write_regs vga_counts)
  obtain f x where x: "ac_of d w = (f, x)" by (rule prod.exhaust)
  then have at: "ac_of d t = (True, 0x20, snd x)" by (cases x) (simp add: t ac_of_outb ac_of_inb)
  have "\<forall>i < VGA_NUM_AC_REGS. snd (snd (ac_of d w)) (of_nat i) = regs ! (40 + i)"
    using un(1,3) u r by (simp add: w ac_of_write_ac vga_counts)
  then show ?thesis using r misc seq crtc gc at x by simp
qed

text \<open>The 256-colour mode loaded into a chip whose display controller is write-protected.\<close>

theorem writevgaregisters_loads_witness:
  "let t = snd (writevgaregisters clock_platform registers_320x200x256 console0)
   in misc_of 0 t = 0x63 \<and> snd (display_of (0, \<lambda>_. 0xFF) t) 1 = 0x4F \<and> snd (snd (ac_of (False, 0, \<lambda>_. 0) t)) 16 = 0x41"
proof -
  obtain r t where w: "writevgaregisters clock_platform registers_320x200x256 console0 = (r, t)" by fastforce
  have l: "length registers_320x200x256 = VGA_NUM_REGS" by (simp add: registers_320x200x256_def vga_counts)
  have v: "registers_320x200x256 ! 0 = 0x63" "registers_320x200x256 ! 7 = 0x4F" "registers_320x200x256 ! 56 = 0x41"
    by (simp_all add: registers_320x200x256_def)
  note f = writevgaregisters_loads[OF l w, of 0 "(0, \<lambda>_. 0xFF)" "(False, 0, \<lambda>_. 0)", unfolded tables_unlocked]
  then have "misc_of 0 t = 0x63" by (simp add: v)
  moreover have "snd (display_of (0, \<lambda>_. 0xFF) t) 1 = 0x4F" using f v(2) by (auto simp: vga_counts dest!: spec[of _ 1])
  moreover have "snd (snd (ac_of (False, 0, \<lambda>_. 0) t)) 16 = 0x41" using f v(3) by (auto simp: vga_counts dest!: spec[of _ 16])
  ultimately show ?thesis by (simp add: w)
qed

section \<open>Switching modes\<close>

text \<open>Port traffic only: nothing but the record of the traffic changes.\<close>

definition io_only :: "'s machine_scheme \<Rightarrow> 's machine_scheme \<Rightarrow> bool" where
  "io_only s t \<longleftrightarrow> t = s\<lparr>io := io t\<rparr>"

lemma io_only_refl [simp]: "io_only s s"
  by (simp add: io_only_def)

lemma io_only_trans: "io_only s t \<Longrightarrow> io_only t u \<Longrightarrow> io_only s u"
  by (simp add: io_only_def) (metis machine.ext_inject machine.surjective machine.update_convs(2))

lemma io_only_outb [simp]: "io_only s (outb p v t) \<longleftrightarrow> io_only s t"
  by (cases s; cases t) (auto simp: io_only_def outb_def)

lemma io_only_inb [simp]: "io_only s (snd (inb P p t)) \<longleftrightarrow> io_only s t"
  by (cases s; cases t) (auto simp: io_only_def inb_def Let_def)

lemma io_only_write_regs [simp]: "io_only s (write_regs ip dp i vs t) \<longleftrightarrow> io_only s t"
  by (induction vs arbitrary: i t) auto

lemma io_only_write_ac_regs [simp]: "io_only s (write_ac_regs P i vs t) \<longleftrightarrow> io_only s t"
  by (induction vs arbitrary: i t) auto

lemma writevgaregisters_frame:
  obtains x where "writevgaregisters P regs s = (unlock_crtc regs, s\<lparr>io := x\<rparr>)"
proof -
  have "io_only s (snd (writevgaregisters P regs s))" by (simp add: writevgaregisters_def Let_def split_beta)
  moreover have "fst (writevgaregisters P regs s) = unlock_crtc regs" by (simp add: writevgaregisters_def Let_def split_beta)
  ultimately show ?thesis using that by (metis io_only_def prod.collapse)
qed

lemma font_loop_frame:
  "unat fb + 32 * n \<le> 2 ^ 32 \<Longrightarrow> unat src + 16 * n < 2 ^ 32 \<Longrightarrow> same_outside (region fb (32 * n)) m (font_loop n fb src 16 m)"
proof (induction n arbitrary: fb src m)
  case (Suc n)
  let ?m = "memmove m fb src 16"
  have a: "same_outside (region fb (32 * Suc n)) m ?m"
    using Suc.prems by (intro same_outside_memmove region_mono) simp_all
  show ?case
  proof (cases n)
    case 0
    then show ?thesis using a by simp
  next
    case (Suc k)
    then have "unat (fb + 32) = unat fb + 32" "unat (src + 16) = unat src + 16"
      using Suc.prems by (simp_all add: unat_word_ariths)
    then have "same_outside (region (fb + 32) (32 * n)) ?m (font_loop n (fb + 32) (src + 16) 16 ?m)"
      using Suc.prems by (intro Suc.IH) simp_all
    moreover have "region (fb + 32) (32 * n) \<subseteq> region fb (32 * Suc n)"
      using Suc.prems(1) by (intro region_sub) simp_all
    ultimately have "same_outside (region fb (32 * Suc n)) ?m (font_loop n (fb + 32) (src + 16) 16 ?m)"
      by (rule same_outside_mono)
    with a show ?thesis by (simp only: font_loop.simps) (rule same_outside_trans)
  qed
qed simp

lemma writefont_frame:
  "writefont P f h s = s\<lparr>io := io (writefont P f h s), mem := font_loop 256 (P2V 0xB8000) f h (mem s)\<rparr>"
  by (simp add: writefont_def read_reg_def setplane_def Let_def split_beta inb_def outb_def)

lemma hw_cursor_io: "io s = io t \<Longrightarrow> hw_cursor P s = hw_cursor P t"
  by (simp add: hw_cursor_def gethardwarecursorposition_def inb_def outb_def Let_def)

lemma hw_cursor_fields [simp]:
  "hw_cursor P (s\<lparr>textdisplayed := x\<rparr>) = hw_cursor P s" "hw_cursor P (s\<lparr>cons_held := h\<rparr>) = hw_cursor P s"
  by (rule hw_cursor_io; simp)+

lemma clear_loop_frame:
  "i + n \<le> 64000 \<Longrightarrow> same_outside (vb_region P) m (clear_loop P i n m)"
proof (induction n arbitrary: i m)
  case (Suc n)
  have "same_outside (vb_region P) m (m(sym_videobuffer P + of_nat i := 0))"
    using Suc.prems by (intro same_outside_upd region_byte) simp_all
  with Suc.IH[of "Suc i"] Suc.prems show ?case by (auto intro: same_outside_trans)
qed simp

lemma clear_frame:
  assumes "gfx_layout P"
  shows "same_outside (vb_region P \<union> video_window) (mem s) (mem (clear320x200x256 P s))"
proof -
  let ?t = "s\<lparr>mem := clear_loop P 0 (320 * 200) (mem s)\<rparr>"
  have "same_outside (vb_region P) (mem s) (mem ?t)" using clear_loop_frame[of 0 64000 P "mem s"] by simp
  from flush_frame[OF assms this] show ?thesis by (simp add: clear320x200x256_def)
qed

text \<open>The text screen saved in the buffer of the console.\<close>

definition saved_screen :: "platform \<Rightarrow> memory \<Rightarrow> u8 list \<times> int" where
  "saved_screen P m = (map (\<lambda>i. m (sym_consbuffer P + of_nat i)) [0..<4000], cursorposition P m)"

definition text_screen :: "platform \<Rightarrow> 's machine_scheme \<Rightarrow> u8 list \<times> int" where
  "text_screen P s = (map (\<lambda>i. mem s (crt + of_nat i)) [0..<4000], hw_cursor P s)"

lemma saved_screen_same:
  assumes "consbuffer_ok P" "same_outside A m m'" "consbuffer_region P \<inter> A = {}"
  shows "saved_screen P m' = saved_screen P m"
proof -
  have "region (sym_consbuffer P + 4000) 4 \<subseteq> consbuffer_region P"
    unfolding consbuffer_region_def by (rule region_sub) simp_all
  then have "cursorposition P m' = cursorposition P m"
    unfolding cursorposition_def using load_int_same[OF assms(2)] assms(3) by blast
  moreover have "m' (sym_consbuffer P + of_nat i) = m (sym_consbuffer P + of_nat i)" if "i < 4000" for i
  proof -
    have "sym_consbuffer P + of_nat i \<in> consbuffer_region P"
      unfolding consbuffer_region_def using that by (intro region_byte) simp_all
    then show ?thesis using assms(3) by (intro same_outsideD[OF assms(2)]) blast
  qed
  ultimately show ?thesis by (simp add: saved_screen_def)
qed

lemma grab_saves:
  assumes "consbuffer_ok P" "hw_cursor P s \<in> {0..<24 * 80}"
  shows "saved_screen P (mem (grabscreentobuffer P s)) = text_screen P s"
    "grabscreentobuffer P s = s\<lparr>mem := mem (grabscreentobuffer P s), io := io (grabscreentobuffer P s), textdisplayed := 0\<rparr>"
proof -
  define m where "m = memmove (mem s) (sym_consbuffer P) crt 4000"
  have b: "unat crt + unat (4000 :: u32) < 2 ^ 32" "unat (sym_consbuffer P) + unat (4000 :: u32) \<le> 2 ^ 32"
    using assms(1) by (simp_all add: crt_def P2V_def KERNBASE_def consbuffer_ok_def)
  have h: "fst (gethardwarecursorposition P (s\<lparr>mem := m\<rparr>)) = hw_cursor P s"
    by (simp add: hw_cursor_def[symmetric])
  have mm: "mem (grabscreentobuffer P s) = store_int m (sym_consbuffer P + 4000) (hw_cursor P s)"
    using h by (simp add: grabscreentobuffer_def Let_def split_beta m_def[symmetric])
      (simp add: gethardwarecursorposition_def inb_def outb_def Let_def)
  have i: "in_i32 (hw_cursor P s)" using assms(2) by (simp add: in_i32_def)
  have "store_int m (sym_consbuffer P + 4000) v (sym_consbuffer P + of_nat k) = mem s (crt + of_nat k)" if "k < 4000" for k v
  proof -
    have "unat (of_nat k :: u32) < 4000" using that by (simp add: unat_of_nat)
    then have "sym_consbuffer P + of_nat k \<notin> region (sym_consbuffer P + 4000) 4"
      by (simp add: in_region unat_sub_if')
    then have "store_int m (sym_consbuffer P + 4000) v (sym_consbuffer P + of_nat k) = m (sym_consbuffer P + of_nat k)"
      by (intro same_outsideD[OF same_outside_store_int[OF subset_refl]])
    then show ?thesis using memmove_apply[OF b, of "mem s"] that by (simp add: m_def unat_of_nat)
  qed
  then show "saved_screen P (mem (grabscreentobuffer P s)) = text_screen P s"
    using i by (simp add: mm saved_screen_def text_screen_def cursorposition_def)
  show "grabscreentobuffer P s = s\<lparr>mem := mem (grabscreentobuffer P s), io := io (grabscreentobuffer P s), textdisplayed := 0\<rparr>"
    by (simp add: grabscreentobuffer_def Let_def split_beta gethardwarecursorposition_def inb_def outb_def)
qed

lemma output_shows:
  assumes "consbuffer_ok P" "cursor_chip P" "cursorposition P (mem s) \<in> {0..<24 * 80}" "consbuffer_region P \<inter> region crt 4000 = {}"
  shows "text_screen P (outputbuffertoscreen P s) = saved_screen P (mem s)"
    "outputbuffertoscreen P s = s\<lparr>mem := mem (outputbuffertoscreen P s), io := io (outputbuffertoscreen P s), textdisplayed := 1\<rparr>"
proof -
  define m where "m = memmove (mem s) crt (sym_consbuffer P) 4000"
  have b: "unat crt + unat (4000 :: u32) \<le> 2 ^ 32" "unat (sym_consbuffer P) + unat (4000 :: u32) < 2 ^ 32"
    using assms(1) by (simp_all add: crt_def P2V_def KERNBASE_def consbuffer_ok_def)
  have "same_outside (region crt 4000) (mem s) m"
    unfolding m_def using b by (intro same_outside_memmove) simp_all
  from saved_screen_same[OF assms(1) this assms(4)] have c: "cursorposition P m = cursorposition P (mem s)"
    by (simp add: saved_screen_def)
  have "outputbuffertoscreen P s = (sethardwarecursorposition (cursorposition P (mem s)) (s\<lparr>mem := m\<rparr>))\<lparr>textdisplayed := 1\<rparr>"
    by (simp add: outputbuffertoscreen_def Let_def m_def[symmetric] c)
  moreover have "hw_cursor P (sethardwarecursorposition (cursorposition P (mem s)) (s\<lparr>mem := m\<rparr>)) = cursorposition P (mem s)"
    using assms(2,3) by (intro hw_cursor_set) simp_all
  moreover have "mem (sethardwarecursorposition p u) = mem u" for p and u :: "'a console_state_scheme"
    by (simp add: sethardwarecursorposition_def outb_def Let_def)
  ultimately show "text_screen P (outputbuffertoscreen P s) = saved_screen P (mem s)"
    using memmove_apply[OF b(2,1), of "mem s"]
    by (simp add: text_screen_def saved_screen_def m_def unat_of_nat)
  show "outputbuffertoscreen P s = s\<lparr>mem := mem (outputbuffertoscreen P s), io := io (outputbuffertoscreen P s), textdisplayed := 1\<rparr>"
    by (simp add: outputbuffertoscreen_def Let_def sethardwarecursorposition_def outb_def)
qed


lemma text_screen_held [simp]: "text_screen P (s\<lparr>cons_held := h\<rparr>) = text_screen P s"
  by (simp add: text_screen_def)

lemma vga_window:
  assumes "gfx_layout P"
  shows "consbuffer_region P \<inter> region (P2V 0xB8000) (32 * 256) = {}" "consbuffer_region P \<inter> region crt 4000 = {}"
  using assms unfolding consbuffer_region_def gfx_layout_def gfx_vars_def
  by (intro region_disjoint; force simp: layout_defs P2V_def crt_def)+

lemma enter_graphics:
  assumes "gfx_layout P" "con_ok P s" "\<not> cons_held s" "textdisplayed s = 1" "currentVideoMode s = 0x03" "mode = 0x12 \<or> mode = 0x13"
  shows "runs (videosetmode P font mode s) (\<lambda>r t. r = 0 \<and> saved_screen P (mem t) = text_screen P s
    \<and> textdisplayed t = 0 \<and> currentVideoMode t = mode \<and> \<not> cons_held t \<and> regs_text t = regs_text s)"
proof -
  let ?s = "s\<lparr>cons_held := True\<rparr>"
  define g where "g = grabscreentobuffer P ?s"
  have hw: "hw_cursor P ?s \<in> {0..<24 * 80}" using assms(2,4) by (simp add: con_ok_def)
  have g: "saved_screen P (mem g) = text_screen P s" "g = ?s\<lparr>mem := mem g, io := io g, textdisplayed := 0\<rparr>"
    using grab_saves[OF gfx_layout_consbuffer[OF assms(1)] hw] unfolding g_def by simp_all
  have f: "textdisplayed g = 0" "cons_held g" "regs_text g = regs_text s" by (subst g(2), simp)+
  obtain x where x: "writevgaregisters P (regs_256 g) g = (unlock_crtc (regs_256 g), g\<lparr>io := x\<rparr>)"
    by (rule writevgaregisters_frame)
  obtain y where y: "writevgaregisters P (regs_16 g) g = (unlock_crtc (regs_16 g), g\<lparr>io := y\<rparr>)"
    by (rule writevgaregisters_frame)
  define w where "w = g\<lparr>io := x, regs_256 := unlock_crtc (regs_256 g), currentVideoMode := 0x13\<rparr>"
  have "saved_screen P (mem (clear320x200x256 P w)) = saved_screen P (mem w)"
    by (rule saved_screen_same[OF gfx_layout_consbuffer[OF assms(1)] clear_frame[OF assms(1)]])
      (use layout_regions(7)[OF assms(1)] window_regions(5)[OF assms(1)] in blast)
  then have c: "saved_screen P (mem (clear320x200x256 P w)) = text_screen P s" using g(1) by (simp add: w_def)
  have cf: "textdisplayed (clear320x200x256 P w) = 0" "cons_held (clear320x200x256 P w)"
      "regs_text (clear320x200x256 P w) = regs_text s" "currentVideoMode (clear320x200x256 P w) = 0x13"
    using f by (simp_all add: clear320x200x256_def flush_def w_def)
  show ?thesis using assms(3,5,6) f g(1) c cf
    by (auto simp: videosetmode_def Let_def acquire_cons_def release_cons_def g_def[symmetric] x y w_def[symmetric])
qed

lemma leave_graphics:
  assumes "gfx_layout P" "cursor_chip P" "\<not> cons_held s" "currentVideoMode s \<noteq> 0x03" "unat font + 4096 < 2 ^ 32"
    "cursorposition P (mem s) \<in> {0..<24 * 80}"
  shows "runs (videosetmode P font 0x03 s) (\<lambda>r t. r = 0 \<and> text_screen P t = saved_screen P (mem s)
    \<and> textdisplayed t = 1 \<and> currentVideoMode t = 0x03 \<and> \<not> cons_held t)"
proof -
  let ?s = "s\<lparr>cons_held := True\<rparr>" and ?B = "region (P2V 0xB8000) (32 * 256)"
  note cb = gfx_layout_consbuffer[OF assms(1)]
  obtain x where x: "writevgaregisters P (regs_text ?s) ?s = (unlock_crtc (regs_text ?s), ?s\<lparr>io := x\<rparr>)"
    by (rule writevgaregisters_frame)
  define v where "v = ?s\<lparr>io := x, regs_text := unlock_crtc (regs_text s)\<rparr>"
  define w where "w = (writefont P font 16 v)\<lparr>currentVideoMode := 0x03\<rparr>"
  have m: "mem w = font_loop 256 (P2V 0xB8000) font 16 (mem s)"
    unfolding w_def by (subst writefont_frame) (simp add: v_def)
  have "same_outside ?B (mem s) (mem w)"
    unfolding m using assms(5) by (intro font_loop_frame) (simp_all add: P2V_def KERNBASE_def)
  from saved_screen_same[OF cb this vga_window(1)[OF assms(1)]]
  have sv: "saved_screen P (mem w) = saved_screen P (mem s)" .
  then have cp: "cursorposition P (mem w) \<in> {0..<24 * 80}" using assms(6) by (simp add: saved_screen_def)
  note o = output_shows[OF cb assms(2) cp vga_window(2)[OF assms(1)]]
  have f: "textdisplayed (outputbuffertoscreen P w) = 1" "currentVideoMode (outputbuffertoscreen P w) = 0x03"
    by (subst o(2), simp add: w_def)+
  have h: "cons_held (outputbuffertoscreen P w)"
    by (subst o(2), simp add: w_def, subst writefont_frame, simp add: v_def)
  have "videosetmode P font 0x03 s = Ret 0 ((outputbuffertoscreen P w)\<lparr>cons_held := False\<rparr>)"
    using assms(3,4) x h by (simp add: videosetmode_def Let_def acquire_cons_def release_cons_def w_def v_def)
  then show ?thesis using f o(1) sv by simp
qed

text \<open>
  C21. The text screen survives a graphics mode: switching from text to 320x200 or 640x480 graphics and back gives the
  80 by 25 cells and the hardware cursor back as they were, although the graphics mode and the
  font upload overwrite the memory of the text screen.
\<close>

theorem video_mode_round_trip:
  assumes "gfx_layout P" and "con_ok P s" and "textdisplayed s = 1" and "\<not> cons_held s" and "currentVideoMode s = 0x03"
    and "unat font + 4096 < 2 ^ 32" and "mode = 0x12 \<or> mode = 0x13"
  shows "runs (bindO (videosetmode P font mode s) (\<lambda>_ t. videosetmode P font 0x03 t))
    (\<lambda>r t. r = 0 \<and> text_screen P t = text_screen P s \<and> textdisplayed t = 1 \<and> currentVideoMode t = 0x03)"
proof -
  have c: "cursor_chip P" "hw_cursor P s \<in> {0..<24 * 80}" using assms(2,3) by (auto simp: con_ok_def)
  have "runs (videosetmode P font 0x03 t)
      (\<lambda>r t. r = 0 \<and> text_screen P t = text_screen P s \<and> textdisplayed t = 1 \<and> currentVideoMode t = 0x03)"
    if t: "saved_screen P (mem t) = text_screen P s" "currentVideoMode t = mode" "\<not> cons_held t" for t :: "'a vga_state_scheme"
  proof -
    have "cursorposition P (mem t) = hw_cursor P s" using t(1) by (simp add: saved_screen_def text_screen_def)
    moreover have "currentVideoMode t \<noteq> 0x03" using t(2) assms(7) by auto
    ultimately show ?thesis using leave_graphics[OF assms(1) c(1) t(3) _ assms(6)] c t(1)
      by (auto elim!: runs_mono simp: con_ok_def text_screen_def)
  qed
  with enter_graphics[OF assms(1,2,4,3,5,7), of font] show ?thesis by (auto elim!: runs_mono)
qed


definition vga_platform :: platform where
  "vga_platform = gfx_platform\<lparr>dev_in := (\<lambda>h p. if p = CRTPORT + 1 then (case foldl crtc_step (0, \<lambda>_. 0) h of (i, r) \<Rightarrow> r i) else 0)\<rparr>"

definition vga0 :: vga_state where
  "vga0 = console_state.extend (console0\<lparr>textdisplayed := 1, mem := (\<lambda>_. 0)(crt := 0x41)\<rparr>)
     \<lparr>currentVideoMode = 0x03, regs_text = registers_80x25_text, regs_256 = registers_320x200x256, regs_16 = registers_640x480x16\<rparr>"

lemma vga_platform_ok: "gfx_layout vga_platform" "cursor_chip vga_platform"
  by (simp add: gfx_layout_def gfx_vars_def vga_platform_def gfx_platform_def clock_platform_def KERNLINK_def KERNBASE_def EXTMEM_def)
    (auto simp: cursor_chip_def vga_platform_def intro!: exI[of _ "0 :: u8"] exI[of _ "\<lambda>_. 0 :: u8"])

lemma vga0_ok: "con_ok vga_platform vga0" "textdisplayed vga0 = 1" "\<not> cons_held vga0" "currentVideoMode vga0 = 0x03"
  using vga_platform_ok(2)
  by (simp_all add: con_ok_def vga0_def console0_def console_state.defs hw_cursor_def gethardwarecursorposition_def inb_def outb_def
      Let_def vga_platform_def CRTPORT_def)

theorem video_mode_round_trip_witness:
  "runs (bindO (videosetmode vga_platform 0x80150000 0x13 vga0) (\<lambda>_ t. videosetmode vga_platform 0x80150000 0x03 t))
    (\<lambda>r t. r = 0 \<and> text_screen vga_platform t = text_screen vga_platform vga0)"
  using video_mode_round_trip[OF vga_platform_ok(1) vga0_ok, of "0x80150000" "0x13"] by (auto elim!: runs_mono)

text \<open>
  C37. A mode the switcher does not know is refused with -1, but from text mode the refused call
  still turns the console away from the screen: output goes to the saved copy while the display
  stays in text mode, and asking for text mode again returns at once without showing it.
\<close>

theorem unknown_mode_hides_console:
  assumes "currentVideoMode s = 0x03" and "\<not> cons_held s" and "mode \<notin> {0x03, 0x12, 0x13}"
  shows "runs (videosetmode P font mode s) (\<lambda>r t. r = -1 \<and> textdisplayed t = 0 \<and> currentVideoMode t = 0x03
    \<and> videosetmode P font 0x03 t = Ret 0 t)"
proof -
  define g where "g = grabscreentobuffer P (s\<lparr>cons_held := True\<rparr>)"
  have "textdisplayed g = 0 \<and> cons_held g \<and> currentVideoMode g = 0x03"
    using assms(1) by (simp add: g_def grabscreentobuffer_def Let_def split_beta gethardwarecursorposition_def inb_def outb_def)
  then show ?thesis using assms by (auto simp: videosetmode_def Let_def acquire_cons_def release_cons_def g_def[symmetric])
qed

theorem unknown_mode_hides_console_witness:
  "runs (videosetmode vga_platform 0x80150000 0x14 vga0) (\<lambda>r t. r = -1 \<and> textdisplayed t = 0
    \<and> videosetmode vga_platform 0x80150000 0x03 t = Ret 0 t)"
  using unknown_mode_hides_console[OF vga0_ok(4,3), of "0x14" vga_platform "0x80150000"] by (auto elim!: runs_mono)

end
