(* ===== verification/Bio.thy ===== *)
theory Bio
  imports Sleeplock Vga
begin

text \<open>
  The buffer cache, \<^verbatim>\<open>src/bio.c\<close>, over the memory disk of \<^verbatim>\<open>src/memide.c\<close>. A block is a
  function from byte offsets (below \<open>BSIZE\<close>) to bytes. The list threaded through the buffers is
  \<open>lru\<close>, most recently used first. \<open>dwrites\<close> records the writes to the disk in order, for
  the reasoning about crashes; nothing reads it.
\<close>

declare One_nat_def [simp del]

section \<open>Blocks\<close>

definition BSIZE :: nat where "BSIZE = 512"

type_synonym block = "nat \<Rightarrow> u8"

definition blk16 :: "block \<Rightarrow> nat \<Rightarrow> u16" where
  "blk16 b o' = ucast (b o') OR push_bit 8 (ucast (b (o' + 1)))"

definition blk32 :: "block \<Rightarrow> nat \<Rightarrow> u32" where
  "blk32 b o' = ucast (b o') OR push_bit 8 (ucast (b (o' + 1))) OR push_bit 16 (ucast (b (o' + 2))) OR push_bit 24 (ucast (b (o' + 3)))"

definition put16 :: "block \<Rightarrow> nat \<Rightarrow> u16 \<Rightarrow> block" where
  "put16 b o' v = b(o' := ucast v, o' + 1 := ucast (drop_bit 8 v))"

definition put32 :: "block \<Rightarrow> nat \<Rightarrow> u32 \<Rightarrow> block" where
  "put32 b o' v = b(o' := ucast v, o' + 1 := ucast (drop_bit 8 v), o' + 2 := ucast (drop_bit 16 v), o' + 3 := ucast (drop_bit 24 v))"

lemma blk32_put32_same [simp]: "blk32 (put32 b k v) k = v"
proof (rule bit_word_eqI)
  fix i assume "i < LENGTH(32)"
  then consider "i < 8" | "8 \<le> i \<and> i < 16" | "16 \<le> i \<and> i < 24" | "24 \<le> i \<and> i < 32" by force
  then show "bit (blk32 (put32 b k v) k) i = bit v i"
    by cases (auto simp: blk32_def put32_def bit_or_iff bit_push_bit_iff bit_ucast_iff bit_drop_bit_eq)
qed

lemma blk32_put32_other [simp]: "k + 4 \<le> j \<or> j + 4 \<le> k \<Longrightarrow> blk32 (put32 b k v) j = blk32 b j"
  by (auto simp: blk32_def put32_def)

lemma blk16_put16_same [simp]: "blk16 (put16 b k v) k = v"
proof (rule bit_word_eqI)
  fix i assume "i < LENGTH(16)"
  then consider "i < 8" | "8 \<le> i \<and> i < 16" by force
  then show "bit (blk16 (put16 b k v) k) i = bit v i"
    by cases (auto simp: blk16_def put16_def bit_or_iff bit_push_bit_iff bit_ucast_iff bit_drop_bit_eq)
qed

lemma blk16_put16_other [simp]: "k + 2 \<le> j \<or> j + 2 \<le> k \<Longrightarrow> blk16 (put16 b k v) j = blk16 b j"
  by (auto simp: blk16_def put16_def)

lemma blk_put_mixed [simp]:
  "k + 2 \<le> j \<or> j + 4 \<le> k \<Longrightarrow> blk32 (put16 b k v) j = blk32 b j"
  "k + 4 \<le> j \<or> j + 2 \<le> k \<Longrightarrow> blk16 (put32 b k w) j = blk16 b j"
  by (auto simp: blk32_def blk16_def put16_def put32_def)

lemma put_at:
  "j < k \<or> k + 4 \<le> j \<Longrightarrow> put32 b k w j = b j" "j < k \<or> k + 2 \<le> j \<Longrightarrow> put16 b k v j = b j"
  by (auto simp: put16_def put32_def)

section \<open>The cache\<close>

record buf =
  b_valid :: bool
  b_dirty :: bool
  b_dev :: nat
  b_blockno :: nat
  b_lock :: sleeplock
  b_refcnt :: u32
  b_data :: block

record bio_state = vga_state +
  bufs :: "nat \<Rightarrow> buf"
  lru :: "nat list"
  disk :: "nat \<Rightarrow> block"
  disksize :: nat
  dwrites :: "(nat \<times> block) list"

definition upd_buf :: "nat \<Rightarrow> (buf \<Rightarrow> buf) \<Rightarrow> 's bio_state_scheme \<Rightarrow> 's bio_state_scheme" where
  "upd_buf i f s = s\<lparr>bufs := (bufs s)(i := f (bufs s i))\<rparr>"

definition binit :: "'s bio_state_scheme \<Rightarrow> 's bio_state_scheme" where
  "binit s = fold (\<lambda>b s. upd_buf b (b_lock_update (\<lambda>_. initsleeplock)) (s\<lparr>lru := b # lru s\<rparr>)) [0..<NBUF] (s\<lparr>lru := []\<rparr>)"

definition acquire_buf :: "nat \<Rightarrow> 's bio_state_scheme \<Rightarrow> (unit, 's bio_state_scheme) outcome" where
  "acquire_buf i s =
     (case acquiresleep (cur_pid s) (b_lock (bufs s i)) of
        None \<Rightarrow> Block (ChBufLock i) s
      | Some lk \<Rightarrow> Ret () (upd_buf i (b_lock_update (\<lambda>_. lk)) s))"

definition bget :: "nat \<Rightarrow> nat \<Rightarrow> 's bio_state_scheme \<Rightarrow> (nat, 's bio_state_scheme) outcome" where
  "bget dev blockno s =
     (case find (\<lambda>i. b_dev (bufs s i) = dev \<and> b_blockno (bufs s i) = blockno) (lru s) of
        Some i \<Rightarrow>
          bindO (acquire_buf i (upd_buf i (\<lambda>b. b\<lparr>b_refcnt := b_refcnt b + 1\<rparr>) s)) (\<lambda>_ s. Ret i s)
      | None \<Rightarrow>
          (case find (\<lambda>i. b_refcnt (bufs s i) = 0 \<and> \<not> b_dirty (bufs s i)) (rev (lru s)) of
             Some i \<Rightarrow>
               bindO (acquire_buf i (upd_buf i (\<lambda>b. b\<lparr>b_dev := dev, b_blockno := blockno, b_valid := False, b_dirty := False,
                 b_refcnt := 1\<rparr>) s)) (\<lambda>_ s. Ret i s)
           | None \<Rightarrow> Panic ''bget: no buffers''))"

definition iderw :: "nat \<Rightarrow> 's bio_state_scheme \<Rightarrow> (unit, 's bio_state_scheme) outcome" where
  "iderw i s =
     (let b = bufs s i
      in if \<not> holdingsleep (cur_pid s) (b_lock b) then Panic ''iderw: buf not locked''
         else if b_valid b \<and> \<not> b_dirty b then Panic ''iderw: nothing to do''
         else if b_dev b \<noteq> 1 then Panic ''iderw: request not for disk 1''
         else if disksize s \<le> b_blockno b then Panic ''iderw: block out of range''
         else if b_dirty b then
           Ret () (upd_buf i (\<lambda>b. b\<lparr>b_dirty := False, b_valid := True\<rparr>)
             (s\<lparr>disk := (disk s)(b_blockno b := b_data b), dwrites := dwrites s @ [(b_blockno b, b_data b)]\<rparr>))
         else Ret () (upd_buf i (\<lambda>b. b\<lparr>b_data := disk s (b_blockno b), b_valid := True\<rparr>) s))"

definition bread :: "nat \<Rightarrow> nat \<Rightarrow> 's bio_state_scheme \<Rightarrow> (nat, 's bio_state_scheme) outcome" where
  "bread dev blockno s =
     bindO (bget dev blockno s) (\<lambda>i s.
       if \<not> b_valid (bufs s i) then bindO (iderw i s) (\<lambda>_ s. Ret i s) else Ret i s)"

definition bwrite :: "nat \<Rightarrow> 's bio_state_scheme \<Rightarrow> (unit, 's bio_state_scheme) outcome" where
  "bwrite i s =
     (if \<not> holdingsleep (cur_pid s) (b_lock (bufs s i)) then Panic ''bwrite''
      else iderw i (upd_buf i (b_dirty_update (\<lambda>_. True)) s))"

definition brelse :: "nat \<Rightarrow> 's bio_state_scheme \<Rightarrow> (unit, 's bio_state_scheme) outcome" where
  "brelse i s =
     (if \<not> holdingsleep (cur_pid s) (b_lock (bufs s i)) then Panic ''brelse''
      else
        let s = wakeup_call (ChBufLock i) (upd_buf i (\<lambda>b. b\<lparr>b_lock := releasesleep (b_lock b)\<rparr>) s);
            s = upd_buf i (\<lambda>b. b\<lparr>b_refcnt := b_refcnt b - 1\<rparr>) s
        in Ret () (if b_refcnt (bufs s i) = 0 then s\<lparr>lru := i # remove1 i (lru s)\<rparr> else s))"

text \<open>A change of the data of a buffer through the pointer \<^verbatim>\<open>bread\<close> returned.\<close>

definition upd_data :: "nat \<Rightarrow> (block \<Rightarrow> block) \<Rightarrow> 's bio_state_scheme \<Rightarrow> 's bio_state_scheme" where
  "upd_data i f s = upd_buf i (b_data_update f) s"

section \<open>Invariant\<close>

text \<open>
  The buffers in \<open>H\<close> are the ones the running process holds; the others are unlocked and
  unreferenced, and where they are valid and clean they agree with the disk.
\<close>

definition has_key :: "buf \<Rightarrow> nat \<Rightarrow> bool" where
  "has_key b n \<longleftrightarrow> b_dev b = 1 \<and> b_blockno b = n"

definition buf_ok :: "nat set \<Rightarrow> 's bio_state_scheme \<Rightarrow> nat \<Rightarrow> bool" where
  "buf_ok H s i \<longleftrightarrow>
     (if i \<in> H then holdingsleep (cur_pid s) (b_lock (bufs s i)) \<and> b_refcnt (bufs s i) = 1 \<and> b_valid (bufs s i)
      else \<not> sl_locked (b_lock (bufs s i)) \<and> b_refcnt (bufs s i) = 0
        \<and> (b_valid (bufs s i) \<and> \<not> b_dirty (bufs s i) \<longrightarrow> b_data (bufs s i) = disk s (b_blockno (bufs s i))))
     \<and> (b_dirty (bufs s i) \<longrightarrow> b_valid (bufs s i))
     \<and> (b_valid (bufs s i) \<longrightarrow> b_dev (bufs s i) = 1 \<and> b_blockno (bufs s i) < disksize s)"

definition binv :: "nat set \<Rightarrow> 's bio_state_scheme \<Rightarrow> bool" where
  "binv H s \<longleftrightarrow> distinct (lru s) \<and> set (lru s) = {..<NBUF} \<and> H \<subseteq> {..<NBUF}
     \<and> (\<forall>i < NBUF. buf_ok H s i)
     \<and> (\<forall>i < NBUF. \<forall>j < NBUF. \<forall>n. has_key (bufs s i) n \<and> has_key (bufs s j) n \<longrightarrow> i = j)"

text \<open>The contents of a block as the kernel sees it, and the blocks that are pinned.\<close>

definition cur :: "'s bio_state_scheme \<Rightarrow> nat \<Rightarrow> block" where
  "cur s n = (case find (\<lambda>i. has_key (bufs s i) n \<and> b_valid (bufs s i)) [0..<NBUF] of
     Some i \<Rightarrow> b_data (bufs s i) | None \<Rightarrow> disk s n)"

definition dirty :: "'s bio_state_scheme \<Rightarrow> nat set" where
  "dirty s = {i. i < NBUF \<and> b_dirty (bufs s i)}"

definition pinned :: "'s bio_state_scheme \<Rightarrow> nat set" where
  "pinned s = (\<lambda>i. b_blockno (bufs s i)) ` dirty s"

text \<open>What the operations of the cache may change.\<close>

definition bio_frame :: "'s bio_state_scheme \<Rightarrow> 's bio_state_scheme \<Rightarrow> bool" where
  "bio_frame s t \<longleftrightarrow> t = s\<lparr>wakeups := wakeups t, bufs := bufs t, lru := lru t, disk := disk t, dwrites := dwrites t\<rparr>"


lemma bio_frame_refl [simp]: "bio_frame s s"
  by (simp add: bio_frame_def)

lemma bio_frame_alt: "bio_frame s t \<longleftrightarrow> (\<exists>w b l d x. t = s\<lparr>wakeups := w, bufs := b, lru := l, disk := d, dwrites := x\<rparr>)"
proof
  assume "bio_frame s t"
  then show "\<exists>w b l d x. t = s\<lparr>wakeups := w, bufs := b, lru := l, disk := d, dwrites := x\<rparr>"
    unfolding bio_frame_def by blast
qed (auto simp: bio_frame_def)

lemma bio_frame_trans [trans]:
  assumes "bio_frame s t" "bio_frame t u"
  shows "bio_frame s u"
proof -
  obtain w b l d x where t: "t = s\<lparr>wakeups := w, bufs := b, lru := l, disk := d, dwrites := x\<rparr>"
    using assms(1) unfolding bio_frame_alt by blast
  show ?thesis unfolding bio_frame_def by (subst assms(2)[unfolded bio_frame_def t]) simp
qed

lemma bio_frame_upd_buf [simp]: "bio_frame s (upd_buf i f s)"
  by (simp add: bio_frame_def upd_buf_def)

lemma bio_frame_fields:
  assumes "bio_frame s t"
  shows "cur_pid t = cur_pid s" "disksize t = disksize s" "mem t = mem s" "bio_state.more t = bio_state.more s"
    "cur_killed t = cur_killed s" "io t = io s"
  by (subst assms[unfolded bio_frame_def], simp)+

lemma upd_buf_fields [simp]:
  "bufs (upd_buf i f s) = (bufs s)(i := f (bufs s i))" "lru (upd_buf i f s) = lru s" "disk (upd_buf i f s) = disk s"
  "dwrites (upd_buf i f s) = dwrites s" "disksize (upd_buf i f s) = disksize s" "cur_pid (upd_buf i f s) = cur_pid s"
  by (simp_all add: upd_buf_def)

lemma find_Some_unique:
  assumes "i \<in> set xs" "P i" "\<And>j. j \<in> set xs \<Longrightarrow> P j \<Longrightarrow> j = i"
  shows "find P xs = Some i"
proof (cases "find P xs")
  case None
  with assms(1,2) find_None_iff[of P xs] show ?thesis by blast
next
  case (Some j)
  then obtain k where "k < length xs" "P (xs ! k)" "j = xs ! k" using find_Some_iff[of P xs j] by blast
  then have "j \<in> set xs \<and> P j" by simp
  with assms(3) Some show ?thesis by simp
qed

lemma binv_lru: "binv H s \<Longrightarrow> set (lru s) = {..<NBUF}" by (simp add: binv_def)
lemma binv_buf: "binv H s \<Longrightarrow> i < NBUF \<Longrightarrow> buf_ok H s i" by (simp add: binv_def)
lemma binv_uniq: "binv H s \<Longrightarrow> i < NBUF \<Longrightarrow> j < NBUF \<Longrightarrow> has_key (bufs s i) n \<Longrightarrow> has_key (bufs s j) n \<Longrightarrow> i = j"
  unfolding binv_def by blast
lemma binv_held: "binv H s \<Longrightarrow> i \<in> H \<Longrightarrow> i < NBUF \<and> holdingsleep (cur_pid s) (b_lock (bufs s i)) \<and> b_refcnt (bufs s i) = 1 \<and> b_valid (bufs s i)
   \<and> b_dev (bufs s i) = 1 \<and> b_blockno (bufs s i) < disksize s"
  by (auto simp: binv_def buf_ok_def)

lemma cur_cached:
  assumes "binv H s" "i < NBUF" "has_key (bufs s i) n" "b_valid (bufs s i)"
  shows "cur s n = b_data (bufs s i)"
proof -
  have "find (\<lambda>i. has_key (bufs s i) n \<and> b_valid (bufs s i)) [0..<NBUF] = Some i"
    using assms by (intro find_Some_unique) (auto intro: binv_uniq)
  then show ?thesis by (simp add: cur_def)
qed

lemma cur_uncached:
  assumes "\<And>i. i < NBUF \<Longrightarrow> has_key (bufs s i) n \<Longrightarrow> \<not> b_valid (bufs s i)"
  shows "cur s n = disk s n"
proof -
  have "find (\<lambda>i. has_key (bufs s i) n \<and> b_valid (bufs s i)) [0..<NBUF] = None"
    using assms by (auto simp: find_None_iff)
  then show ?thesis by (simp add: cur_def)
qed

text \<open>A change of one buffer keeps the invariant when the buffer stays in order.\<close>

lemma binv_upd:
  assumes "binv H s" "i < NBUF" "bufs t = (bufs s)(i := b)" "set (lru t) = set (lru s)" "distinct (lru t)"
    "cur_pid t = cur_pid s" "disksize t = disksize s" "H' \<subseteq> {..<NBUF}" "\<And>j. j \<noteq> i \<Longrightarrow> j \<in> H' \<longleftrightarrow> j \<in> H"
    "\<And>j. j < NBUF \<Longrightarrow> j \<noteq> i \<Longrightarrow> j \<notin> H \<Longrightarrow> b_valid (bufs s j) \<Longrightarrow> \<not> b_dirty (bufs s j) \<Longrightarrow>
      disk t (b_blockno (bufs s j)) = disk s (b_blockno (bufs s j))"
    "buf_ok H' t i" "\<And>n j. has_key b n \<Longrightarrow> j < NBUF \<Longrightarrow> has_key (bufs s j) n \<Longrightarrow> j = i"
  shows "binv H' t"
proof -
  have "buf_ok H' t j" if "j < NBUF" for j
  proof (cases "j = i")
    case False
    then show ?thesis using binv_buf[OF assms(1) that] assms(3,6,7,9) assms(10)[OF that] by (auto simp: buf_ok_def)
  qed (simp add: assms(11))
  moreover have "j = k" if "j < NBUF" "k < NBUF" "has_key (bufs t j) n" "has_key (bufs t k) n" for j k n
    using that assms(3) assms(12)[of n j] assms(12)[of n k] binv_uniq[OF assms(1) that(1,2), of n] by (auto split: if_splits)
  moreover have "set (lru t) = {..<NBUF}" using binv_lru[OF assms(1)] assms(4) by simp
  ultimately show ?thesis using assms(5,8) unfolding binv_def by blast
qed

lemma cur_upd:
  assumes "binv H s" "binv H' t" "i < NBUF" "bufs t = (bufs s)(i := b)" "has_key b n" "b_valid b"
    "has_key (bufs s i) n \<or> (\<forall>j < NBUF. \<not> has_key (bufs s j) n)"
    "\<And>m. has_key (bufs s i) m \<Longrightarrow> m \<noteq> n \<Longrightarrow> b_valid (bufs s i) \<Longrightarrow> b_data (bufs s i) = disk s m"
    "\<And>m. m \<noteq> n \<Longrightarrow> disk t m = disk s m"
  shows "cur t = (cur s)(n := b_data b)"
proof
  fix m
  show "cur t m = ((cur s)(n := b_data b)) m"
  proof (cases "m = n")
    case True
    then show ?thesis using cur_cached[OF assms(2,3), of n] assms(4-6) by simp
  next
    case False
    then have k: "\<not> has_key b m" using assms(5) by (auto simp: has_key_def)
    show ?thesis
    proof (cases "\<exists>j < NBUF. j \<noteq> i \<and> has_key (bufs s j) m \<and> b_valid (bufs s j)")
      case True
      then obtain j where j: "j < NBUF" "j \<noteq> i" "has_key (bufs s j) m" "b_valid (bufs s j)" by blast
      then have "cur s m = b_data (bufs s j)" "cur t m = b_data (bufs s j)"
        using cur_cached[OF assms(1) j(1,3,4)] cur_cached[OF assms(2) j(1), of m] assms(4) by auto
      then show ?thesis using False by simp
    next
      case no: False
      have "cur t m = disk t m" using no k assms(4) by (intro cur_uncached) (auto split: if_splits)
      moreover have "cur s m = disk s m"
      proof (cases "has_key (bufs s i) m \<and> b_valid (bufs s i)")
        case True
        then show ?thesis using cur_cached[OF assms(1,3)] assms(8)[of m] False by auto
      next
        case False
        then show ?thesis using no by (intro cur_uncached) auto
      qed
      ultimately show ?thesis using False assms(9) by simp
    qed
  qed
qed

section \<open>The operations\<close>

definition got :: "nat set \<Rightarrow> nat \<Rightarrow> nat \<Rightarrow> 's bio_state_scheme \<Rightarrow> 's bio_state_scheme \<Rightarrow> bool" where
  "got H n i s t \<longleftrightarrow> i < NBUF \<and> i \<notin> H \<and> binv (insert i H) t \<and> has_key (bufs t i) n \<and> b_data (bufs t i) = cur s n \<and> cur t = cur s
     \<and> disk t = disk s \<and> dwrites t = dwrites s \<and> dirty t = dirty s \<and> pinned t = pinned s \<and> wakeups t = wakeups s
     \<and> (\<forall>j. j \<noteq> i \<longrightarrow> bufs t j = bufs s j) \<and> bio_frame s t
     \<and> (b_dirty (bufs t i) \<or> b_data (bufs t i) = disk t n)"

lemma got_upd:
  assumes "binv H s" "i < NBUF" "i \<notin> H" "n < disksize s" "t = s\<lparr>bufs := (bufs s)(i := b)\<rparr>" "has_key b n" "b_valid b"
    "holdingsleep (cur_pid s) (b_lock b)" "b_refcnt b = 1" "b_data b = cur s n" "b_dirty b = b_dirty (bufs s i)"
    "has_key (bufs s i) n \<or> \<not> b_dirty (bufs s i) \<and> (\<forall>j < NBUF. \<not> has_key (bufs s j) n)"
  shows "got H n i s t"
proof -
  have H: "H \<subseteq> {..<NBUF}" using assms(1) by (simp add: binv_def)
  have bok: "buf_ok H s i" by (rule binv_buf[OF assms(1,2)])
  have tb: "bufs t = (bufs s)(i := b)" by (simp add: assms(5))
  have inv: "binv (insert i H) t"
  proof (rule binv_upd[OF assms(1,2) tb])
    show "buf_ok (insert i H) t i" using assms(4,6-9) by (simp add: buf_ok_def assms(5) has_key_def)
    show "j = i" if "has_key b m" "j < NBUF" "has_key (bufs s j) m" for m j
    proof -
      have "m = n" using that(1) assms(6) by (auto simp: has_key_def)
      then show ?thesis using assms(12) that binv_uniq[OF assms(1) that(2) assms(2)] by auto
    qed
  qed (use H assms(1,2) in \<open>auto simp: assms(5) binv_def\<close>)
  have disk_i: "b_data (bufs s i) = disk s m" if "has_key (bufs s i) m" "m \<noteq> n" "b_valid (bufs s i)" for m
    using that bok assms(3,12) by (auto simp: buf_ok_def has_key_def)
  have "cur t = (cur s)(n := b_data b)"
    by (rule cur_upd[OF assms(1) inv assms(2) tb assms(6,7)]) (use assms(12) disk_i in \<open>auto simp: assms(5)\<close>)
  then have c: "cur t = cur s" by (simp add: assms(10))
  have d: "dirty t = dirty s" using assms(11) by (auto simp: dirty_def assms(5))
  have k: "b_dirty (bufs s i) \<Longrightarrow> b_blockno b = b_blockno (bufs s i)" using assms(6,12) by (auto simp: has_key_def)
  have p: "pinned t = pinned s"
    unfolding pinned_def d by (rule image_cong) (use k in \<open>auto simp: assms(5) dirty_def\<close>)
  have "b_dirty b \<or> cur s n = disk s n"
  proof (cases "b_dirty b")
    case False
    show ?thesis
    proof (cases "has_key (bufs s i) n \<and> b_valid (bufs s i)")
      case True
      then show ?thesis using cur_cached[OF assms(1,2)] bok assms(3,11) False by (auto simp: buf_ok_def has_key_def)
    next
      case nv: False
      have "cur s n = disk s n"
      proof (rule cur_uncached)
        fix j assume "j < NBUF" "has_key (bufs s j) n"
        then have "j = i" using assms(12) binv_uniq[OF assms(1) \<open>j < NBUF\<close> assms(2)] by auto
        with nv \<open>has_key (bufs s j) n\<close> show "\<not> b_valid (bufs s j)" by simp
      qed
      then show ?thesis ..
    qed
  qed simp
  then show ?thesis using inv c d p assms(2,3,6,10) by (auto simp: got_def assms(5) bio_frame_def)
qed

lemma bread_found:
  assumes "binv H s" "i < NBUF" "i \<notin> H" "has_key (bufs s i) n" "n < disksize s"
  shows "runs (bread 1 n s) (\<lambda>j t. j = i \<and> got H n i s t)"
proof -
  let ?lk = "(b_lock (bufs s i))\<lparr>sl_locked := True, sl_pid := cur_pid s\<rparr>"
  define b where "b = (bufs s i)\<lparr>b_refcnt := 1, b_lock := ?lk, b_data := cur s n, b_valid := True\<rparr>"
  have bok: "\<not> sl_locked (b_lock (bufs s i))" "b_refcnt (bufs s i) = 0" "b_dirty (bufs s i) \<Longrightarrow> b_valid (bufs s i)"
    using binv_buf[OF assms(1,2)] assms(3) by (auto simp: buf_ok_def)
  have k: "b_dev (bufs s i) = 1" "b_blockno (bufs s i) = n" using assms(4) by (auto simp: has_key_def)
  have f: "find (\<lambda>i. b_dev (bufs s i) = 1 \<and> b_blockno (bufs s i) = n) (lru s) = Some i"
  proof (rule find_Some_unique)
    fix j assume "j \<in> set (lru s)" "b_dev (bufs s j) = 1 \<and> b_blockno (bufs s j) = n"
    then show "j = i" using binv_uniq[OF assms(1) _ assms(2) _ assms(4), of j] binv_lru[OF assms(1)] by (simp add: has_key_def)
  qed (use binv_lru[OF assms(1)] assms(2) k in simp_all)
  have g: "bget 1 n s = Ret i (s\<lparr>bufs := (bufs s)(i := (bufs s i)\<lparr>b_refcnt := 1, b_lock := ?lk\<rparr>)\<rparr>)"
    using bok by (simp add: bget_def f acquire_buf_def upd_buf_def)
  have "bread 1 n s = Ret i (s\<lparr>bufs := (bufs s)(i := b)\<rparr>)"
  proof (cases "b_valid (bufs s i)")
    case True
    then have "cur s n = b_data (bufs s i)" by (rule cur_cached[OF assms(1,2,4)])
    then have "b = (bufs s i)\<lparr>b_refcnt := 1, b_lock := ?lk\<rparr>" using True unfolding b_def by (cases "bufs s i") simp
    with True show ?thesis by (simp add: bread_def g)
  next
    case False
    have "cur s n = disk s n"
      by (rule cur_uncached) (use False binv_uniq[OF assms(1) _ assms(2) _ assms(4)] in blast)
    moreover have "\<not> b_dirty (bufs s i)" using False bok(3) by blast
    ultimately show ?thesis using False bok(1,2) k assms(5)
      by (simp add: bread_def g b_def iderw_def holdingsleep_def upd_buf_def Let_def)
  qed
  moreover have "got H n i s (s\<lparr>bufs := (bufs s)(i := b)\<rparr>)"
    by (rule got_upd[OF assms(1,2,3,5) refl]) (use k in \<open>auto simp: b_def has_key_def holdingsleep_def\<close>)
  ultimately show ?thesis by simp
qed

lemma bread_recycles:
  assumes "binv H s" "\<And>i. i < NBUF \<Longrightarrow> \<not> has_key (bufs s i) n" "card (dirty s \<union> H) < NBUF" "n < disksize s"
  shows "runs (bread 1 n s) (\<lambda>i t. got H n i s t)"
proof -
  have H: "H \<subseteq> {..<NBUF}" "dirty s \<subseteq> {..<NBUF}" using assms(1) by (auto simp: binv_def dirty_def)
  have "\<not> {..<NBUF} \<subseteq> dirty s \<union> H"
    using assms(3) card_mono[of "dirty s \<union> H" "{..<NBUF}"] finite_subset[OF H(1)] finite_subset[OF H(2)] by auto
  then obtain k where k: "k < NBUF" "k \<notin> H" "\<not> b_dirty (bufs s k)" by (auto simp: dirty_def)
  let ?Q = "\<lambda>i. b_refcnt (bufs s i) = 0 \<and> \<not> b_dirty (bufs s i)"
  have "k \<in> set (rev (lru s))" "?Q k"
    using k binv_lru[OF assms(1)] binv_buf[OF assms(1) k(1)] by (auto simp: buf_ok_def)
  then obtain i where i: "find ?Q (rev (lru s)) = Some i" by (cases "find ?Q (rev (lru s))") (auto simp: find_None_iff)
  then obtain m where "m < length (rev (lru s))" "?Q (rev (lru s) ! m)" "i = rev (lru s) ! m"
    using find_Some_iff[of ?Q "rev (lru s)" i] by blast
  then have q: "i \<in> set (rev (lru s))" "?Q i" by (metis nth_mem)+
  then have ib: "i < NBUF" using binv_lru[OF assms(1)] by simp
  have iH: "i \<notin> H" using binv_held[OF assms(1), of i] q(2) by auto
  have ul: "\<not> sl_locked (b_lock (bufs s i))" using binv_buf[OF assms(1) ib] iH by (simp add: buf_ok_def)
  have "find (\<lambda>i. b_dev (bufs s i) = 1 \<and> b_blockno (bufs s i) = n) (lru s) = None"
    using assms(2) binv_lru[OF assms(1)] by (auto simp: find_None_iff has_key_def)
  moreover have "cur s n = disk s n" by (rule cur_uncached) (use assms(2) in blast)
  moreover define b where "b = (bufs s i)\<lparr>b_dev := 1, b_blockno := n, b_dirty := False, b_refcnt := 1,
      b_lock := (b_lock (bufs s i))\<lparr>sl_locked := True, sl_pid := cur_pid s\<rparr>, b_data := cur s n, b_valid := True\<rparr>"
  ultimately have "bread 1 n s = Ret i (s\<lparr>bufs := (bufs s)(i := b)\<rparr>)"
    using ul assms(4) by (simp add: bread_def bget_def i acquire_buf_def upd_buf_def iderw_def holdingsleep_def Let_def)
  moreover have "got H n i s (s\<lparr>bufs := (bufs s)(i := b)\<rparr>)"
    by (rule got_upd[OF assms(1) ib iH assms(4) refl]) (use q(2) assms(2) in \<open>auto simp: b_def has_key_def holdingsleep_def\<close>)
  ultimately show ?thesis by simp
qed

lemma bread_ok:
  assumes "binv H s" "n < disksize s" "\<And>i. i \<in> H \<Longrightarrow> \<not> has_key (bufs s i) n"
    "(\<exists>i < NBUF. has_key (bufs s i) n) \<or> card (dirty s \<union> H) < NBUF"
  shows "runs (bread 1 n s) (\<lambda>i t. got H n i s t)"
proof (cases "\<exists>i < NBUF. has_key (bufs s i) n")
  case True
  then obtain i where i: "i < NBUF" "has_key (bufs s i) n" by blast
  then have "i \<notin> H" using assms(3) by blast
  from bread_found[OF assms(1) i(1) this i(2) assms(2)] show ?thesis by (rule runs_mono) simp
next
  case False
  then show ?thesis using assms(4) by (intro bread_recycles[OF assms(1) _ _ assms(2)]) blast+
qed

lemma held_key: "binv H s \<Longrightarrow> i \<in> H \<Longrightarrow> has_key (bufs s i) (b_blockno (bufs s i))"
  using binv_held[of H s i] by (simp add: has_key_def)

lemma bwrite_ok:
  assumes "binv H s" "i \<in> H" "has_key (bufs s i) n"
  shows "runs (bwrite i s) (\<lambda>_ t. binv H t \<and> bufs t = (bufs s)(i := (bufs s i)\<lparr>b_dirty := False\<rparr>) \<and> lru t = lru s
    \<and> disk t = (disk s)(n := b_data (bufs s i)) \<and> dwrites t = dwrites s @ [(n, b_data (bufs s i))]
    \<and> cur t = cur s \<and> bio_frame s t \<and> wakeups t = wakeups s)"
proof -
  let ?d = "b_data (bufs s i)"
  define b where "b = (bufs s i)\<lparr>b_dirty := False\<rparr>"
  define t where "t = s\<lparr>disk := (disk s)(n := ?d), dwrites := dwrites s @ [(n, ?d)], bufs := (bufs s)(i := b)\<rparr>"
  note h = binv_held[OF assms(1,2)]
  have k: "b_blockno (bufs s i) = n" using assms(3) by (simp add: has_key_def)
  have vb: "(bufs s i)\<lparr>b_dirty := False, b_valid := True\<rparr> = b" using h unfolding b_def by (cases "bufs s i") simp
  have "bwrite i s = Ret () t"
    using h k vb by (simp add: bwrite_def iderw_def Let_def upd_buf_def t_def)
  moreover have tb: "bufs t = (bufs s)(i := b)" by (simp add: t_def)
  have inv: "binv H t"
  proof (rule binv_upd[OF assms(1) _ tb])
    show "buf_ok H t i" using h assms(2) by (simp add: buf_ok_def t_def b_def)
    show "j = i" if "has_key b m" "j < NBUF" "has_key (bufs s j) m" for m j
      using binv_uniq[OF assms(1) that(2) _ that(3), of i] h that(1) by (simp add: b_def has_key_def)
    show "disk t (b_blockno (bufs s j)) = disk s (b_blockno (bufs s j))"
      if "j < NBUF" "j \<noteq> i" "j \<notin> H" "b_valid (bufs s j)" "\<not> b_dirty (bufs s j)" for j
    proof -
      have "has_key (bufs s j) (b_blockno (bufs s j))" using binv_buf[OF assms(1) that(1)] that(4) by (simp add: buf_ok_def has_key_def)
      then have "b_blockno (bufs s j) \<noteq> n" using binv_uniq[OF assms(1) that(1) _ _ assms(3)] that(2) h by auto
      then show ?thesis by (simp add: t_def)
    qed
  qed (use h assms(1) in \<open>auto simp: t_def binv_def\<close>)
  moreover have "cur t = (cur s)(n := b_data b)"
    by (rule cur_upd[OF assms(1) inv _ tb]) (use h assms(3) in \<open>auto simp: t_def b_def has_key_def\<close>)
  then have "cur t = cur s" using cur_cached[OF assms(1) _ assms(3)] h by (simp add: b_def fun_upd_idem_iff)
  ultimately show ?thesis by (simp add: t_def b_def bio_frame_def)
qed

lemma brelse_ok:
  assumes "binv H s" "i \<in> H" "b_dirty (bufs s i) \<or> b_data (bufs s i) = disk s (b_blockno (bufs s i))"
  shows "runs (brelse i s) (\<lambda>_ t. binv (H - {i}) t \<and> cur t = cur s \<and> disk t = disk s \<and> dwrites t = dwrites s
    \<and> dirty t = dirty s \<and> pinned t = pinned s \<and> (\<forall>j. j \<noteq> i \<longrightarrow> bufs t j = bufs s j) \<and> bio_frame s t
    \<and> b_data (bufs t i) = b_data (bufs s i) \<and> (\<forall>n. has_key (bufs t i) n = has_key (bufs s i) n))"
proof -
  note h = binv_held[OF assms(1,2)]
  let ?n = "b_blockno (bufs s i)"
  define b where "b = (bufs s i)\<lparr>b_lock := releasesleep (b_lock (bufs s i)), b_refcnt := 0\<rparr>"
  define t where "t = s\<lparr>wakeups := wakeups s @ [ChBufLock i], bufs := (bufs s)(i := b), lru := i # remove1 i (lru s)\<rparr>"
  have e: "brelse i s = Ret () t"
    using h by (simp add: brelse_def Let_def upd_buf_def wakeup_call_def t_def b_def)
  have tb: "bufs t = (bufs s)(i := b)" by (simp add: t_def)
  have lr: "distinct (lru s)" "set (lru s) = {..<NBUF}" "H \<subseteq> {..<NBUF}" using assms(1) by (auto simp: binv_def)
  have inv: "binv (H - {i}) t"
  proof (rule binv_upd[OF assms(1) _ tb])
    show "buf_ok (H - {i}) t i" using h assms(2,3) by (auto simp: buf_ok_def t_def b_def releasesleep_def)
    show "j = i" if "has_key b m" "j < NBUF" "has_key (bufs s j) m" for m j
      using binv_uniq[OF assms(1) that(2) _ that(3), of i] h that(1) by (simp add: b_def has_key_def)
    show "set (lru t) = set (lru s)" using lr h by (auto simp: t_def)
  qed (use h lr in \<open>auto simp: t_def distinct_remove1\<close>)
  have "cur t = (cur s)(?n := b_data b)"
    by (rule cur_upd[OF assms(1) inv _ tb]) (use h in \<open>auto simp: t_def b_def has_key_def\<close>)
  then have "cur t = cur s" using cur_cached[OF assms(1) _ held_key[OF assms(1,2)]] h by (simp add: b_def fun_upd_idem_iff)
  moreover have d: "dirty t = dirty s" by (auto simp: dirty_def t_def b_def)
  moreover have "pinned t = pinned s" unfolding pinned_def d by (rule image_cong) (auto simp: t_def b_def)
  ultimately show ?thesis using inv by (simp add: e) (simp add: t_def bio_frame_def b_def has_key_def)
qed

lemma upd_data_ok:
  assumes "binv H s" "i \<in> H" "has_key (bufs s i) n"
  shows "binv H (upd_data i f s)" "cur (upd_data i f s) = (cur s)(n := f (b_data (bufs s i)))"
    "dirty (upd_data i f s) = dirty s" "pinned (upd_data i f s) = pinned s" "bio_frame s (upd_data i f s)"
    "disk (upd_data i f s) = disk s" "dwrites (upd_data i f s) = dwrites s"
    "has_key (bufs (upd_data i f s) i) n" "b_dirty (bufs (upd_data i f s) i) = b_dirty (bufs s i)"
proof -
  note h = binv_held[OF assms(1,2)]
  define b where "b = b_data_update f (bufs s i)"
  let ?t = "upd_data i f s"
  have tb: "bufs ?t = (bufs s)(i := b)" by (simp add: upd_data_def b_def)
  show inv: "binv H ?t"
  proof (rule binv_upd[OF assms(1) _ tb])
    show "buf_ok H ?t i" using h assms(2) by (simp add: buf_ok_def upd_data_def)
    show "j = i" if "has_key b m" "j < NBUF" "has_key (bufs s j) m" for m j
      using binv_uniq[OF assms(1) that(2) _ that(3), of i] h that(1) by (simp add: b_def has_key_def)
  qed (use h assms(1) in \<open>auto simp: upd_data_def binv_def\<close>)
  have "cur ?t = (cur s)(n := b_data b)"
    by (rule cur_upd[OF assms(1) inv _ tb]) (use h assms(3) in \<open>auto simp: upd_data_def b_def has_key_def\<close>)
  then show "cur ?t = (cur s)(n := f (b_data (bufs s i)))" by (simp add: b_def)
  show d: "dirty ?t = dirty s" by (auto simp: dirty_def upd_data_def)
  show "pinned ?t = pinned s" unfolding pinned_def d by (rule image_cong) (auto simp: upd_data_def)
  show "bio_frame s ?t" by (simp add: upd_data_def)
  show "disk ?t = disk s" "dwrites ?t = dwrites s" "has_key (bufs ?t i) n" "b_dirty (bufs ?t i) = b_dirty (bufs s i)"
    using assms(3) by (simp_all add: upd_data_def has_key_def)
qed

end
