(* ===== verification/Log.thy ===== *)
theory Log
  imports Bio
begin

text \<open>
  The write-ahead log, \<^verbatim>\<open>src/log.c\<close>. The in-memory header is the list \<open>lh\<close> of home block
  numbers, its length the count. The on-disk header holds the count and the block numbers as
  32-bit words. \<open>commit\<close> is proved atomic with respect to crashes: whatever prefix of its disk
  writes has happened, recovery leaves either the blocks before the transaction or all of its
  updates.
\<close>

section \<open>Definitions\<close>

record superblock =
  sb_size :: nat
  sb_nblocks :: nat
  sb_ninodes :: nat
  sb_nlog :: nat
  sb_logstart :: nat
  sb_inodestart :: nat
  sb_bmapstart :: nat

definition sb_of_block :: "block \<Rightarrow> superblock" where
  "sb_of_block b = \<lparr>sb_size = unat (blk32 b 0), sb_nblocks = unat (blk32 b 4), sb_ninodes = unat (blk32 b 8),
     sb_nlog = unat (blk32 b 12), sb_logstart = unat (blk32 b 16), sb_inodestart = unat (blk32 b 20), sb_bmapstart = unat (blk32 b 24)\<rparr>"

definition readsb :: "nat \<Rightarrow> 's bio_state_scheme \<Rightarrow> (superblock, 's bio_state_scheme) outcome" where
  "readsb dev s =
     bindO (bread dev 1 s) (\<lambda>bp s.
       let sb = sb_of_block (b_data (bufs s bp))
       in bindO (brelse bp s) (\<lambda>_ s. Ret sb s))"

record log_state = bio_state +
  log_start :: nat
  log_size :: nat
  log_outstanding :: int
  log_committing :: bool
  log_dev :: nat
  lh :: "nat list"

fun install_loop :: "nat \<Rightarrow> nat list \<Rightarrow> 's log_state_scheme \<Rightarrow> (unit, 's log_state_scheme) outcome" where
  "install_loop tail [] s = Ret () s"
| "install_loop tail (b # bs) s =
     bindO (bread (log_dev s) (log_start s + tail + 1) s) (\<lambda>lbuf s.
     bindO (bread (log_dev s) b s) (\<lambda>dbuf s.
     bindO (bwrite dbuf (upd_data dbuf (\<lambda>_. b_data (bufs s lbuf)) s)) (\<lambda>_ s.
     bindO (brelse lbuf s) (\<lambda>_ s.
     bindO (brelse dbuf s) (\<lambda>_ s.
       install_loop (tail + 1) bs s)))))"

definition install_trans :: "'s log_state_scheme \<Rightarrow> (unit, 's log_state_scheme) outcome" where
  "install_trans s = install_loop 0 (lh s) s"

definition read_head :: "'s log_state_scheme \<Rightarrow> (unit, 's log_state_scheme) outcome" where
  "read_head s =
     bindO (bread (log_dev s) (log_start s) s) (\<lambda>buf s.
       let hb = b_data (bufs s buf);
           n = sint (blk32 hb 0)
       in if int LOGSIZE < n then Fault ''log.lh.block''
          else bindO (brelse buf (s\<lparr>lh := map (\<lambda>i. unat (blk32 hb (4 + 4 * i))) [0..<nat n]\<rparr>)) (\<lambda>_ s. Ret () s))"

text \<open>Consecutive words of a block.\<close>

fun put_words :: "nat \<Rightarrow> nat list \<Rightarrow> block \<Rightarrow> block" where
  "put_words k [] b = b"
| "put_words k (w # ws) b = put_words (k + 4) ws (put32 b k (of_nat w))"

definition write_head :: "'s log_state_scheme \<Rightarrow> (unit, 's log_state_scheme) outcome" where
  "write_head s =
     bindO (bread (log_dev s) (log_start s) s) (\<lambda>buf s.
     bindO (bwrite buf (upd_data buf (put_words 0 (length (lh s) # lh s)) s)) (\<lambda>_ s.
       brelse buf s))"

definition recover_from_log :: "'s log_state_scheme \<Rightarrow> (unit, 's log_state_scheme) outcome" where
  "recover_from_log s =
     bindO (read_head s) (\<lambda>_ s.
     bindO (install_trans s) (\<lambda>_ s.
       write_head (s\<lparr>lh := []\<rparr>)))"

definition initlog :: "nat \<Rightarrow> 's log_state_scheme \<Rightarrow> (unit, 's log_state_scheme) outcome" where
  "initlog dev s =
     bindO (readsb dev s) (\<lambda>sb s.
       recover_from_log (s\<lparr>log_start := sb_logstart sb, log_size := sb_nlog sb, log_dev := dev\<rparr>))"

definition begin_op :: "'s log_state_scheme \<Rightarrow> (unit, 's log_state_scheme) outcome" where
  "begin_op s =
     (if log_committing s then Block ChLog s
      else if int (length (lh s)) + (log_outstanding s + 1) * int MAXOPBLOCKS > int LOGSIZE then Block ChLog s
      else Ret () (s\<lparr>log_outstanding := log_outstanding s + 1\<rparr>))"

fun write_log_loop :: "nat \<Rightarrow> nat list \<Rightarrow> 's log_state_scheme \<Rightarrow> (unit, 's log_state_scheme) outcome" where
  "write_log_loop tail [] s = Ret () s"
| "write_log_loop tail (b # bs) s =
     bindO (bread (log_dev s) (log_start s + tail + 1) s) (\<lambda>to s.
     bindO (bread (log_dev s) b s) (\<lambda>from s.
     bindO (bwrite to (upd_data to (\<lambda>_. b_data (bufs s from)) s)) (\<lambda>_ s.
     bindO (brelse from s) (\<lambda>_ s.
     bindO (brelse to s) (\<lambda>_ s.
       write_log_loop (tail + 1) bs s)))))"

definition write_log :: "'s log_state_scheme \<Rightarrow> (unit, 's log_state_scheme) outcome" where
  "write_log s = write_log_loop 0 (lh s) s"

definition commit :: "'s log_state_scheme \<Rightarrow> (unit, 's log_state_scheme) outcome" where
  "commit s =
     (if 0 < length (lh s) then
        bindO (write_log s) (\<lambda>_ s.
        bindO (write_head s) (\<lambda>_ s.
        bindO (install_trans s) (\<lambda>_ s.
          write_head (s\<lparr>lh := []\<rparr>))))
      else Ret () s)"

definition end_op :: "'s log_state_scheme \<Rightarrow> (unit, 's log_state_scheme) outcome" where
  "end_op s =
     (let s = s\<lparr>log_outstanding := log_outstanding s - 1\<rparr>
      in if log_committing s then Panic ''log.committing''
         else if log_outstanding s = 0 then
           bindO (commit (s\<lparr>log_committing := True\<rparr>)) (\<lambda>_ s.
             Ret () (wakeup_call ChLog (s\<lparr>log_committing := False\<rparr>)))
         else Ret () (wakeup_call ChLog s))"

definition log_write :: "nat \<Rightarrow> 's log_state_scheme \<Rightarrow> (unit, 's log_state_scheme) outcome" where
  "log_write b s =
     (if LOGSIZE \<le> length (lh s) \<or> int (log_size s) - 1 \<le> int (length (lh s)) then Panic ''too big a transaction''
      else if log_outstanding s < 1 then Panic ''log_write outside of trans''
      else
        let blockno = b_blockno (bufs s b);
            s = (if blockno \<in> set (lh s) then s else s\<lparr>lh := lh s @ [blockno]\<rparr>)
        in Ret () (upd_buf b (b_dirty_update (\<lambda>_. True)) s))"

section \<open>Words of the header\<close>

lemma put_words_other: "j < k \<or> k + 4 * length ws \<le> j \<Longrightarrow> put_words k ws b j = b j"
  by (induction k ws b rule: put_words.induct) (auto simp: put_at)

lemma blk32_cong: "(\<And>i. k \<le> i \<Longrightarrow> i < k + 4 \<Longrightarrow> b i = c i) \<Longrightarrow> blk32 b k = blk32 c k"
  by (simp add: blk32_def)

lemma blk32_put_words:
  "i < length ws \<Longrightarrow> (\<And>w. w \<in> set ws \<Longrightarrow> w < 2 ^ 32) \<Longrightarrow> unat (blk32 (put_words k ws b) (k + 4 * i)) = ws ! i"
proof (induction k ws b arbitrary: i rule: put_words.induct)
  case (2 k w ws b)
  show ?case
  proof (cases i)
    case 0
    have "blk32 (put_words (k + 4) ws (put32 b k (of_nat w))) k = blk32 (put32 b k (of_nat w)) k"
      by (rule blk32_cong) (simp add: put_words_other)
    then show ?thesis using 0 2(3)[of w] by (simp add: unat_of_nat)
  next
    case (Suc j)
    then show ?thesis using 2(1)[of j] 2(2,3) by (simp add: algebra_simps)
  qed
qed simp

text \<open>The transaction an on-disk header records.\<close>

definition head_list :: "block \<Rightarrow> nat list" where
  "head_list hb = map (\<lambda>i. unat (blk32 hb (4 + 4 * i))) [0..<nat (sint (blk32 hb 0))]"

lemma head_list_put:
  assumes "length ws \<le> LOGSIZE" "\<And>w. w \<in> set ws \<Longrightarrow> w < 2 ^ 32"
  shows "head_list (put_words 0 (length ws # ws) b) = ws" "sint (blk32 (put_words 0 (length ws # ws) b) 0) = int (length ws)"
proof -
  let ?b = "put_words 0 (length ws # ws) b"
  have l: "length ws < 2 ^ 31" using assms(1) by (simp add: LOGSIZE_def MAXOPBLOCKS_def)
  have w: "unat (blk32 ?b (0 + 4 * i)) = (length ws # ws) ! i" if "i < length (length ws # ws)" for i
    using that l by (intro blk32_put_words) (auto dest: assms(2))
  have u: "unat (blk32 ?b 0) = length ws" using w[of 0] by simp
  then show s: "sint (blk32 ?b 0) = int (length ws)" using sint_small[of "blk32 ?b 0"] l by simp
  show "head_list ?b = ws"
    unfolding head_list_def s nat_int by (rule nth_equalityI) (use w[of "Suc _"] in auto)
qed

section \<open>Copying one block\<close>

lemma dirty_key: "binv H s \<Longrightarrow> i \<in> dirty s \<Longrightarrow> i < NBUF \<and> has_key (bufs s i) (b_blockno (bufs s i))"
  using binv_buf[of H s i] by (auto simp: dirty_def buf_ok_def has_key_def)

lemma pinned_cached: "binv H s \<Longrightarrow> n \<in> pinned s \<Longrightarrow> \<exists>i < NBUF. has_key (bufs s i) n"
  using dirty_key[of H s] by (auto simp: pinned_def)

lemma card_dirty: "binv H s \<Longrightarrow> card (dirty s) = card (pinned s)"
  unfolding pinned_def by (rule card_image[symmetric], rule inj_onI) (metis binv_uniq dirty_key)

lemma finite_dirty [simp]: "finite (dirty s)"
  by (simp add: dirty_def)

definition clean :: "'s bio_state_scheme \<Rightarrow> nat \<Rightarrow> bool" where
  "clean s i \<longleftrightarrow> b_dirty (bufs s i) \<or> b_data (bufs s i) = disk s (b_blockno (bufs s i))"

definition two :: "nat \<Rightarrow> nat \<Rightarrow> nat \<Rightarrow> nat \<Rightarrow> 's bio_state_scheme \<Rightarrow> 's bio_state_scheme \<Rightarrow> bool" where
  "two m n i j s t \<longleftrightarrow> i \<noteq> j \<and> binv {i, j} t \<and> has_key (bufs t i) m \<and> has_key (bufs t j) n \<and> b_data (bufs t i) = cur s m
     \<and> b_data (bufs t j) = cur s n \<and> cur t = cur s \<and> disk t = disk s \<and> dwrites t = dwrites s \<and> pinned t = pinned s
     \<and> bio_frame s t \<and> clean t i \<and> clean t j"

lemma two_breads:
  assumes "binv {} s" "m \<noteq> n" "m < disksize s" "n < disksize s" "card (pinned s) < NBUF" "n \<in> pinned s \<or> card (pinned s) + 1 < NBUF"
  shows "runs (bread 1 m s) (\<lambda>i s'. bio_frame s s' \<and> runs (bread 1 n s') (\<lambda>j t. two m n i j s t))"
proof (rule runs_mono)
  show "runs (bread 1 m s) (\<lambda>i t. got {} m i s t)"
    using assms(5) card_dirty[OF assms(1)] by (intro bread_ok[OF assms(1,3)]) auto
  fix i s' assume g: "got {} m i s s'"
  then have inv: "binv {i} s'" and p: "pinned s' = pinned s" "dirty s' = dirty s" and fr: "bio_frame s s'" by (auto simp: got_def)
  have "card (dirty s' \<union> {i}) \<le> card (dirty s) + 1" using card_insert_if[OF finite_dirty, of i s] p(2) by simp
  then have "(\<exists>i < NBUF. has_key (bufs s' i) n) \<or> card (dirty s' \<union> {i}) < NBUF"
    using assms(6) pinned_cached[OF inv] p(1) card_dirty[OF assms(1)] by auto
  moreover have "n < disksize s'" using assms(4) bio_frame_fields(2)[OF fr] by simp
  moreover have "\<not> has_key (bufs s' k) n" if "k \<in> {i}" for k using that g assms(2) by (auto simp: got_def has_key_def)
  ultimately have "runs (bread 1 n s') (\<lambda>j t. got {i} n j s' t)" by (intro bread_ok[OF inv]) auto
  then have "runs (bread 1 n s') (\<lambda>j t. two m n i j s t)"
  proof (rule runs_mono)
    fix j t assume h: "got {i} n j s' t"
    then have e: "j \<noteq> i" "bufs t i = bufs s' i" by (auto simp: got_def)
    have cl: "clean t i" "clean t j" using g h e by (auto simp: got_def clean_def has_key_def)
    have "{i, j} = insert j {i}" by auto
    then have "binv {i, j} t" using h by (simp add: got_def)
    moreover have "bio_frame s' t" using h by (simp add: got_def)
    then have "bio_frame s t" by (rule bio_frame_trans[OF fr])
    ultimately show "two m n i j s t" using g h e cl by (simp add: got_def two_def)
  qed
  with fr show "bio_frame s s' \<and> runs (bread 1 n s') (\<lambda>j t. two m n i j s t)" by simp
qed

lemma write_copy:
  assumes "binv H t" "x \<in> H" "y \<in> H" "x \<noteq> y" "has_key (bufs t x) n"
  shows "runs (bwrite x (upd_data x (\<lambda>_. b_data (bufs t y)) t)) (\<lambda>_ u. binv H u \<and> bufs u y = bufs t y \<and> has_key (bufs u x) n
    \<and> b_data (bufs u x) = disk u n \<and> disk u = (disk t)(n := b_data (bufs t y)) \<and> dwrites u = dwrites t @ [(n, b_data (bufs t y))]
    \<and> cur u = (cur t)(n := b_data (bufs t y)) \<and> pinned u = pinned t - {n} \<and> bio_frame t u)"
proof -
  let ?v = "upd_data x (\<lambda>_. b_data (bufs t y)) t"
  note u = upd_data_ok[OF assms(1,2,5), of "\<lambda>_. b_data (bufs t y)"]
  have d: "b_data (bufs ?v x) = b_data (bufs t y)" "bufs ?v y = bufs t y" using assms(4) by (simp_all add: upd_data_def)
  have x: "x < NBUF" using binv_held[OF assms(1,2)] by simp
  show ?thesis
  proof (rule runs_mono[OF bwrite_ok[OF u(1) assms(2) u(8)]], elim conjE)
    fix w assume w: "binv H w" "bufs w = (bufs ?v)(x := (bufs ?v x)\<lparr>b_dirty := False\<rparr>)"
      "disk w = (disk ?v)(n := b_data (bufs ?v x))" "dwrites w = dwrites ?v @ [(n, b_data (bufs ?v x))]" "cur w = cur ?v" "bio_frame ?v w"
    have dw: "dirty w = dirty ?v - {x}" using w(2) by (auto simp: dirty_def)
    have "pinned w = pinned ?v - {n}"
    proof -
      have "b_blockno (bufs ?v i) = n \<Longrightarrow> i \<in> dirty ?v \<Longrightarrow> i = x" for i
        using dirty_key[OF u(1), of i] binv_uniq[OF u(1) _ x _ u(8), of i] by auto
      moreover have "b_blockno (bufs w i) = b_blockno (bufs ?v i)" for i using w(2) by simp
      moreover have "b_blockno (bufs ?v x) = n" using u(8) by (simp add: has_key_def)
      ultimately show ?thesis unfolding pinned_def dw by auto
    qed
    moreover have "bio_frame t w" by (rule bio_frame_trans[OF u(5) w(6)])
    moreover have "has_key (bufs w x) n" using w(2) u(8) by (simp add: has_key_def)
    ultimately show "binv H w \<and> bufs w y = bufs t y \<and> has_key (bufs w x) n
      \<and> b_data (bufs w x) = disk w n \<and> disk w = (disk t)(n := b_data (bufs t y)) \<and> dwrites w = dwrites t @ [(n, b_data (bufs t y))]
      \<and> cur w = (cur t)(n := b_data (bufs t y)) \<and> pinned w = pinned t - {n} \<and> bio_frame t w"
      using w(1-5) u(2,4,6,7) d assms(4) by simp
  qed
qed

lemma release_two:
  assumes "binv {x, y} u" "x \<noteq> y" "clean u x" "clean u y"
  shows "runs (brelse x u) (\<lambda>_ v. runs (brelse y v) (\<lambda>_ w. binv {} w \<and> cur w = cur u \<and> disk w = disk u \<and> dwrites w = dwrites u
    \<and> pinned w = pinned u \<and> bio_frame u w))"
proof (rule runs_mono[OF brelse_ok[OF assms(1)]])
  fix v assume "binv ({x, y} - {x}) v \<and> cur v = cur u \<and> disk v = disk u \<and> dwrites v = dwrites u
    \<and> dirty v = dirty u \<and> pinned v = pinned u \<and> (\<forall>j. j \<noteq> x \<longrightarrow> bufs v j = bufs u j) \<and> bio_frame u v
    \<and> b_data (bufs v x) = b_data (bufs u x) \<and> (\<forall>n. has_key (bufs v x) n = has_key (bufs u x) n)"
  moreover have "{x, y} - {x} = {y}" using assms(2) by auto
  ultimately have v: "binv {y} v" "cur v = cur u" "disk v = disk u" "dwrites v = dwrites u" "pinned v = pinned u" "bio_frame u v"
      "bufs v y = bufs u y" using assms(2) by auto
  show "runs (brelse y v) (\<lambda>_ w. binv {} w \<and> cur w = cur u \<and> disk w = disk u \<and> dwrites w = dwrites u
    \<and> pinned w = pinned u \<and> bio_frame u w)"
    by (rule runs_mono[OF brelse_ok[OF v(1)]]) (use assms(4) v bio_frame_trans[OF v(6)] in \<open>auto simp: clean_def\<close>)
qed (use assms(3) in \<open>auto simp: clean_def\<close>)

lemma log_frame:
  assumes "bio_frame s t"
  shows "log_start t = log_start s" "log_size t = log_size s" "log_outstanding t = log_outstanding s"
    "log_committing t = log_committing s" "log_dev t = log_dev s" "lh t = lh s"
  by (subst assms[unfolded bio_frame_def], simp)+

definition copied :: "nat \<Rightarrow> nat \<Rightarrow> 's bio_state_scheme \<Rightarrow> 's bio_state_scheme \<Rightarrow> bool" where
  "copied dst src s t \<longleftrightarrow> binv {} t \<and> disk t = (disk s)(dst := cur s src) \<and> dwrites t = dwrites s @ [(dst, cur s src)]
     \<and> cur t = (cur s)(dst := cur s src) \<and> pinned t = pinned s - {dst} \<and> bio_frame s t"

lemma copy_back:
  assumes "two m n i j s t" "x = i \<and> y = j \<and> d = m \<and> r = n \<or> x = j \<and> y = i \<and> d = n \<and> r = m" "p = x \<and> q = y \<or> p = y \<and> q = x" "m \<noteq> n"
  shows "runs (bwrite x (upd_data x (\<lambda>_. b_data (bufs t y)) t)) (\<lambda>_ u. runs (brelse p u) (\<lambda>_ v. runs (brelse q v) (\<lambda>_ w. copied d r s w)))"
proof -
  have h: "binv {i, j} t" "i \<noteq> j" "has_key (bufs t x) d" "has_key (bufs t y) r" "x \<noteq> y" "b_data (bufs t y) = cur s r" "{i, j} = {x, y}"
      "clean t y" "cur t = cur s" "disk t = disk s" "dwrites t = dwrites s" "pinned t = pinned s" "d \<noteq> r"
    using assms(1,2,4) by (auto simp: two_def)
  have fr: "bio_frame s t" using assms(1) by (simp add: two_def)
  have xy: "x \<in> {i, j}" "y \<in> {i, j}" using h(7) by auto
  show ?thesis
  proof (rule runs_mono[OF write_copy[OF h(1) xy h(5,3)]], elim conjE)
    fix u assume u: "binv {i, j} u" "bufs u y = bufs t y" "has_key (bufs u x) d" "b_data (bufs u x) = disk u d"
      "disk u = (disk t)(d := b_data (bufs t y))" "dwrites u = dwrites t @ [(d, b_data (bufs t y))]"
      "cur u = (cur t)(d := b_data (bufs t y))" "pinned u = pinned t - {d}" "bio_frame t u"
    have c: "clean u x" "clean u y" using u(2-5) h(4,8,13) by (auto simp: clean_def has_key_def)
    have pq: "binv {p, q} u" "p \<noteq> q" "clean u p" "clean u q" using u(1) h(5,7) assms(3) c by (auto simp: insert_commute)
    have fru: "bio_frame s u" by (rule bio_frame_trans[OF fr u(9)])
    have "runs (brelse p u) (\<lambda>_ v. runs (brelse q v) (\<lambda>_ w. binv {} w \<and> cur w = cur u \<and> disk w = disk u \<and> dwrites w = dwrites u
        \<and> pinned w = pinned u \<and> bio_frame u w))" by (rule release_two[OF pq])
    then show "runs (brelse p u) (\<lambda>_ v. runs (brelse q v) (\<lambda>_ w. copied d r s w))"
      by (rule runs_mono, elim runs_mono) (use u h fru bio_frame_trans[OF fru] in \<open>auto simp: copied_def\<close>)
  qed
qed

lemma install_loop_step:
  assumes "binv {} s" "log_dev s = 1" "src = log_start s + tail + 1" "src \<noteq> b" "src < disksize s" "b < disksize s"
    "card (pinned s) < NBUF" "b \<in> pinned s \<or> card (pinned s) + 1 < NBUF"
    "\<And>t. copied b src s t \<Longrightarrow> runs (install_loop (tail + 1) bs t) Q"
  shows "runs (install_loop tail (b # bs) s) Q"
proof -
  have br: "runs (bread 1 src s) (\<lambda>i s'. bio_frame s s' \<and> runs (bread 1 b s') (\<lambda>j t. two src b i j s t))"
    by (rule two_breads[OF assms(1,4-8)])
  have "runs (bwrite j (upd_data j (\<lambda>_. b_data (bufs t i)) t)) (\<lambda>_ u. runs (brelse i u) (\<lambda>_ v. runs (brelse j v)
      (\<lambda>_ w. runs (install_loop (tail + 1) bs w) Q)))" if "two src b i j s t" for i j t
  proof -
    have "runs (bwrite j (upd_data j (\<lambda>_. b_data (bufs t i)) t)) (\<lambda>_ u. runs (brelse i u) (\<lambda>_ v. runs (brelse j v) (\<lambda>_ w. copied b src s w)))"
      by (rule copy_back[OF that]) (use assms(4) in auto)
    then show ?thesis by (rule runs_mono, elim runs_mono) (rule assms(9))
  qed
  then have "runs (bread (log_dev s') b s') (\<lambda>j t. runs (bwrite j (upd_data j (\<lambda>_. b_data (bufs t i)) t))
      (\<lambda>_ u. runs (brelse i u) (\<lambda>_ v. runs (brelse j v) (\<lambda>_ w. runs (install_loop (tail + 1) bs w) Q))))"
    if "bio_frame s s' \<and> runs (bread 1 b s') (\<lambda>j t. two src b i j s t)" for i s'
    using that log_frame(5)[of s s'] assms(2) by (auto elim!: runs_mono)
  then show ?thesis unfolding install_loop.simps runs_bindO assms(2) assms(3)[symmetric] by (rule runs_mono[OF br])
qed

lemma write_log_step:
  assumes "binv {} s" "log_dev s = 1" "dst = log_start s + tail + 1" "dst \<noteq> b" "dst < disksize s" "b < disksize s"
    "card (pinned s) < NBUF" "b \<in> pinned s \<or> card (pinned s) + 1 < NBUF"
    "\<And>t. copied dst b s t \<Longrightarrow> runs (write_log_loop (tail + 1) bs t) Q"
  shows "runs (write_log_loop tail (b # bs) s) Q"
proof -
  have br: "runs (bread 1 dst s) (\<lambda>i s'. bio_frame s s' \<and> runs (bread 1 b s') (\<lambda>j t. two dst b i j s t))"
    by (rule two_breads[OF assms(1,4-8)])
  have "runs (bwrite i (upd_data i (\<lambda>_. b_data (bufs t j)) t)) (\<lambda>_ u. runs (brelse j u) (\<lambda>_ v. runs (brelse i v)
      (\<lambda>_ w. runs (write_log_loop (tail + 1) bs w) Q)))" if "two dst b i j s t" for i j t
  proof -
    have "runs (bwrite i (upd_data i (\<lambda>_. b_data (bufs t j)) t)) (\<lambda>_ u. runs (brelse j u) (\<lambda>_ v. runs (brelse i v) (\<lambda>_ w. copied dst b s w)))"
      by (rule copy_back[OF that]) (use assms(4) in auto)
    then show ?thesis by (rule runs_mono, elim runs_mono) (rule assms(9))
  qed
  then have "runs (bread (log_dev s') b s') (\<lambda>j t. runs (bwrite i (upd_data i (\<lambda>_. b_data (bufs t j)) t))
      (\<lambda>_ u. runs (brelse j u) (\<lambda>_ v. runs (brelse i v) (\<lambda>_ w. runs (write_log_loop (tail + 1) bs w) Q))))"
    if "bio_frame s s' \<and> runs (bread 1 b s') (\<lambda>j t. two dst b i j s t)" for i s'
    using that log_frame(5)[of s s'] assms(2) by (auto elim!: runs_mono)
  then show ?thesis unfolding write_log_loop.simps runs_bindO assms(2) assms(3)[symmetric] by (rule runs_mono[OF br])
qed

section \<open>Commit and recovery\<close>

definition apply_writes :: "(nat \<times> block) list \<Rightarrow> (nat \<Rightarrow> block) \<Rightarrow> nat \<Rightarrow> block" where
  "apply_writes ws = fold (\<lambda>(n, b) d. d(n := b)) ws"

lemma apply_writes_simps [simp]:
  "apply_writes [] d = d" "apply_writes ((n, b) # ws) d = apply_writes ws (d(n := b))"
  "apply_writes (ws @ vs) d = apply_writes vs (apply_writes ws d)"
  by (simp_all add: apply_writes_def)

lemma apply_writes_other: "n \<notin> fst ` set ws \<Longrightarrow> apply_writes ws d n = d n"
  by (induction ws arbitrary: d) auto

lemma apply_writes_in:
  "distinct (map fst ws) \<Longrightarrow> (n, b) \<in> set ws \<Longrightarrow> apply_writes ws d n = b"
proof (induction ws arbitrary: d)
  case (Cons w ws)
  then show ?case by (cases w) (auto simp: apply_writes_other)
qed simp

text \<open>A sequence of disk writes with its effect on the disk and on the kernel's view.\<close>

definition wrote :: "(nat \<times> block) list \<Rightarrow> 's bio_state_scheme \<Rightarrow> 's bio_state_scheme \<Rightarrow> bool" where
  "wrote ws s t \<longleftrightarrow> binv {} t \<and> disk t = apply_writes ws (disk s) \<and> dwrites t = dwrites s @ ws \<and> cur t = apply_writes ws (cur s)
     \<and> pinned t = pinned s - fst ` set ws \<and> bio_frame s t"

lemma wrote_refl: "binv {} s \<Longrightarrow> wrote [] s s"
  by (simp add: wrote_def)

lemma wrote_trans: "wrote ws s t \<Longrightarrow> wrote vs t u \<Longrightarrow> wrote (ws @ vs) s u"
  unfolding wrote_def using bio_frame_trans by (auto simp: image_Un)

lemma copied_wrote: "copied dst src s t \<Longrightarrow> wrote [(dst, cur s src)] s t"
  by (simp add: copied_def wrote_def)

lemma wrote_frame:
  assumes "wrote ws s t"
  shows "binv {} t" "log_dev t = log_dev s" "log_start t = log_start s" "disksize t = disksize s" "lh t = lh s"
  using assms log_frame[of s t] bio_frame_fields(2)[of s t] by (auto simp: wrote_def)

definition log_writes :: "nat \<Rightarrow> block list \<Rightarrow> (nat \<times> block) list" where
  "log_writes k cs = zip [k..<k + length cs] cs"

lemma log_writes_simps [simp]: "log_writes k [] = []" "log_writes k (c # cs) = (k, c) # log_writes (Suc k) cs"
  by (simp_all add: log_writes_def upt_conv_Cons del: upt_Suc)

lemma log_writes_fst: "map fst (log_writes k cs) = [k..<k + length cs]"
  by (simp add: log_writes_def)

lemma write_log_loop_ok:
  "binv {} s \<Longrightarrow> log_dev s = 1 \<Longrightarrow> log_start s = start \<Longrightarrow> start + LOGSIZE < disksize s \<Longrightarrow> tail + length bs \<le> LOGSIZE \<Longrightarrow>
    set bs \<subseteq> pinned s \<Longrightarrow> pinned s \<inter> {start..start + LOGSIZE} = {} \<Longrightarrow> (\<And>b. b \<in> pinned s \<Longrightarrow> b < disksize s) \<Longrightarrow> card (pinned s) < NBUF \<Longrightarrow>
    runs (write_log_loop tail bs s) (\<lambda>_ t. wrote (log_writes (start + tail + 1) (map (cur s) bs)) s t)"
proof (induction bs arbitrary: tail s)
  case Nil
  then show ?case by (simp add: wrote_refl)
next
  case (Cons b bs)
  let ?d = "start + tail + 1"
  have b: "b \<in> pinned s" "b \<notin> {start..start + LOGSIZE}" "?d \<in> {start..start + LOGSIZE}" using Cons.prems(5-7) by auto
  show ?case
  proof (rule write_log_step[OF Cons.prems(1,2), of ?d])
    fix t assume "copied ?d b s t"
    then have w: "wrote [(?d, cur s b)] s t" by (rule copied_wrote)
    note f = wrote_frame[OF w]
    have p: "pinned t = pinned s" using w b(3) Cons.prems(7) by (auto simp: wrote_def)
    have c: "cur t x = cur s x" if "x \<in> set bs" for x using w that Cons.prems(6,7) b(3) by (auto simp: wrote_def)
    have r: "runs (write_log_loop (tail + 1) bs t) (\<lambda>_ u. wrote (log_writes (start + (tail + 1) + 1) (map (cur t) bs)) t u)"
      using Cons.prems f p by (intro Cons.IH) auto
    have e: "start + (tail + 1) + 1 = Suc ?d" "map (cur t) bs = map (cur s) bs" using c by auto
    show "runs (write_log_loop (tail + 1) bs t) (\<lambda>_ u. wrote (log_writes (start + tail + 1) (map (cur s) (b # bs))) s u)"
      using wrote_trans[OF w] by (intro runs_mono[OF r[unfolded e]]) simp
  qed (use Cons.prems b in auto)
qed

lemma install_loop_ok:
  "binv {} s \<Longrightarrow> log_dev s = 1 \<Longrightarrow> log_start s = start \<Longrightarrow> start + L < disksize s \<Longrightarrow> tail + length bs \<le> L \<Longrightarrow>
    set bs \<inter> {start..start + L} = {} \<Longrightarrow> (\<And>b. b \<in> set bs \<Longrightarrow> b < disksize s) \<Longrightarrow> card (pinned s) < NBUF \<Longrightarrow>
    distinct bs \<and> set bs \<subseteq> pinned s \<or> card (pinned s) + 1 < NBUF \<Longrightarrow>
    runs (install_loop tail bs s) (\<lambda>_ t. wrote (zip bs (map (cur s) [start + tail + 1..<start + tail + 1 + length bs])) s t)"
proof (induction bs arbitrary: tail s)
  case Nil
  then show ?case by (simp add: wrote_refl)
next
  case (Cons b bs)
  let ?r = "start + tail + 1"
  have b: "b \<notin> {start..start + L}" "?r \<in> {start..start + L}" using Cons.prems(5,6) by auto
  show ?case
  proof (rule install_loop_step[OF Cons.prems(1,2), of ?r])
    fix t assume "copied b ?r s t"
    then have w: "wrote [(b, cur s ?r)] s t" by (rule copied_wrote)
    note f = wrote_frame[OF w]
    have p: "pinned t = pinned s - {b}" using w by (simp add: wrote_def)
    have "finite (pinned s)" by (simp add: pinned_def)
    then have "card (pinned t) \<le> card (pinned s)" unfolding p by (intro card_mono) auto
    moreover have c: "cur t x = cur s x" if "x \<in> {start..start + L}" for x using w that b(1) by (auto simp: wrote_def)
    ultimately have r: "runs (install_loop (tail + 1) bs t)
        (\<lambda>_ u. wrote (zip bs (map (cur t) [start + (tail + 1) + 1..<start + (tail + 1) + 1 + length bs])) t u)"
      using Cons.prems f p by (intro Cons.IH) auto
    have e: "map (cur t) [start + (tail + 1) + 1..<start + (tail + 1) + 1 + length bs] = map (cur s) [Suc ?r..<Suc ?r + length bs]"
    proof -
      have "start + (tail + 1) + 1 = Suc ?r" by simp
      then show ?thesis using c Cons.prems(5) by (simp only:) (intro map_cong, auto)
    qed
    have u: "[?r..<?r + length (b # bs)] = ?r # [Suc ?r..<Suc ?r + length bs]" by (simp add: upt_conv_Cons del: upt_Suc)
    show "runs (install_loop (tail + 1) bs t) (\<lambda>_ u. wrote (zip (b # bs) (map (cur s) [?r..<?r + length (b # bs)])) s u)"
      unfolding u using wrote_trans[OF w] by (intro runs_mono[OF r[unfolded e]]) simp
  qed (use Cons.prems b in auto)
qed

lemma lh_upd [simp]:
  "binv H (s\<lparr>lh := x\<rparr>) = binv H s" "cur (s\<lparr>lh := x\<rparr>) = cur s" "dirty (s\<lparr>lh := x\<rparr>) = dirty s" "pinned (s\<lparr>lh := x\<rparr>) = pinned s"
  by (simp_all add: binv_def buf_ok_def cur_def[abs_def] dirty_def pinned_def cong: option.case_cong)

lemma bio_frame_lh:
  assumes "bio_frame s t"
  shows "bio_frame (s\<lparr>lh := x\<rparr>) (t\<lparr>lh := x\<rparr>)"
proof -
  obtain w b l d v where "t = s\<lparr>wakeups := w, bufs := b, lru := l, disk := d, dwrites := v\<rparr>"
    using assms unfolding bio_frame_alt by blast
  then show ?thesis by (simp add: bio_frame_def)
qed

lemma wrote_lh: "wrote ws s t \<Longrightarrow> wrote ws (s\<lparr>lh := x\<rparr>) (t\<lparr>lh := x\<rparr>)"
  by (simp add: wrote_def bio_frame_lh)

lemma finite_pinned [simp]: "finite (pinned s)"
  by (simp add: pinned_def)

lemma cur_unpinned:
  assumes "binv {} s" "n \<notin> pinned s"
  shows "cur s n = disk s n"
proof (cases "\<exists>i < NBUF. has_key (bufs s i) n \<and> b_valid (bufs s i)")
  case True
  then obtain i where i: "i < NBUF" "has_key (bufs s i) n" "b_valid (bufs s i)" by blast
  then have "\<not> b_dirty (bufs s i)" using assms(2) by (auto simp: pinned_def dirty_def has_key_def)
  then show ?thesis using cur_cached[OF assms(1) i] binv_buf[OF assms(1) i(1)] i by (auto simp: buf_ok_def has_key_def)
next
  case False
  then show ?thesis by (intro cur_uncached) blast
qed

lemma bread_one:
  assumes "binv {} s" "n < disksize s" "card (pinned s) < NBUF"
  shows "runs (bread 1 n s) (\<lambda>i t. got {} n i s t)"
  using assms(3) card_dirty[OF assms(1)] by (intro bread_ok[OF assms(1,2)]) auto

lemma write_block:
  assumes "binv {} s" "n < disksize s" "card (pinned s) < NBUF"
  shows "runs (bread 1 n s) (\<lambda>i t. bio_frame s t \<and> runs (bwrite i (upd_data i f t)) (\<lambda>_ u. runs (brelse i u) (\<lambda>_ v. wrote [(n, f (cur s n))] s v)))"
proof (rule runs_mono[OF bread_one[OF assms]])
  fix i t assume g: "got {} n i s t"
  then have h: "binv {i} t" "i \<in> {i}" "has_key (bufs t i) n" "b_data (bufs t i) = cur s n" "bio_frame s t" "i < NBUF" by (auto simp: got_def)
  note u = upd_data_ok[OF h(1-3), of f]
  have "runs (bwrite i (upd_data i f t)) (\<lambda>_ v. runs (brelse i v) (\<lambda>_ w. wrote [(n, f (cur s n))] s w))"
  proof (rule runs_mono[OF bwrite_ok[OF u(1) h(2) u(8)]], elim conjE)
    let ?v = "upd_data i f t"
    fix w assume w: "binv {i} w" "bufs w = (bufs ?v)(i := (bufs ?v i)\<lparr>b_dirty := False\<rparr>)"
      "disk w = (disk ?v)(n := b_data (bufs ?v i))" "dwrites w = dwrites ?v @ [(n, b_data (bufs ?v i))]" "cur w = cur ?v" "bio_frame ?v w"
    have dv: "b_data (bufs ?v i) = f (cur s n)" using h(4) by (simp add: upd_data_def)
    have dw: "dirty w = dirty ?v - {i}" using w(2) by (auto simp: dirty_def)
    have pw: "pinned w = pinned s - {n}"
    proof -
      have "b_blockno (bufs ?v j) = n \<Longrightarrow> j \<in> dirty ?v \<Longrightarrow> j = i" for j
        using dirty_key[OF u(1), of j] binv_uniq[OF u(1) _ h(6) _ u(8), of j] by auto
      moreover have "b_blockno (bufs w j) = b_blockno (bufs ?v j)" for j using w(2) by simp
      moreover have "b_blockno (bufs ?v i) = n" using u(8) by (simp add: has_key_def)
      ultimately have "pinned w = pinned ?v - {n}" unfolding pinned_def dw by auto
      then show ?thesis using u(4) g by (simp add: got_def)
    qed
    have fr: "bio_frame s w" by (rule bio_frame_trans[OF bio_frame_trans[OF h(5) u(5)] w(6)])
    have cl: "b_dirty (bufs w i) \<or> b_data (bufs w i) = disk w (b_blockno (bufs w i))"
      using w(2,3) u(8) by (simp add: has_key_def)
    show "runs (brelse i w) (\<lambda>_ x. wrote [(n, f (cur s n))] s x)"
      by (rule runs_mono[OF brelse_ok[OF w(1) h(2) cl]])
        (use w u dv pw g fr bio_frame_trans[OF fr] in \<open>auto simp: wrote_def got_def\<close>)
  qed
  with h(5) show "bio_frame s t \<and> runs (bwrite i (upd_data i f t)) (\<lambda>_ u. runs (brelse i u) (\<lambda>_ v. wrote [(n, f (cur s n))] s v))" by simp
qed

lemma write_head_ok:
  assumes "binv {} s" "log_dev s = 1" "log_start s < disksize s" "card (pinned s) < NBUF"
  shows "runs (write_head s) (\<lambda>_ t. wrote [(log_start s, put_words 0 (length (lh s) # lh s) (cur s (log_start s)))] s t)"
  unfolding write_head_def runs_bindO assms(2)
  by (rule runs_mono[OF write_block[OF assms(1,3,4), of "put_words 0 (length (lh s) # lh s)"]]) (auto simp: log_frame(6))

lemma wrote_card: "wrote ws s t \<Longrightarrow> card (pinned s) < NBUF \<Longrightarrow> card (pinned t) < NBUF"
  using card_mono[OF finite_pinned, of "pinned t" s] by (auto simp: wrote_def)

text \<open>The log is in order: pinned blocks are the ones of the transaction, all outside the log.\<close>

definition log_ok :: "'s log_state_scheme \<Rightarrow> bool" where
  "log_ok s \<longleftrightarrow> binv {} s \<and> log_dev s = 1 \<and> log_start s + LOGSIZE < disksize s \<and> disksize s \<le> 2 ^ 32
     \<and> distinct (lh s) \<and> pinned s = set (lh s) \<and> set (lh s) \<inter> {log_start s..log_start s + LOGSIZE} = {}
     \<and> (\<forall>b \<in> set (lh s). b < disksize s) \<and> length (lh s) < LOGSIZE"

definition commit_writes :: "'s log_state_scheme \<Rightarrow> (nat \<times> block) list" where
  "commit_writes s =
     (let hd1 = put_words 0 (length (lh s) # lh s) (cur s (log_start s))
      in log_writes (log_start s + 1) (map (cur s) (lh s)) @ [(log_start s, hd1)] @ zip (lh s) (map (cur s) (lh s))
         @ [(log_start s, put_words 0 [0] hd1)])"

lemma log_writes_read:
  assumes "i < length cs"
  shows "apply_writes (log_writes k cs) d (k + i) = cs ! i"
proof -
  have "log_writes k cs ! i = (k + i, cs ! i)" using assms by (simp add: log_writes_def)
  moreover have "log_writes k cs ! i \<in> set (log_writes k cs)" using assms by (intro nth_mem) (simp add: log_writes_def)
  ultimately show ?thesis using log_writes_fst[of k cs] by (intro apply_writes_in) simp_all
qed

lemma log_writes_other: "n < k \<or> k + length cs \<le> n \<Longrightarrow> apply_writes (log_writes k cs) d n = d n"
proof (rule apply_writes_other)
  assume "n < k \<or> k + length cs \<le> n"
  moreover have "fst ` set (log_writes k cs) = set [k..<k + length cs]" using log_writes_fst[of k cs] by (metis set_map)
  ultimately show "n \<notin> fst ` set (log_writes k cs)" by auto
qed

lemma commit_ok:
  assumes "log_ok s" "lh s \<noteq> []"
  shows "runs (commit s) (\<lambda>_ t. lh t = [] \<and> wrote (commit_writes s) (s\<lparr>lh := []\<rparr>) t)"
proof -
  let ?st = "log_start s" and ?cs = "map (cur s) (lh s)"
  define hd1 where "hd1 = put_words 0 (length (lh s) # lh s) (cur s ?st)"
  define W1 where "W1 = log_writes (?st + 1) ?cs"
  note ok = assms(1)[unfolded log_ok_def]
  have N: "NBUF = LOGSIZE" by (simp add: NBUF_def LOGSIZE_def)
  have cp: "card (pinned s) < NBUF" using ok distinct_card[of "lh s"] N by simp
  have a: "runs (write_log s) (\<lambda>_ t. wrote W1 s t)"
    using write_log_loop_ok[of s ?st 0 "lh s"] ok cp by (simp add: write_log_def W1_def)
  have w1: "cur t ?st = cur s ?st \<and> (\<forall>i < length (lh s). cur t (?st + 1 + i) = ?cs ! i)" if "wrote W1 s t" for t :: "'a log_state_scheme"
    using that log_writes_other[of ?st "?st + 1" ?cs] log_writes_read[of _ ?cs "?st + 1"] by (auto simp: wrote_def W1_def)
  have step3: "runs (install_trans t) (\<lambda>_ u. wrote (W1 @ [(?st, hd1)] @ zip (lh s) ?cs) s u)"
    if t: "wrote (W1 @ [(?st, hd1)]) s t" for t
  proof -
    note f = wrote_frame[OF t]
    have "fst ` set (W1 @ [(?st, hd1)]) \<subseteq> {?st..?st + LOGSIZE}"
      using ok log_writes_fst[of "?st + 1" ?cs] by (auto simp: W1_def log_writes_def set_zip)
    then have p: "pinned t = pinned s" using t ok by (auto simp: wrote_def)
    have c: "map (cur t) [?st + 0 + 1..<?st + 0 + 1 + length (lh s)] = ?cs"
      using t log_writes_read[of _ ?cs "?st + 1"] by (auto simp: wrote_def W1_def intro!: nth_equalityI)
    have "runs (install_loop 0 (lh t) t) (\<lambda>_ u. wrote (zip (lh s) (map (cur t) [?st + 0 + 1..<?st + 0 + 1 + length (lh s)])) t u)"
      using install_loop_ok[of t ?st LOGSIZE 0 "lh s"] f ok cp p by simp
    then show ?thesis unfolding install_trans_def c using wrote_trans[OF t] by (elim runs_mono) simp
  qed
  have step4: "runs (write_head (u\<lparr>lh := []\<rparr>)) (\<lambda>_ v. lh v = [] \<and> wrote (commit_writes s) (s\<lparr>lh := []\<rparr>) v)"
    if u: "wrote (W1 @ [(?st, hd1)] @ zip (lh s) ?cs) s u" for u
  proof -
    note f = wrote_frame[OF u]
    have "fst ` set (zip (lh s) ?cs) \<subseteq> set (lh s)" by (auto simp: set_zip)
    moreover have "?st \<in> {?st..?st + LOGSIZE}" by simp
    ultimately have "?st \<notin> fst ` set (zip (lh s) ?cs)" using ok by blast
    then have c: "cur u ?st = hd1" using u by (simp add: wrote_def apply_writes_other)
    have "runs (write_head (u\<lparr>lh := []\<rparr>)) (\<lambda>_ v. wrote [(?st, put_words 0 [0] hd1)] (u\<lparr>lh := []\<rparr>) v)"
      using write_head_ok[of "u\<lparr>lh := []\<rparr>"] f ok wrote_card[OF u cp] c by simp
    then show ?thesis
    proof (rule runs_mono)
      fix v assume v: "wrote [(?st, put_words 0 [0] hd1)] (u\<lparr>lh := []\<rparr>) v"
      have "wrote ((W1 @ [(?st, hd1)] @ zip (lh s) ?cs) @ [(?st, put_words 0 [0] hd1)]) (s\<lparr>lh := []\<rparr>) v"
        by (rule wrote_trans[OF wrote_lh[OF u] v])
      then show "lh v = [] \<and> wrote (commit_writes s) (s\<lparr>lh := []\<rparr>) v"
        using wrote_frame(5)[OF v] by (simp add: commit_writes_def W1_def hd1_def Let_def)
    qed
  qed
  have step2: "runs (write_head t) (\<lambda>_ u. wrote (W1 @ [(?st, hd1)]) s u)" if t: "wrote W1 s t" for t
  proof -
    note f = wrote_frame[OF t]
    have "runs (write_head t) (\<lambda>_ u. wrote [(?st, hd1)] t u)"
      using write_head_ok[of t] f ok wrote_card[OF t cp] w1[OF t] by (simp add: hd1_def)
    then show ?thesis using wrote_trans[OF t] by (elim runs_mono) simp
  qed
  show ?thesis using assms(2) unfolding commit_def
    by simp (rule runs_mono[OF a], rule runs_mono[OF step2], assumption, rule runs_mono[OF step3], assumption, rule step4)
qed

lemma read_head_ok:
  assumes "binv {} s" "log_dev s = 1" "log_start s < disksize s" "card (pinned s) < NBUF" "sint (blk32 (cur s (log_start s)) 0) \<le> int LOGSIZE"
  shows "runs (read_head s) (\<lambda>_ t. lh t = head_list (cur s (log_start s)) \<and> wrote [] (s\<lparr>lh := lh t\<rparr>) t)"
  unfolding read_head_def runs_bindO assms(2)
proof (rule runs_mono[OF bread_one[OF assms(1,3,4)]])
  let ?hb = "cur s (log_start s)"
  fix i t assume g: "got {} (log_start s) i s t"
  let ?u = "t\<lparr>lh := head_list ?hb\<rparr>"
  have h: "binv {i} ?u" "i \<in> {i}" "b_dirty (bufs ?u i) \<or> b_data (bufs ?u i) = disk ?u (b_blockno (bufs ?u i))" "b_data (bufs t i) = ?hb"
    using g by (auto simp: got_def has_key_def)
  have fr: "bio_frame (s\<lparr>lh := head_list ?hb\<rparr>) ?u" using g by (intro bio_frame_lh) (simp add: got_def)
  have "runs (brelse i ?u) (\<lambda>_ v. lh v = head_list ?hb \<and> wrote [] (s\<lparr>lh := lh v\<rparr>) v)"
  proof (rule runs_mono[OF brelse_ok[OF h(1-3)]], elim conjE)
    fix v assume v: "binv ({i} - {i}) v" "cur v = cur ?u" "disk v = disk ?u" "dwrites v = dwrites ?u" "pinned v = pinned ?u" "bio_frame ?u v"
    have "lh v = head_list ?hb" using log_frame(6)[OF v(6)] by simp
    moreover have "bio_frame (s\<lparr>lh := head_list ?hb\<rparr>) v" by (rule bio_frame_trans[OF fr v(6)])
    ultimately show "lh v = head_list ?hb \<and> wrote [] (s\<lparr>lh := lh v\<rparr>) v" using v(1-5) g by (simp add: wrote_def got_def)
  qed
  then show "runs (let hb = b_data (bufs t i); n = sint (blk32 hb 0)
      in if int LOGSIZE < n then Fault ''log.lh.block''
         else bindO (brelse i (t\<lparr>lh := map (\<lambda>i. unat (blk32 hb (4 + 4 * i))) [0..<nat n]\<rparr>)) (\<lambda>_ s. Ret () s))
     (\<lambda>_ v. lh v = head_list ?hb \<and> wrote [] (s\<lparr>lh := lh v\<rparr>) v)"
    using assms(5) by (simp add: h(4) Let_def head_list_def)
qed

lemma recover_ok:
  assumes "binv {} s" "log_dev s = 1" "log_start s + LOGSIZE < disksize s" "pinned s = {}"
    "sint (blk32 (cur s (log_start s)) 0) \<le> int LOGSIZE" "hl = head_list (cur s (log_start s))"
    "set hl \<inter> {log_start s..log_start s + LOGSIZE} = {}" "\<And>b. b \<in> set hl \<Longrightarrow> b < disksize s"
  shows "runs (recover_from_log s) (\<lambda>_ t. lh t = [] \<and>
    wrote (zip hl (map (cur s) [log_start s + 1..<log_start s + 1 + length hl]) @ [(log_start s, put_words 0 [0] (cur s (log_start s)))]) (s\<lparr>lh := []\<rparr>) t)"
proof -
  let ?st = "log_start s" and ?W = "zip hl (map (cur s) [log_start s + 1..<log_start s + 1 + length hl])"
  have c: "card (pinned s) < NBUF" "card (pinned s) + 1 < NBUF" using assms(4) by (simp_all add: NBUF_def MAXOPBLOCKS_def)
  have ll: "length hl \<le> LOGSIZE" using assms(5,6) by (simp add: head_list_def)
  have i: "runs (install_trans t) (\<lambda>_ u. wrote ?W (s\<lparr>lh := hl\<rparr>) u)" if t: "lh t = hl" "wrote [] (s\<lparr>lh := hl\<rparr>) t" for t
  proof -
    note f = wrote_frame[OF t(2)]
    have "runs (install_loop 0 hl t) (\<lambda>_ u. wrote (zip hl (map (cur t) [?st + 0 + 1..<?st + 0 + 1 + length hl])) t u)"
      by (rule install_loop_ok[where L = LOGSIZE]) (use f assms(2,3,7,8) ll c t in \<open>auto simp: wrote_def\<close>)
    moreover have "cur t = cur s" using t(2) by (simp add: wrote_def)
    ultimately show ?thesis unfolding install_trans_def t(1) using wrote_trans[OF t(2)] by (elim runs_mono) simp
  qed
  have w: "runs (write_head (u\<lparr>lh := []\<rparr>)) (\<lambda>_ v. lh v = [] \<and> wrote (?W @ [(?st, put_words 0 [0] (cur s ?st))]) (s\<lparr>lh := []\<rparr>) v)"
    if u: "wrote ?W (s\<lparr>lh := hl\<rparr>) u" for u
  proof -
    note f = wrote_frame[OF u]
    have "fst ` set ?W \<subseteq> set hl" by (auto simp: set_zip)
    moreover have "?st \<in> {?st..?st + LOGSIZE}" by simp
    ultimately have "?st \<notin> fst ` set ?W" using assms(7) by blast
    then have "cur u ?st = cur s ?st" using u by (simp add: wrote_def apply_writes_other)
    moreover have "pinned u = {}" using u assms(4) by (simp add: wrote_def)
    ultimately have "runs (write_head (u\<lparr>lh := []\<rparr>)) (\<lambda>_ v. wrote [(?st, put_words 0 [0] (cur s ?st))] (u\<lparr>lh := []\<rparr>) v)"
      using write_head_ok[of "u\<lparr>lh := []\<rparr>"] f assms(2,3) c assms(4) by simp
    moreover have "wrote ?W (s\<lparr>lh := []\<rparr>) (u\<lparr>lh := []\<rparr>)" using wrote_lh[OF u, of "[]"] by simp
    ultimately show ?thesis by (elim runs_mono) (auto intro: wrote_trans dest: wrote_frame(5))
  qed
  have "log_start s < disksize s" using assms(3) by simp
  from read_head_ok[OF assms(1,2) this c(1) assms(5)]
  show ?thesis unfolding recover_from_log_def runs_bindO
  proof (rule runs_mono)
    fix t assume "lh t = head_list (cur s ?st) \<and> wrote [] (s\<lparr>lh := lh t\<rparr>) t"
    then have "lh t = hl" "wrote [] (s\<lparr>lh := hl\<rparr>) t" using assms(6) by auto
    from runs_mono[OF i[OF this] w]
    show "runs (install_trans t) (\<lambda>_ u. runs (write_head (u\<lparr>lh := []\<rparr>)) (\<lambda>_ v. lh v = []
      \<and> wrote (?W @ [(?st, put_words 0 [0] (cur s ?st))]) (s\<lparr>lh := []\<rparr>) v))" .
  qed
qed

text \<open>A crash loses the memory and keeps the disk; the machine starts with an empty cache.\<close>

definition blank_buf :: buf where
  "blank_buf = \<lparr>b_valid = False, b_dirty = False, b_dev = 0, b_blockno = 0, b_lock = initsleeplock, b_refcnt = 0, b_data = (\<lambda>_. 0)\<rparr>"

definition reboot :: "(nat \<Rightarrow> block) \<Rightarrow> 's log_state_scheme \<Rightarrow> 's log_state_scheme" where
  "reboot d s = binit (s\<lparr>bufs := (\<lambda>_. blank_buf), disk := d, lh := [], log_outstanding := 0, log_committing := False\<rparr>)"

lemma binit_fold:
  "\<exists>b. fold (\<lambda>b s. upd_buf b (b_lock_update (\<lambda>_. initsleeplock)) (s\<lparr>lru := b # lru s\<rparr>)) bs s = s\<lparr>bufs := b, lru := rev bs @ lru s\<rparr>
     \<and> (\<forall>i. b i = (if i \<in> set bs then (bufs s i)\<lparr>b_lock := initsleeplock\<rparr> else bufs s i))"
proof (induction bs arbitrary: s)
  case Nil
  then show ?case by (intro exI[of _ "bufs s"]) simp
next
  case (Cons x bs)
  let ?t = "upd_buf x (b_lock_update (\<lambda>_. initsleeplock)) (s\<lparr>lru := x # lru s\<rparr>)"
  from Cons[of ?t] obtain b where b: "fold (\<lambda>b s. upd_buf b (b_lock_update (\<lambda>_. initsleeplock)) (s\<lparr>lru := b # lru s\<rparr>)) bs ?t = ?t\<lparr>bufs := b, lru := rev bs @ lru ?t\<rparr>"
    "\<forall>i. b i = (if i \<in> set bs then (bufs ?t i)\<lparr>b_lock := initsleeplock\<rparr> else bufs ?t i)" by blast
  show ?case
  proof (intro exI[of _ b] conjI)
    show "fold (\<lambda>b s. upd_buf b (b_lock_update (\<lambda>_. initsleeplock)) (s\<lparr>lru := b # lru s\<rparr>)) (x # bs) s = s\<lparr>bufs := b, lru := rev (x # bs) @ lru s\<rparr>"
      using b(1) by (simp add: upd_buf_def)
    show "\<forall>i. b i = (if i \<in> set (x # bs) then (bufs s i)\<lparr>b_lock := initsleeplock\<rparr> else bufs s i)"
      using b(2) by simp
  qed
qed

lemma reboot_ok:
  "binv {} (reboot d s)" "pinned (reboot d s) = {}" "cur (reboot d s) = d" "disk (reboot d s) = d" "disksize (reboot d s) = disksize s"
  "log_dev (reboot d s) = log_dev s" "log_start (reboot d s) = log_start s"
proof -
  let ?s = "s\<lparr>bufs := (\<lambda>_. blank_buf), disk := d, lh := [], log_outstanding := 0, log_committing := False\<rparr>"
  obtain b where b: "reboot d s = ?s\<lparr>lru := [], bufs := b, lru := rev [0..<NBUF]\<rparr>" "\<forall>i. b i = blank_buf"
    using binit_fold[of "[0..<NBUF]" "?s\<lparr>lru := []\<rparr>"] by (auto simp: reboot_def binit_def blank_buf_def)
  show "binv {} (reboot d s)" using b by (auto simp: binv_def buf_ok_def blank_buf_def initsleeplock_def has_key_def)
  show "pinned (reboot d s) = {}" using b by (simp add: pinned_def dirty_def blank_buf_def)
  have "cur (reboot d s) n = d n" for n using b by (subst cur_uncached) (auto simp: blank_buf_def)
  then show "cur (reboot d s) = d" ..
qed (use binit_fold[of "[0..<NBUF]" "s\<lparr>bufs := (\<lambda>_. blank_buf), disk := d, lh := [], log_outstanding := 0, log_committing := False, lru := []\<rparr>"]
    in \<open>auto simp: reboot_def binit_def\<close>)

text \<open>
  The disk after some of the writes of a commit: either the header is still the empty one and no
  home block has changed, or the header names the transaction and the log holds it, or
  the header is empty again and every home block is up to date.
\<close>

definition log_area :: "'s log_state_scheme \<Rightarrow> nat set" where
  "log_area s = {log_start s..log_start s + LOGSIZE}"

lemma apply_zip_in:
  "distinct bs \<Longrightarrow> b \<in> set bs \<Longrightarrow> apply_writes (zip bs (map f bs)) d b = f b"
  by (rule apply_writes_in) (auto simp: set_zip in_set_conv_nth)

lemma log_part_other:
  assumes "log_ok s" "set ws \<subseteq> set (log_writes (log_start s + 1) (map (cur s) (lh s)))" "n = log_start s \<or> n \<notin> log_area s"
  shows "apply_writes ws d n = d n"
proof (rule apply_writes_other)
  have "fst ` set (log_writes (log_start s + 1) (map (cur s) (lh s))) = {log_start s + 1..<log_start s + 1 + length (lh s)}"
    using log_writes_fst[of "log_start s + 1" "map (cur s) (lh s)"] by (metis length_map set_map set_upt)
  with image_mono[OF assms(2), of fst] have "fst ` set ws \<subseteq> {log_start s + 1..<log_start s + 1 + length (lh s)}" by simp
  moreover have "n \<notin> {log_start s + 1..<log_start s + 1 + length (lh s)}" using assms(1,3) by (auto simp: log_area_def log_ok_def)
  ultimately show "n \<notin> fst ` set ws" by blast
qed

lemma home_part_other:
  assumes "set ws \<subseteq> set (zip (lh s) cs)" "n \<notin> set (lh s)"
  shows "apply_writes ws d n = d n"
proof (rule apply_writes_other)
  have "fst ` set (zip (lh s) cs) \<subseteq> set (lh s)" by (auto simp: set_zip)
  with image_mono[OF assms(1), of fst] assms(2) show "n \<notin> fst ` set ws" by blast
qed

lemma commit_applied:
  assumes "log_ok s" "n \<notin> log_area s"
  shows "apply_writes (commit_writes s) (disk s) n = cur s n"
proof -
  have st: "n \<noteq> log_start s" using assms(2) by (auto simp: log_area_def)
  show ?thesis
  proof (cases "n \<in> set (lh s)")
    case True
    then show ?thesis using apply_zip_in[of "lh s" n] assms(1) st
      by (simp add: commit_writes_def Let_def log_ok_def del: put_words.simps)
  next
    case False
    then have "cur s n = disk s n" using assms(1) by (intro cur_unpinned) (auto simp: log_ok_def)
    then show ?thesis
      using home_part_other[OF order_refl False] log_part_other[OF assms(1) order_refl] assms(2) st
      by (simp add: commit_writes_def Let_def del: put_words.simps)
  qed
qed

lemma commit_prefix:
  assumes "log_ok s" "d = apply_writes (take k (commit_writes s)) (disk s)"
  shows "(d (log_start s) = disk s (log_start s) \<and> (\<forall>n. n \<notin> log_area s \<longrightarrow> d n = disk s n))
    \<or> (d (log_start s) = put_words 0 (length (lh s) # lh s) (cur s (log_start s))
        \<and> map d [log_start s + 1..<log_start s + 1 + length (lh s)] = map (cur s) (lh s) \<and> (\<forall>n. n \<notin> log_area s \<longrightarrow> n \<notin> set (lh s) \<longrightarrow> d n = disk s n))
    \<or> (d (log_start s) = put_words 0 [0] (put_words 0 (length (lh s) # lh s) (cur s (log_start s))) \<and> (\<forall>n. n \<notin> log_area s \<longrightarrow> d n = cur s n))"
proof -
  let ?st = "log_start s" and ?cs = "map (cur s) (lh s)" and ?n = "length (lh s)"
  define hd1 where "hd1 = put_words 0 (?n # lh s) (cur s ?st)"
  define hd0 where "hd0 = put_words 0 [0] hd1"
  define W1 where "W1 = log_writes (?st + 1) ?cs"
  define W2 where "W2 = zip (lh s) ?cs"
  note ok = assms(1)[unfolded log_ok_def]
  have W: "commit_writes s = W1 @ [(?st, hd1)] @ W2 @ [(?st, hd0)]" by (simp add: commit_writes_def Let_def W1_def W2_def hd1_def hd0_def)
  have l: "length W1 = ?n" "length W2 = ?n" by (simp_all add: W1_def W2_def log_writes_def)
  have o1: "apply_writes ws e n = e n" if "set ws \<subseteq> set W1" "n = ?st \<or> n \<notin> log_area s" for ws e n
    using log_part_other[OF assms(1)] that unfolding W1_def by blast
  have o2: "apply_writes ws e n = e n" if "set ws \<subseteq> set W2" "n \<notin> set (lh s)" for ws e n
    using home_part_other that unfolding W2_def by blast
  have area: "n \<notin> set (lh s)" if "n \<in> log_area s" for n using ok that by (auto simp: log_area_def)
  consider "k \<le> ?n" | "?n < k" "k \<le> 2 * ?n + 1" | "2 * ?n + 1 < k" by linarith
  then show ?thesis
  proof cases
    case 1
    then have "d = apply_writes (take k W1) (disk s)" using assms(2) l by (simp add: W)
    then show ?thesis using o1[OF set_take_subset] by simp
  next
    case 2
    then have "take k (commit_writes s) = W1 @ [(?st, hd1)] @ take (k - ?n - 1) W2"
      using l by (simp add: W take_Cons' )
    then have d: "d = apply_writes (take (k - ?n - 1) W2) ((apply_writes W1 (disk s))(?st := hd1))" using assms(2) by simp
    have s2: "set (take (k - ?n - 1) W2) \<subseteq> set W2" by (rule set_take_subset)
    have "d ?st = hd1" using o2[OF s2] area[of ?st] by (simp add: d log_area_def)
    moreover have "map d [?st + 1..<?st + 1 + ?n] = ?cs"
    proof (rule nth_equalityI)
      fix i assume "i < length (map d [?st + 1..<?st + 1 + ?n])"
      then have i: "i < ?n" by simp
      then have "?st + 1 + i \<in> log_area s" using ok by (simp add: log_area_def)
      then have "d (?st + 1 + i) = apply_writes W1 (disk s) (?st + 1 + i)" using o2[OF s2 area] by (simp add: d)
      then show "map d [?st + 1..<?st + 1 + ?n] ! i = ?cs ! i" using i log_writes_read[of i ?cs "?st + 1"] by (simp add: W1_def)
    qed simp
    moreover have "d n = disk s n" if "n \<notin> log_area s" "n \<notin> set (lh s)" for n
    proof -
      have "n \<noteq> ?st" using that(1) by (auto simp: log_area_def)
      then show ?thesis using o2[OF s2 that(2)] o1[of W1 n] that(1) by (simp add: d)
    qed
    ultimately show ?thesis by (simp add: hd1_def)
  next
    case 3
    then have "take k (commit_writes s) = commit_writes s" using l by (simp add: W)
    then have d: "d = (apply_writes W2 ((apply_writes W1 (disk s))(?st := hd1)))(?st := hd0)" using assms(2) by (simp add: W)
    have "d n = cur s n" if "n \<notin> log_area s" for n
      using commit_applied[OF assms(1) that] \<open>take k (commit_writes s) = commit_writes s\<close> assms(2) by simp
    moreover have "d ?st = hd0" by (simp add: d)
    ultimately show ?thesis by (simp add: hd0_def hd1_def)
  qed
qed

lemma head_list_zero: "head_list (put_words 0 [0] b) = []" "sint (blk32 (put_words 0 [0] b) 0) = 0"
  using head_list_put[of "[]" b] by simp_all

lemma recover_empty:
  assumes "log_dev s = 1" "log_start s + LOGSIZE < disksize s" "head_list (d (log_start s)) = []"
  shows "runs (recover_from_log (reboot d s)) (\<lambda>_ t. (\<forall>n. n \<notin> log_area s \<longrightarrow> disk t n = d n) \<and> head_list (disk t (log_start s)) = [])"
proof -
  have "sint (blk32 (d (log_start s)) 0) \<le> int LOGSIZE" using assms(3) by (simp add: head_list_def)
  then have "runs (recover_from_log (reboot d s)) (\<lambda>_ t. lh t = [] \<and>
      wrote [(log_start s, put_words 0 [0] (d (log_start s)))] ((reboot d s)\<lparr>lh := []\<rparr>) t)"
    using recover_ok[of "reboot d s" "[]"] assms by (simp add: reboot_ok)
  then show ?thesis by (elim runs_mono) (auto simp: wrote_def reboot_ok log_area_def head_list_zero simp del: put_words.simps)
qed

lemma recover_committed:
  assumes "log_ok s" "d (log_start s) = put_words 0 (length (lh s) # lh s) b"
    "map d [log_start s + 1..<log_start s + 1 + length (lh s)] = map (cur s) (lh s)"
    "\<And>n. n \<notin> log_area s \<Longrightarrow> n \<notin> set (lh s) \<Longrightarrow> d n = disk s n"
  shows "runs (recover_from_log (reboot d s)) (\<lambda>_ t. (\<forall>n. n \<notin> log_area s \<longrightarrow> disk t n = cur s n) \<and> head_list (disk t (log_start s)) = [])"
proof -
  let ?st = "log_start s"
  note ok = assms(1)[unfolded log_ok_def]
  have w: "w < 2 ^ 32" if "w \<in> set (lh s)" for w using ok that by force
  have hl: "head_list (d ?st) = lh s" "sint (blk32 (d ?st) 0) \<le> int LOGSIZE"
    unfolding assms(2) using ok head_list_put[of "lh s" b, OF _ w] by (simp_all del: put_words.simps)
  have "runs (recover_from_log (reboot d s)) (\<lambda>_ t. lh t = [] \<and>
      wrote (zip (lh s) (map (cur s) (lh s)) @ [(?st, put_words 0 [0] (d ?st))]) ((reboot d s)\<lparr>lh := []\<rparr>) t)"
    using recover_ok[of "reboot d s" "lh s"] ok hl assms(3) by (simp add: reboot_ok del: put_words.simps)
  moreover have "apply_writes (zip (lh s) (map (cur s) (lh s))) d n = cur s n" if n: "n \<notin> log_area s" for n
  proof (cases "n \<in> set (lh s)")
    case False
    then have "n \<notin> fst ` set (zip (lh s) (map (cur s) (lh s)))" by (auto simp: set_zip)
    then have "apply_writes (zip (lh s) (map (cur s) (lh s))) d n = disk s n" using assms(4)[OF n False] by (simp add: apply_writes_other)
    then show ?thesis using cur_unpinned[of s n] ok False by simp
  qed (use ok in \<open>simp add: apply_zip_in\<close>)
  ultimately show ?thesis by (elim runs_mono) (auto simp: wrote_def reboot_ok log_area_def head_list_zero simp del: put_words.simps)
qed

text \<open>
  C1. A transaction is atomic. \<^verbatim>\<open>commit\<close> of a transaction succeeds and leaves every block of
  the disk outside the log as the kernel sees it. If the machine crashes after any number of the disk
  writes of the commit, recovery at the next boot succeeds with an empty log, and outside the log area
  the disk holds either exactly the old blocks or exactly the new ones.
\<close>

theorem commit_crash_atomic:
  assumes "log_ok s" and "lh s \<noteq> []" and "head_list (disk s (log_start s)) = []"
  shows "runs (commit s) (\<lambda>_ t. (\<forall>n. n \<notin> log_area s \<longrightarrow> disk t n = cur s n) \<and> lh t = []
    \<and> (\<exists>ws. dwrites t = dwrites s @ ws \<and> disk t = apply_writes ws (disk s)
        \<and> (\<forall>k. runs (recover_from_log (reboot (apply_writes (take k ws) (disk s)) s)) (\<lambda>_ u.
              ((\<forall>n. n \<notin> log_area s \<longrightarrow> disk u n = disk s n) \<or> (\<forall>n. n \<notin> log_area s \<longrightarrow> disk u n = cur s n))
              \<and> head_list (disk u (log_start s)) = []))))"
proof -
  let ?st = "log_start s" and ?W = "commit_writes s"
  note ok = assms(1)[unfolded log_ok_def]
  have rec: "runs (recover_from_log (reboot (apply_writes (take k ?W) (disk s)) s)) (\<lambda>_ u.
      ((\<forall>n. n \<notin> log_area s \<longrightarrow> disk u n = disk s n) \<or> (\<forall>n. n \<notin> log_area s \<longrightarrow> disk u n = cur s n)) \<and> head_list (disk u ?st) = [])" for k
  proof -
    let ?d = "apply_writes (take k ?W) (disk s)"
    from commit_prefix[OF assms(1) refl, of k] show ?thesis
    proof (elim disjE conjE)
      assume d: "?d ?st = disk s ?st" "\<forall>n. n \<notin> log_area s \<longrightarrow> ?d n = disk s n"
      show ?thesis using recover_empty[of s ?d] ok assms(3) d by (auto elim!: runs_mono)
    next
      assume d: "?d ?st = put_words 0 (length (lh s) # lh s) (cur s ?st)"
        "map ?d [?st + 1..<?st + 1 + length (lh s)] = map (cur s) (lh s)" "\<forall>n. n \<notin> log_area s \<longrightarrow> n \<notin> set (lh s) \<longrightarrow> ?d n = disk s n"
      show ?thesis using recover_committed[OF assms(1) d(1,2)] d(3) by (auto elim!: runs_mono)
    next
      assume d: "?d ?st = put_words 0 [0] (put_words 0 (length (lh s) # lh s) (cur s ?st))" "\<forall>n. n \<notin> log_area s \<longrightarrow> ?d n = cur s n"
      show ?thesis using recover_empty[of s ?d] ok d head_list_zero(1) by (auto elim!: runs_mono)
    qed
  qed
  from commit_applied[OF assms(1)] rec show ?thesis
    by (intro runs_mono[OF commit_ok[OF assms(1,2)]]) (auto simp: wrote_def)
qed

text \<open>A machine in the middle of a transaction: block 40 is modified in buffer 0 and pinned.\<close>

definition bio0 :: bio_state where
  "bio0 = vga_state.extend vga0 \<lparr>bufs = (\<lambda>_. blank_buf)(0 := blank_buf\<lparr>b_valid := True, b_dirty := True, b_dev := 1, b_blockno := 40, b_data := (\<lambda>_. 7)\<rparr>),
     lru = [0..<NBUF], disk = (\<lambda>_ _. 0), disksize = 1000, dwrites = []\<rparr>"

definition log0 :: log_state where
  "log0 = bio_state.extend bio0 \<lparr>log_start = 2, log_size = 30, log_outstanding = 0, log_committing = True, log_dev = 1, lh = [40]\<rparr>"

lemma log0_fields [simp]:
  "bufs log0 = (\<lambda>_. blank_buf)(0 := blank_buf\<lparr>b_valid := True, b_dirty := True, b_dev := 1, b_blockno := 40, b_data := (\<lambda>_. 7)\<rparr>)"
  "lru log0 = [0..<NBUF]" "disk log0 = (\<lambda>_ _. 0)" "disksize log0 = 1000" "dwrites log0 = []" "log_start log0 = 2" "log_size log0 = 30"
  "log_dev log0 = 1" "lh log0 = [40]"
  by (simp_all add: log0_def bio0_def bio_state.defs vga_state.defs)

lemma log0_ok: "log_ok log0"
proof -
  have N: "NBUF = 30" "LOGSIZE = 30" by (simp_all add: NBUF_def LOGSIZE_def MAXOPBLOCKS_def)
  have "binv {} log0"
    by (auto simp: binv_def buf_ok_def blank_buf_def initsleeplock_def has_key_def)
  moreover have "dirty log0 = {0}" by (auto simp: dirty_def blank_buf_def N)
  ultimately show ?thesis by (simp add: log_ok_def pinned_def N)
qed

theorem commit_crash_atomic_witness:
  "runs (commit log0) (\<lambda>_ t. disk t 40 = (\<lambda>_. 7) \<and> disk t 41 = (\<lambda>_. 0))"
proof -
  have h: "head_list (disk log0 (log_start log0)) = []" by (simp add: head_list_def blk32_def)
  have o: "40 \<notin> log_area log0" "41 \<notin> log_area log0" by (simp_all add: log_area_def LOGSIZE_def MAXOPBLOCKS_def)
  have c: "cur log0 40 = (\<lambda>_. 7)" "cur log0 41 = (\<lambda>_. 0)"
    using cur_cached[of "{}" log0 0 40] cur_unpinned[of log0 41] log0_ok
    by (auto simp: log_ok_def has_key_def NBUF_def MAXOPBLOCKS_def)
  from commit_crash_atomic[OF log0_ok _ h] show ?thesis by (auto simp: c o elim!: runs_mono)
qed

section \<open>Transactions\<close>

text \<open>
  Inside a transaction the buffers \<open>H\<close> are held and \<open>k\<close> more blocks may be modified. The
  bound leaves buffers for the blocks that are only read.
\<close>

definition tx :: "nat set \<Rightarrow> nat \<Rightarrow> 's log_state_scheme \<Rightarrow> bool" where
  "tx H k s \<longleftrightarrow> binv H s \<and> log_dev s = 1 \<and> log_start s + LOGSIZE < disksize s \<and> disksize s \<le> 2 ^ 32
     \<and> distinct (lh s) \<and> pinned s = set (lh s) \<and> set (lh s) \<inter> log_area s = {} \<and> (\<forall>b \<in> set (lh s). b < disksize s)
     \<and> length (lh s) + k + 3 < LOGSIZE \<and> length (lh s) + k < log_size s \<and> 1 \<le> log_outstanding s"

lemma tx_less: "tx H k s \<Longrightarrow> j \<le> k \<Longrightarrow> tx H j s"
  by (simp add: tx_def)

lemma tx_binv: "tx H k s \<Longrightarrow> binv H s"
  by (simp add: tx_def)

lemma tx_frame:
  assumes "tx H k s" "bio_frame s t" "binv H' t" "pinned t = pinned s"
  shows "tx H' k t"
  using assms(1,3,4) log_frame[OF assms(2)] bio_frame_fields(2)[OF assms(2)] by (simp add: tx_def log_area_def)

lemma tx_card:
  assumes "tx H k s" "card H \<le> 2"
  shows "card (dirty s \<union> H) < NBUF"
proof -
  have "card (dirty s \<union> H) \<le> card (dirty s) + card H" by (rule card_Un_le)
  also have "card (dirty s) = length (lh s)" using assms(1) card_dirty[of H s] distinct_card[of "lh s"] by (simp add: tx_def)
  finally show ?thesis using assms by (simp add: tx_def NBUF_def LOGSIZE_def)
qed

lemma tx_bread:
  assumes "tx H k s" "n < disksize s" "card H \<le> 2" "\<And>i. i \<in> H \<Longrightarrow> \<not> has_key (bufs s i) n"
  shows "runs (bread 1 n s) (\<lambda>i t. got H n i s t \<and> tx (insert i H) k t)"
proof (rule runs_mono[OF bread_ok[OF tx_binv[OF assms(1)] assms(2,4)]])
  show "(\<exists>i < NBUF. has_key (bufs s i) n) \<or> card (dirty s \<union> H) < NBUF" using tx_card[OF assms(1,3)] by simp
  fix i t assume "got H n i s t"
  then show "got H n i s t \<and> tx (insert i H) k t" using tx_frame[OF assms(1)] by (auto simp: got_def)
qed

lemma tx_brelse:
  assumes "tx H k s" "i \<in> H" "clean s i"
  shows "runs (brelse i s) (\<lambda>_ t. tx (H - {i}) k t \<and> cur t = cur s \<and> disk t = disk s \<and> bio_frame s t \<and> (\<forall>j \<in> H - {i}. bufs t j = bufs s j))"
  by (rule runs_mono[OF brelse_ok[OF tx_binv[OF assms(1)] assms(2)]])
    (use assms(3) tx_frame[OF assms(1)] in \<open>auto simp: clean_def\<close>)

text \<open>What file system code changes of the state while it works on blocks.\<close>

definition txf :: "'s log_state_scheme \<Rightarrow> 's log_state_scheme \<Rightarrow> bool" where
  "txf s t \<longleftrightarrow> t = s\<lparr>wakeups := wakeups t, bufs := bufs t, lru := lru t, disk := disk t, dwrites := dwrites t, lh := lh t\<rparr>"

lemma txf_alt: "txf s t \<longleftrightarrow> (\<exists>w b l d x y. t = s\<lparr>wakeups := w, bufs := b, lru := l, disk := d, dwrites := x, lh := y\<rparr>)"
proof
  assume "txf s t"
  then show "\<exists>w b l d x y. t = s\<lparr>wakeups := w, bufs := b, lru := l, disk := d, dwrites := x, lh := y\<rparr>"
    unfolding txf_def by blast
qed (auto simp: txf_def)

lemma txf_refl [simp]: "txf s s"
  by (simp add: txf_def)

lemma txf_trans [trans]:
  assumes "txf s t" "txf t u"
  shows "txf s u"
proof -
  obtain w b l d x y where t: "t = s\<lparr>wakeups := w, bufs := b, lru := l, disk := d, dwrites := x, lh := y\<rparr>"
    using assms(1) unfolding txf_alt by blast
  show ?thesis unfolding txf_def by (subst assms(2)[unfolded txf_def t]) simp
qed

lemma bio_frame_txf: "bio_frame s t \<Longrightarrow> txf s t"
proof -
  assume "bio_frame s t"
  then obtain w b l d x where "t = s\<lparr>wakeups := w, bufs := b, lru := l, disk := d, dwrites := x\<rparr>"
    unfolding bio_frame_alt by blast
  then show ?thesis by (simp add: txf_def)
qed

lemma txf_fields:
  assumes "txf s t"
  shows "cur_pid t = cur_pid s" "disksize t = disksize s" "mem t = mem s" "log_state.more t = log_state.more s"
    "log_start t = log_start s" "log_size t = log_size s" "log_outstanding t = log_outstanding s" "log_dev t = log_dev s"
  by (subst assms[unfolded txf_def], simp)+

lemma tx_log_write:
  assumes "tx H (Suc k) s" "i \<in> H" "has_key (bufs s i) n" "n < disksize s" "n \<notin> log_area s"
  shows "runs (log_write i s) (\<lambda>_ t. tx H k t \<and> cur t = cur s \<and> disk t = disk s \<and> txf s t
    \<and> bufs t = (bufs s)(i := (bufs s i)\<lparr>b_dirty := True\<rparr>))"
proof -
  note b = tx_binv[OF assms(1)]
  note h = binv_held[OF b assms(2)]
  define t where "t = upd_buf i (b_dirty_update (\<lambda>_. True)) (if n \<in> set (lh s) then s else s\<lparr>lh := lh s @ [n]\<rparr>)"
  have bn: "b_blockno (bufs s i) = n" using assms(3) by (simp add: has_key_def)
  have e: "log_write i s = Ret () t" using assms(1) bn by (auto simp: log_write_def Let_def t_def tx_def)
  have tb: "bufs t = (bufs s)(i := (bufs s i)\<lparr>b_dirty := True\<rparr>)" by (simp add: t_def)
  have fr: "txf s t" by (simp add: t_def txf_def upd_buf_def)
  have inv: "binv H t"
  proof (rule binv_upd[OF b _ tb])
    show "buf_ok H t i" using h assms(2) txf_fields[OF fr] by (simp add: buf_ok_def tb)
    show "j = i" if "has_key ((bufs s i)\<lparr>b_dirty := True\<rparr>) m" "j < NBUF" "has_key (bufs s j) m" for m j
      using binv_uniq[OF b that(2) _ that(3), of i] h that(1) by (simp add: has_key_def)
  qed (use h b txf_fields[OF fr] in \<open>auto simp: t_def binv_def\<close>)
  have d: "disk t = disk s" by (simp add: t_def)
  have "cur t = (cur s)(n := b_data (bufs s i))"
    using cur_upd[OF b inv _ tb, of n] h assms(3) d by (simp add: has_key_def)
  then have c: "cur t = cur s" using cur_cached[OF b _ assms(3)] h by (simp add: fun_upd_idem_iff)
  have "dirty t = insert i (dirty s)" using h by (auto simp: dirty_def tb)
  then have p: "pinned t = insert n (pinned s)" using bn by (auto simp: pinned_def tb)
  have l: "lh t = (if n \<in> set (lh s) then lh s else lh s @ [n])" by (simp add: t_def upd_buf_def)
  have "tx H k t" using assms(1,4,5) inv p l txf_fields[OF fr] by (auto simp: tx_def log_area_def)
  then show ?thesis using e c d fr tb by simp
qed

text \<open>
  The idiom of \<^verbatim>\<open>src/fs.c\<close>: read a block, look at it, perhaps change it and log it, and release it.
  The function gives the result and the new contents, if it changes them.
\<close>

definition access :: "nat \<Rightarrow> nat \<Rightarrow> (block \<Rightarrow> 'a \<times> block option) \<Rightarrow> 's log_state_scheme \<Rightarrow> ('a, 's log_state_scheme) outcome" where
  "access dev n g s =
     bindO (bread dev n s) (\<lambda>bp s.
       case g (b_data (bufs s bp)) of
         (r, None) \<Rightarrow> bindO (brelse bp s) (\<lambda>_ s. Ret r s)
       | (r, Some d) \<Rightarrow>
           bindO (log_write bp (upd_data bp (\<lambda>_. d) s)) (\<lambda>_ s.
           bindO (brelse bp s) (\<lambda>_ s. Ret r s)))"

text \<open>One step on the blocks: the kernel's view changes from \<open>cur s\<close> to \<open>v\<close>.\<close>

definition tx_step :: "nat set \<Rightarrow> nat \<Rightarrow> (nat \<Rightarrow> block) \<Rightarrow> 's log_state_scheme \<Rightarrow> 's log_state_scheme \<Rightarrow> bool" where
  "tx_step H k v s t \<longleftrightarrow> tx H k t \<and> cur t = v \<and> disk t = disk s \<and> txf s t \<and> (\<forall>j \<in> H. bufs t j = bufs s j)"

lemma tx_step_refl: "tx H k s \<Longrightarrow> tx_step H k (cur s) s s"
  by (simp add: tx_step_def)

lemma tx_step_trans: "tx_step H k v s t \<Longrightarrow> tx_step H j w t u \<Longrightarrow> tx_step H j w s u"
  by (auto simp: tx_step_def intro: txf_trans)

lemma tx_modify:
  assumes "tx (insert i H) (Suc k) t" "i \<notin> H" "has_key (bufs t i) n" "n < disksize t" "n \<notin> log_area t"
  shows "runs (log_write i (upd_data i f t)) (\<lambda>_ w. runs (brelse i w) (\<lambda>_ x. tx_step H k ((cur t)(n := f (b_data (bufs t i)))) t x))"
proof -
  let ?t = "upd_data i f t"
  have h: "i \<in> insert i H" "insert i H - {i} = H" using assms(2) by auto
  note u = upd_data_ok[OF tx_binv[OF assms(1)] h(1) assms(3), of f]
  have fu: "txf t ?t" by (rule bio_frame_txf[OF u(5)])
  have tu: "tx (insert i H) (Suc k) ?t" by (rule tx_frame[OF assms(1) u(5,1,4)])
  have n: "n < disksize ?t" "n \<notin> log_area ?t" using assms(4,5) txf_fields[OF fu] by (simp_all add: log_area_def)
  have bu: "bufs ?t j = bufs t j" if "j \<noteq> i" for j using that by (simp add: upd_data_def)
  show ?thesis
  proof (rule runs_mono[OF tx_log_write[OF tu h(1) u(8) n]], elim conjE)
    fix w assume w: "tx (insert i H) k w" "cur w = cur ?t" "disk w = disk ?t" "txf ?t w" "bufs w = (bufs ?t)(i := (bufs ?t i)\<lparr>b_dirty := True\<rparr>)"
    have cl: "clean w i" using w(5) by (simp add: clean_def)
    have fw: "txf t w" by (rule txf_trans[OF fu w(4)])
    have cw: "cur w = (cur t)(n := f (b_data (bufs t i)))" "disk w = disk t" "\<And>j. j \<in> H \<Longrightarrow> bufs w j = bufs t j"
      using w(2,3,5) u(2,6) assms(2) bu by auto
    show "runs (brelse i w) (\<lambda>_ x. tx_step H k ((cur t)(n := f (b_data (bufs t i)))) t x)"
      by (rule runs_mono[OF tx_brelse[OF w(1) h(1) cl]])
        (use h(2) assms(2) cw fw bio_frame_txf in \<open>auto simp: tx_step_def intro: txf_trans\<close>)
  qed
qed

text \<open>A read and what follows: the buffer found, then released unchanged.\<close>

lemma tx_release:
  assumes "tx (insert i H) k t" "i \<notin> H" "clean t i"
  shows "runs (brelse i t) (\<lambda>_ x. tx_step H k (cur t) t x)"
  by (rule runs_mono[OF tx_brelse[OF assms(1) _ assms(3)]])
    (use assms(2) bio_frame_txf in \<open>auto simp: tx_step_def\<close>)

lemma tx_got:
  assumes "tx H k s" "n < disksize s" "card H \<le> 2" "\<And>i. i \<in> H \<Longrightarrow> \<not> has_key (bufs s i) n"
  shows "runs (bread 1 n s) (\<lambda>i t. tx (insert i H) k t \<and> i \<notin> H \<and> has_key (bufs t i) n \<and> b_data (bufs t i) = cur s n \<and> clean t i
    \<and> txf s t \<and> cur t = cur s \<and> disk t = disk s \<and> (\<forall>j \<in> H. bufs t j = bufs s j))"
proof (rule runs_mono[OF tx_bread[OF assms(1-3)]], use assms(4) in blast)
  fix i t assume a: "got H n i s t \<and> tx (insert i H) k t"
  then have "\<forall>j \<in> H. j \<noteq> i" "\<forall>j. j \<noteq> i \<longrightarrow> bufs t j = bufs s j" by (auto simp: got_def)
  then have "\<forall>j \<in> H. bufs t j = bufs s j" by blast
  then show "tx (insert i H) k t \<and> i \<notin> H \<and> has_key (bufs t i) n \<and> b_data (bufs t i) = cur s n \<and> clean t i
      \<and> txf s t \<and> cur t = cur s \<and> disk t = disk s \<and> (\<forall>j \<in> H. bufs t j = bufs s j)"
    using a by (auto simp: got_def clean_def has_key_def intro: bio_frame_txf)
qed

lemma tx_step_start:
  assumes "txf s t" "disk t = disk s" "\<forall>j \<in> H. bufs t j = bufs s j" "tx_step H k v t u"
  shows "tx_step H k v s u"
  using assms by (auto simp: tx_step_def intro: txf_trans)

lemma access_ok:
  assumes "tx H (Suc k) s" "n < disksize s" "n \<notin> log_area s" "card H \<le> 2" "\<And>i. i \<in> H \<Longrightarrow> \<not> has_key (bufs s i) n"
  shows "runs (access 1 n g s) (\<lambda>r t. case g (cur s n) of
      (v, None) \<Rightarrow> r = v \<and> tx_step H (Suc k) (cur s) s t
    | (v, Some d) \<Rightarrow> r = v \<and> tx_step H k ((cur s)(n := d)) s t)"
  unfolding access_def runs_bindO
proof (rule runs_mono[OF tx_got[OF assms(1,2,4)]], use assms(5) in blast, elim conjE)
  fix i t assume t: "tx (insert i H) (Suc k) t" "i \<notin> H" "has_key (bufs t i) n" "b_data (bufs t i) = cur s n" "clean t i"
    "txf s t" "cur t = cur s" "disk t = disk s" "\<forall>j \<in> H. bufs t j = bufs s j"
  have n: "n < disksize t" "n \<notin> log_area t" using assms(2,3) txf_fields[OF t(6)] by (simp_all add: log_area_def)
  note st = tx_step_start[OF t(6,8,9)]
  obtain v o' where gv: "g (cur s n) = (v, o')" by fastforce
  show "runs (case g (b_data (bufs t i)) of
         (r, None) \<Rightarrow> bindO (brelse i t) (\<lambda>_ s. Ret r s)
       | (r, Some d) \<Rightarrow> bindO (log_write i (upd_data i (\<lambda>_. d) t)) (\<lambda>_ s. bindO (brelse i s) (\<lambda>_ s. Ret r s)))
     (\<lambda>r t. case g (cur s n) of (v, None) \<Rightarrow> r = v \<and> tx_step H (Suc k) (cur s) s t
       | (v, Some d) \<Rightarrow> r = v \<and> tx_step H k ((cur s)(n := d)) s t)"
  proof (cases o')
    case None
    have "runs (brelse i t) (\<lambda>_ u. tx_step H (Suc k) (cur s) s u)"
      by (rule runs_mono[OF tx_release[OF t(1,2,5)]]) (use st t(7) in simp)
    then show ?thesis using gv None t(4) by simp
  next
    case (Some d)
    have "runs (log_write i (upd_data i (\<lambda>_. d) t)) (\<lambda>_ w. runs (brelse i w) (\<lambda>_ x. tx_step H k ((cur s)(n := d)) s x))"
      by (rule runs_mono[OF tx_modify[OF t(1-3) n]], erule runs_mono) (use st t(7) in simp)
    then show ?thesis using gv Some t(4) by simp
  qed
qed

end
