(* ===== verification/Fs.thy ===== *)
theory Fs
  imports Log
begin

text \<open>
  The file system, \<^verbatim>\<open>src/fs.c\<close>: block allocation, inodes, their contents, directories and path
  names. Pointers into the inode cache are indices. Path names and file names are lists of bytes
  without the terminating zero. Offsets and counts are checked with 32-bit wrap-around as in the
  source; the loops run on natural numbers, because after the checks nothing can wrap.
\<close>

section \<open>Layout\<close>

definition NDIRECT :: nat where "NDIRECT = 12"
definition NINDIRECT :: nat where "NINDIRECT = BSIZE div 4"
definition MAXFILE :: nat where "MAXFILE = NDIRECT + NINDIRECT"
definition IPB :: nat where "IPB = BSIZE div 64"
definition BPB :: nat where "BPB = BSIZE * 8"
definition DIRSIZ :: nat where "DIRSIZ = 14"
definition ROOTINO :: nat where "ROOTINO = 1"
definition T_DIR :: u16 where "T_DIR = 1"
definition T_FILE :: u16 where "T_FILE = 2"
definition T_DEV :: u16 where "T_DEV = 3"

lemmas fs_sizes = NDIRECT_def NINDIRECT_def MAXFILE_def IPB_def BPB_def DIRSIZ_def BSIZE_def

record inode =
  i_dev :: nat
  i_inum :: nat
  i_ref :: int
  i_lock :: sleeplock
  i_valid :: bool
  i_type :: u16
  i_major :: u16
  i_minor :: u16
  i_nlink :: u16
  i_size :: u32
  i_addrs :: "nat list"

record fs_state = log_state +
  fs_sb :: superblock
  icache :: "nat \<Rightarrow> inode"
  cur_cwd :: nat

definition IBLOCK :: "nat \<Rightarrow> superblock \<Rightarrow> nat" where
  "IBLOCK i sb = i div IPB + sb_inodestart sb"

definition BBLOCK :: "nat \<Rightarrow> superblock \<Rightarrow> nat" where
  "BBLOCK b sb = b div BPB + sb_bmapstart sb"

definition upd_inode :: "nat \<Rightarrow> (inode \<Rightarrow> inode) \<Rightarrow> 's fs_state_scheme \<Rightarrow> 's fs_state_scheme" where
  "upd_inode i f s = s\<lparr>icache := (icache s)(i := f (icache s i))\<rparr>"

section \<open>Blocks\<close>

definition bzero :: "nat \<Rightarrow> nat \<Rightarrow> 's log_state_scheme \<Rightarrow> (unit, 's log_state_scheme) outcome" where
  "bzero dev bno s = access dev bno (\<lambda>_. ((), Some (\<lambda>_. 0))) s"

definition bit_free :: "block \<Rightarrow> nat \<Rightarrow> bool" where
  "bit_free d bi \<longleftrightarrow> d (bi div 8) AND push_bit (bi mod 8) 1 = 0"

definition set_bit_at :: "nat \<Rightarrow> block \<Rightarrow> block" where
  "set_bit_at bi d = d(bi div 8 := d (bi div 8) OR push_bit (bi mod 8) 1)"

definition clear_bit_at :: "nat \<Rightarrow> block \<Rightarrow> block" where
  "clear_bit_at bi d = d(bi div 8 := d (bi div 8) AND NOT (push_bit (bi mod 8) 1))"

function balloc_loop :: "superblock \<Rightarrow> nat \<Rightarrow> nat \<Rightarrow> 's log_state_scheme \<Rightarrow> (nat, 's log_state_scheme) outcome" where
  "balloc_loop sb dev b s =
     (if b < sb_size sb then
        bindO (access dev (BBLOCK b sb) (\<lambda>d.
          case find (\<lambda>bi. bit_free d bi) [0..<min BPB (sb_size sb - b)] of
            Some bi \<Rightarrow> (Some bi, Some (set_bit_at bi d))
          | None \<Rightarrow> (None, None)) s) (\<lambda>r s.
          case r of
            Some bi \<Rightarrow> bindO (bzero dev (b + bi) s) (\<lambda>_ s. Ret (b + bi) s)
          | None \<Rightarrow> balloc_loop sb dev (b + BPB) s)
      else Panic ''balloc: out of blocks'')"
  by pat_completeness auto
termination by (relation "measure (\<lambda>(sb, dev, b, s). sb_size sb - b)") (auto simp: fs_sizes)

declare balloc_loop.simps [simp del]

definition balloc :: "nat \<Rightarrow> 's fs_state_scheme \<Rightarrow> (nat, 's fs_state_scheme) outcome" where
  "balloc dev s = balloc_loop (fs_sb s) dev 0 s"

definition bfree :: "nat \<Rightarrow> nat \<Rightarrow> 's fs_state_scheme \<Rightarrow> (unit, 's fs_state_scheme) outcome" where
  "bfree dev b s =
     bindO (access dev (BBLOCK b (fs_sb s)) (\<lambda>d.
       if bit_free d (b mod BPB) then (False, None) else (True, Some (clear_bit_at (b mod BPB) d))) s) (\<lambda>ok s.
       if ok then Ret () s else Panic ''freeing free block'')"

section \<open>Inodes\<close>

definition iinit :: "platform \<Rightarrow> nat \<Rightarrow> 's fs_state_scheme \<Rightarrow> (unit, 's fs_state_scheme) outcome" where
  "iinit P dev s =
     (let s = fold (\<lambda>i s. upd_inode i (\<lambda>ip. ip\<lparr>i_lock := initsleeplock\<rparr>) s) [0..<NINODE] s
      in bindO (readsb dev s) (\<lambda>sb s.
           let s = s\<lparr>fs_sb := sb\<rparr>
           in cprintf P ''sb: size %d nblocks %d ninodes %d nlog %d logstart %d inodestart %d bmap start %d\<newline>''
                (map of_nat [sb_size sb, sb_nblocks sb, sb_ninodes sb, sb_nlog sb, sb_logstart sb, sb_inodestart sb, sb_bmapstart sb]) s))"

definition iget :: "nat \<Rightarrow> nat \<Rightarrow> 's fs_state_scheme \<Rightarrow> (nat, 's fs_state_scheme) outcome" where
  "iget dev inum s =
     (case find (\<lambda>i. 0 < i_ref (icache s i) \<and> i_dev (icache s i) = dev \<and> i_inum (icache s i) = inum) [0..<NINODE] of
        Some i \<Rightarrow> Ret i (upd_inode i (\<lambda>ip. ip\<lparr>i_ref := i_ref ip + 1\<rparr>) s)
      | None \<Rightarrow>
          (case find (\<lambda>i. i_ref (icache s i) = 0) [0..<NINODE] of
             None \<Rightarrow> Panic ''iget: no inodes''
           | Some i \<Rightarrow> Ret i (upd_inode i (\<lambda>ip. ip\<lparr>i_dev := dev, i_inum := inum, i_ref := 1, i_valid := False\<rparr>) s)))"

definition dinode_off :: "nat \<Rightarrow> nat" where
  "dinode_off inum = 64 * (inum mod IPB)"

definition dinode_get :: "block \<Rightarrow> nat \<Rightarrow> inode \<Rightarrow> inode" where
  "dinode_get d k ip = ip\<lparr>i_type := blk16 d k, i_major := blk16 d (k + 2), i_minor := blk16 d (k + 4), i_nlink := blk16 d (k + 6),
     i_size := blk32 d (k + 8), i_addrs := map (\<lambda>j. unat (blk32 d (k + 12 + 4 * j))) [0..<NDIRECT + 1]\<rparr>"

definition dinode_put :: "inode \<Rightarrow> nat \<Rightarrow> block \<Rightarrow> block" where
  "dinode_put ip k d =
     put_words (k + 12) (i_addrs ip)
       (put32 (put16 (put16 (put16 (put16 d k (i_type ip)) (k + 2) (i_major ip)) (k + 4) (i_minor ip)) (k + 6) (i_nlink ip)) (k + 8) (i_size ip))"

function ialloc_loop :: "nat \<Rightarrow> u16 \<Rightarrow> nat \<Rightarrow> nat \<Rightarrow> 's fs_state_scheme \<Rightarrow> (nat, 's fs_state_scheme) outcome" where
  "ialloc_loop dev type ninodes inum s =
     (if inum < ninodes then
        bindO (access dev (IBLOCK inum (fs_sb s)) (\<lambda>d.
          if blk16 d (dinode_off inum) = 0
          then (True, Some (put16 (\<lambda>i. if dinode_off inum \<le> i \<and> i < dinode_off inum + 64 then 0 else d i) (dinode_off inum) type))
          else (False, None)) s) (\<lambda>found s.
          if found then iget dev inum s else ialloc_loop dev type ninodes (inum + 1) s)
      else Panic ''ialloc: no inodes'')"
  by pat_completeness auto
termination by (relation "measure (\<lambda>(dev, type, ninodes, inum, s). ninodes - inum)") auto

declare ialloc_loop.simps [simp del]

definition ialloc :: "nat \<Rightarrow> u16 \<Rightarrow> 's fs_state_scheme \<Rightarrow> (nat, 's fs_state_scheme) outcome" where
  "ialloc dev type s = ialloc_loop dev type (sb_ninodes (fs_sb s)) 1 s"

definition iupdate :: "nat \<Rightarrow> 's fs_state_scheme \<Rightarrow> (unit, 's fs_state_scheme) outcome" where
  "iupdate i s =
     (let ip = icache s i
      in access (i_dev ip) (IBLOCK (i_inum ip) (fs_sb s)) (\<lambda>d. ((), Some (dinode_put ip (dinode_off (i_inum ip)) d))) s)"

definition idup :: "nat \<Rightarrow> 's fs_state_scheme \<Rightarrow> 's fs_state_scheme" where
  "idup i s = upd_inode i (\<lambda>ip. ip\<lparr>i_ref := i_ref ip + 1\<rparr>) s"

definition acquire_inode :: "nat \<Rightarrow> 's fs_state_scheme \<Rightarrow> (unit, 's fs_state_scheme) outcome" where
  "acquire_inode i s =
     (case acquiresleep (cur_pid s) (i_lock (icache s i)) of
        None \<Rightarrow> Block (ChInodeLock i) s
      | Some lk \<Rightarrow> Ret () (upd_inode i (\<lambda>ip. ip\<lparr>i_lock := lk\<rparr>) s))"

definition release_inode :: "nat \<Rightarrow> 's fs_state_scheme \<Rightarrow> 's fs_state_scheme" where
  "release_inode i s = wakeup_call (ChInodeLock i) (upd_inode i (\<lambda>ip. ip\<lparr>i_lock := releasesleep (i_lock ip)\<rparr>) s)"

definition ilock :: "nat \<Rightarrow> 's fs_state_scheme \<Rightarrow> (unit, 's fs_state_scheme) outcome" where
  "ilock i s =
     (if i_ref (icache s i) < 1 then Panic ''ilock''
      else bindO (acquire_inode i s) (\<lambda>_ s.
        if i_valid (icache s i) then Ret () s
        else
          let ip = icache s i
          in bindO (access (i_dev ip) (IBLOCK (i_inum ip) (fs_sb s)) (\<lambda>d. (d, None)) s) (\<lambda>d s.
               let s = upd_inode i (\<lambda>ip. (dinode_get d (dinode_off (i_inum ip)) ip)\<lparr>i_valid := True\<rparr>) s
               in if i_type (icache s i) = 0 then Panic ''ilock: no type'' else Ret () s)))"

definition iunlock :: "nat \<Rightarrow> 's fs_state_scheme \<Rightarrow> (unit, 's fs_state_scheme) outcome" where
  "iunlock i s =
     (if \<not> holdingsleep (cur_pid s) (i_lock (icache s i)) \<or> i_ref (icache s i) < 1 then Panic ''iunlock''
      else Ret () (release_inode i s))"

section \<open>Contents\<close>

definition set_addr :: "nat \<Rightarrow> nat \<Rightarrow> nat \<Rightarrow> 's fs_state_scheme \<Rightarrow> 's fs_state_scheme" where
  "set_addr i k addr s = upd_inode i (\<lambda>ip. ip\<lparr>i_addrs := (i_addrs ip)[k := addr]\<rparr>) s"

definition bmap_indirect :: "nat \<Rightarrow> nat \<Rightarrow> nat \<Rightarrow> 's fs_state_scheme \<Rightarrow> (nat, 's fs_state_scheme) outcome" where
  "bmap_indirect dev addr bn s =
     bindO (bread dev addr s) (\<lambda>bp s.
     let addr = unat (blk32 (b_data (bufs s bp)) (4 * bn))
     in bindO (if addr = 0 then
                 bindO (balloc dev s) (\<lambda>addr s.
                 bindO (log_write bp (upd_data bp (\<lambda>a. put32 a (4 * bn) (of_nat addr)) s)) (\<lambda>_ s.
                   Ret addr s))
               else Ret addr s) (\<lambda>addr s.
          bindO (brelse bp s) (\<lambda>_ s. Ret addr s)))"

definition bmap :: "nat \<Rightarrow> nat \<Rightarrow> 's fs_state_scheme \<Rightarrow> (nat, 's fs_state_scheme) outcome" where
  "bmap i bn s =
     (let dev = i_dev (icache s i)
      in if bn < NDIRECT then
           let addr = i_addrs (icache s i) ! bn
           in if addr = 0 then bindO (balloc dev s) (\<lambda>addr s. Ret addr (set_addr i bn addr s)) else Ret addr s
         else
           let bn = bn - NDIRECT
           in if bn < NINDIRECT then
                bindO (let addr = i_addrs (icache s i) ! NDIRECT
                       in if addr = 0 then bindO (balloc dev s) (\<lambda>addr s. Ret addr (set_addr i NDIRECT addr s)) else Ret addr s) (\<lambda>addr s.
                  bmap_indirect dev addr bn s)
              else Panic ''bmap: out of range'')"

fun itrunc_direct :: "nat \<Rightarrow> nat list \<Rightarrow> 's fs_state_scheme \<Rightarrow> (unit, 's fs_state_scheme) outcome" where
  "itrunc_direct i [] s = Ret () s"
| "itrunc_direct i (k # ks) s =
     (let addr = i_addrs (icache s i) ! k
      in if addr \<noteq> 0 then
           bindO (bfree (i_dev (icache s i)) addr s) (\<lambda>_ s. itrunc_direct i ks (set_addr i k 0 s))
         else itrunc_direct i ks s)"

fun itrunc_indirect :: "nat \<Rightarrow> nat \<Rightarrow> nat list \<Rightarrow> 's fs_state_scheme \<Rightarrow> (unit, 's fs_state_scheme) outcome" where
  "itrunc_indirect dev bp [] s = Ret () s"
| "itrunc_indirect dev bp (j # js) s =
     (let addr = unat (blk32 (b_data (bufs s bp)) (4 * j))
      in if addr \<noteq> 0 then bindO (bfree dev addr s) (\<lambda>_ s. itrunc_indirect dev bp js s)
         else itrunc_indirect dev bp js s)"

definition itrunc :: "nat \<Rightarrow> 's fs_state_scheme \<Rightarrow> (unit, 's fs_state_scheme) outcome" where
  "itrunc i s =
     (let dev = i_dev (icache s i)
      in bindO (itrunc_direct i [0..<NDIRECT] s) (\<lambda>_ s.
         bindO (let addr = i_addrs (icache s i) ! NDIRECT
                in if addr \<noteq> 0 then
                     bindO (bread dev addr s) (\<lambda>bp s.
                     bindO (itrunc_indirect dev bp [0..<NINDIRECT] s) (\<lambda>_ s.
                     bindO (brelse bp s) (\<lambda>_ s.
                     bindO (bfree dev (i_addrs (icache s i) ! NDIRECT) s) (\<lambda>_ s.
                       Ret () (set_addr i NDIRECT 0 s)))))
                   else Ret () s) (\<lambda>_ s.
           iupdate i (upd_inode i (\<lambda>ip. ip\<lparr>i_size := 0\<rparr>) s))))"

definition iput :: "nat \<Rightarrow> 's fs_state_scheme \<Rightarrow> (unit, 's fs_state_scheme) outcome" where
  "iput i s =
     bindO (acquire_inode i s) (\<lambda>_ s.
     bindO (if i_valid (icache s i) \<and> i_nlink (icache s i) = 0 \<and> i_ref (icache s i) = 1 then
              bindO (itrunc i s) (\<lambda>_ s.
              bindO (iupdate i (upd_inode i (\<lambda>ip. ip\<lparr>i_type := 0\<rparr>) s)) (\<lambda>_ s.
                Ret () (upd_inode i (\<lambda>ip. ip\<lparr>i_valid := False\<rparr>) s)))
            else Ret () s) (\<lambda>_ s.
       Ret () (upd_inode i (\<lambda>ip. ip\<lparr>i_ref := i_ref ip - 1\<rparr>) (release_inode i s))))"

definition iunlockput :: "nat \<Rightarrow> 's fs_state_scheme \<Rightarrow> (unit, 's fs_state_scheme) outcome" where
  "iunlockput i s = bindO (iunlock i s) (\<lambda>_ s. iput i s)"

record stat =
  st_type :: u16
  st_dev :: nat
  st_ino :: nat
  st_nlink :: u16
  st_size :: u32

definition stati :: "nat \<Rightarrow> 's fs_state_scheme \<Rightarrow> stat" where
  "stati i s = (let ip = icache s i in \<lparr>st_type = i_type ip, st_dev = i_dev ip, st_ino = i_inum ip, st_nlink = i_nlink ip, st_size = i_size ip\<rparr>)"

text \<open>
  The device table has one device, the console: \<^verbatim>\<open>consoleinit\<close> fills in its two entries. A
  blocking console read takes the actions of the rest of the system while it sleeps as \<open>envs\<close>.
\<close>

definition CONSOLE :: nat where "CONSOLE = 1"

definition devsw_read :: "('s fs_state_scheme \<Rightarrow> 's fs_state_scheme) list \<Rightarrow> nat \<Rightarrow>
    (nat \<Rightarrow> u32 \<Rightarrow> int \<Rightarrow> 's fs_state_scheme \<Rightarrow> (int, 's fs_state_scheme) outcome) option" where
  "devsw_read envs major = (if major = CONSOLE then Some (\<lambda>i dst n. consoleread (iunlock i) (ilock i) envs dst n) else None)"

definition devsw_write :: "platform \<Rightarrow> nat \<Rightarrow>
    (nat \<Rightarrow> u32 \<Rightarrow> int \<Rightarrow> 's fs_state_scheme \<Rightarrow> (int, 's fs_state_scheme) outcome) option" where
  "devsw_write P major = (if major = CONSOLE then Some (\<lambda>i src n. consolewrite P (iunlock i) (ilock i) src n) else None)"

definition chunk :: "nat \<Rightarrow> nat \<Rightarrow> nat" where
  "chunk off n = min n (BSIZE - off mod BSIZE)"

lemma chunk_pos [simp]: "0 < n \<Longrightarrow> 0 < chunk off n"
  by (simp add: chunk_def BSIZE_def)

lemma chunk_le [simp]: "chunk off n \<le> n"
  by (simp add: chunk_def)

function read_loop :: "nat \<Rightarrow> nat \<Rightarrow> nat \<Rightarrow> 's fs_state_scheme \<Rightarrow> (u8 list, 's fs_state_scheme) outcome" where
  "read_loop i off n s =
     (if n = 0 then Ret [] s
      else
        bindO (bmap i (off div BSIZE) s) (\<lambda>addr s.
        bindO (access (i_dev (icache s i)) addr (\<lambda>d. (map d [off mod BSIZE..<off mod BSIZE + chunk off n], None)) s) (\<lambda>bs s.
        bindO (read_loop i (off + chunk off n) (n - chunk off n) s) (\<lambda>rest s. Ret (bs @ rest) s))))"
  by pat_completeness auto
termination by (relation "measure (\<lambda>(i, off, n, s). n)") (use chunk_pos in \<open>fastforce+\<close>)

declare read_loop.simps [simp del]

definition readi_bytes :: "nat \<Rightarrow> u32 \<Rightarrow> u32 \<Rightarrow> 's fs_state_scheme \<Rightarrow> (u8 list option, 's fs_state_scheme) outcome" where
  "readi_bytes i off n s =
     (let size = i_size (icache s i)
      in if size < off \<or> off + n < off then Ret None s
         else
           let n = (if size < off + n then size - off else n)
           in bindO (read_loop i (unat off) (unat n) s) (\<lambda>bs s. Ret (Some bs) s))"

definition store_bytes :: "u32 \<Rightarrow> u8 list \<Rightarrow> 's machine_scheme \<Rightarrow> 's machine_scheme" where
  "store_bytes dst bs s = s\<lparr>mem := (\<lambda>a. if unat (a - dst) < length bs then bs ! unat (a - dst) else mem s a)\<rparr>"

definition readi :: "('s fs_state_scheme \<Rightarrow> 's fs_state_scheme) list \<Rightarrow> nat \<Rightarrow> u32 \<Rightarrow> u32 \<Rightarrow> u32 \<Rightarrow> 's fs_state_scheme \<Rightarrow>
    (int, 's fs_state_scheme) outcome" where
  "readi envs i dst off n s =
     (if i_type (icache s i) = T_DEV then
        let major = sint (i_major (icache s i))
        in if major < 0 \<or> int NDEV \<le> major then Ret (-1) s
           else (case devsw_read envs (nat major) of
                   None \<Rightarrow> Ret (-1) s
                 | Some rd \<Rightarrow> rd i dst (sint n) s)
      else
        bindO (readi_bytes i off n s) (\<lambda>r s.
          case r of None \<Rightarrow> Ret (-1) s
          | Some bs \<Rightarrow> Ret (int (length bs)) (store_bytes dst bs s)))"

definition patch :: "nat \<Rightarrow> u8 list \<Rightarrow> block \<Rightarrow> block" where
  "patch k bs d = (\<lambda>j. if k \<le> j \<and> j < k + length bs then bs ! (j - k) else d j)"

function write_loop :: "nat \<Rightarrow> nat \<Rightarrow> u8 list \<Rightarrow> 's fs_state_scheme \<Rightarrow> (unit, 's fs_state_scheme) outcome" where
  "write_loop i off bs s =
     (if bs = [] then Ret () s
      else
        let m = chunk off (length bs)
        in bindO (bmap i (off div BSIZE) s) (\<lambda>addr s.
           bindO (access (i_dev (icache s i)) addr (\<lambda>d. ((), Some (patch (off mod BSIZE) (take m bs) d))) s) (\<lambda>_ s.
             write_loop i (off + m) (drop m bs) s)))"
  by pat_completeness auto
termination by (relation "measure (\<lambda>(i, off, bs, s). length bs)") auto

declare write_loop.simps [simp del]

definition writei_bytes :: "nat \<Rightarrow> u8 list \<Rightarrow> u32 \<Rightarrow> u32 \<Rightarrow> 's fs_state_scheme \<Rightarrow> (int, 's fs_state_scheme) outcome" where
  "writei_bytes i bs off n s =
     (if i_size (icache s i) < off \<or> off + n < off then Ret (-1) s
      else if of_nat (MAXFILE * BSIZE) < off + n then Ret (-1) s
      else
        bindO (write_loop i (unat off) bs s) (\<lambda>_ s.
        bindO (if 0 < n \<and> i_size (icache s i) < off + n
               then iupdate i (upd_inode i (\<lambda>ip. ip\<lparr>i_size := off + n\<rparr>) s)
               else Ret () s) (\<lambda>_ s.
          Ret (sint n) s)))"

definition writei :: "platform \<Rightarrow> nat \<Rightarrow> u32 \<Rightarrow> u32 \<Rightarrow> u32 \<Rightarrow> 's fs_state_scheme \<Rightarrow> (int, 's fs_state_scheme) outcome" where
  "writei P i src off n s =
     (if i_type (icache s i) = T_DEV then
        let major = sint (i_major (icache s i))
        in if major < 0 \<or> int NDEV \<le> major then Ret (-1) s
           else (case devsw_write P (nat major) of
                   None \<Rightarrow> Ret (-1) s
                 | Some wr \<Rightarrow> wr i src (sint n) s)
      else writei_bytes i (bytes_at (mem s) src (unat n)) off n s)"

section \<open>Directories\<close>

text \<open>A directory entry is two bytes of inode number and fourteen bytes of name.\<close>

definition de_inum :: "u8 list \<Rightarrow> nat" where
  "de_inum de = unat (de ! 0) + 256 * unat (de ! 1)"

definition de_name :: "u8 list \<Rightarrow> u8 list" where
  "de_name de = take DIRSIZ (drop 2 de)"

definition mk_dirent :: "nat \<Rightarrow> u8 list \<Rightarrow> u8 list" where
  "mk_dirent inum name = of_nat inum # of_nat (inum div 256) # strncpy_list DIRSIZ name"

definition namecmp :: "u8 list \<Rightarrow> u8 list \<Rightarrow> int" where
  "namecmp s t = strncmp_list (strncpy_list DIRSIZ s) (strncpy_list DIRSIZ t)"

function dirlookup_loop :: "nat \<Rightarrow> u8 list \<Rightarrow> nat \<Rightarrow> nat \<Rightarrow> 's fs_state_scheme \<Rightarrow> ((nat \<times> nat) option, 's fs_state_scheme) outcome" where
  "dirlookup_loop dp name sz off s =
     (if off < sz then
        bindO (readi_bytes dp (of_nat off) 16 s) (\<lambda>r s.
          case r of None \<Rightarrow> Panic ''dirlookup read''
          | Some de \<Rightarrow>
              if length de \<noteq> 16 then Panic ''dirlookup read''
              else if de_inum de \<noteq> 0 \<and> namecmp name (de_name de) = 0 then
                bindO (iget (i_dev (icache s dp)) (de_inum de) s) (\<lambda>ip s. Ret (Some (ip, off)) s)
              else dirlookup_loop dp name sz (off + 16) s)
      else Ret None s)"
  by pat_completeness auto
termination by (relation "measure (\<lambda>(dp, name, sz, off, s). sz - off)") auto

declare dirlookup_loop.simps [simp del]

definition dirlookup :: "nat \<Rightarrow> u8 list \<Rightarrow> 's fs_state_scheme \<Rightarrow> ((nat \<times> nat) option, 's fs_state_scheme) outcome" where
  "dirlookup dp name s =
     (if i_type (icache s dp) \<noteq> T_DIR then Panic ''dirlookup not DIR''
      else dirlookup_loop dp name (unat (i_size (icache s dp))) 0 s)"

function dirlink_loop :: "nat \<Rightarrow> nat \<Rightarrow> nat \<Rightarrow> 's fs_state_scheme \<Rightarrow> (nat, 's fs_state_scheme) outcome" where
  "dirlink_loop dp sz off s =
     (if off < sz then
        bindO (readi_bytes dp (of_nat off) 16 s) (\<lambda>r s.
          case r of None \<Rightarrow> Panic ''dirlink read''
          | Some de \<Rightarrow>
              if length de \<noteq> 16 then Panic ''dirlink read''
              else if de_inum de = 0 then Ret off s
              else dirlink_loop dp sz (off + 16) s)
      else Ret off s)"
  by pat_completeness auto
termination by (relation "measure (\<lambda>(dp, sz, off, s). sz - off)") auto

declare dirlink_loop.simps [simp del]

definition dirlink :: "nat \<Rightarrow> u8 list \<Rightarrow> nat \<Rightarrow> 's fs_state_scheme \<Rightarrow> (int, 's fs_state_scheme) outcome" where
  "dirlink dp name inum s =
     bindO (dirlookup dp name s) (\<lambda>r s.
       case r of
         Some (ip, _) \<Rightarrow> bindO (iput ip s) (\<lambda>_ s. Ret (-1) s)
       | None \<Rightarrow>
           bindO (dirlink_loop dp (unat (i_size (icache s dp))) 0 s) (\<lambda>off s.
           bindO (writei_bytes dp (mk_dirent inum name) (of_nat off) 16 s) (\<lambda>r s.
             if r \<noteq> 16 then Panic ''dirlink'' else Ret 0 s)))"

section \<open>Paths\<close>

definition slash :: u8 where "slash = 47"

definition skipelem :: "u8 list \<Rightarrow> (u8 list \<times> u8 list) option" where
  "skipelem path =
     (let s = dropWhile (\<lambda>c. c = slash) path
      in if s = [] then None
         else Some (take DIRSIZ (takeWhile (\<lambda>c. c \<noteq> slash) s), dropWhile (\<lambda>c. c = slash) (dropWhile (\<lambda>c. c \<noteq> slash) s)))"

lemma skipelem_shorter: "skipelem path = Some (name, rest) \<Longrightarrow> length rest < length path"
proof -
  assume a: "skipelem path = Some (name, rest)"
  define s where "s = dropWhile (\<lambda>c. c = slash) path"
  have s: "s \<noteq> []" "rest = dropWhile (\<lambda>c. c = slash) (dropWhile (\<lambda>c. c \<noteq> slash) s)"
    using a by (auto simp: skipelem_def Let_def s_def split: if_splits)
  then have "hd s \<noteq> slash" unfolding s_def using hd_dropWhile by blast
  then have "dropWhile (\<lambda>c. c \<noteq> slash) s = dropWhile (\<lambda>c. c \<noteq> slash) (tl s)" using s(1) by (cases s) auto
  then have "length rest \<le> length (tl s)" using s(2) length_dropWhile_le by (metis le_trans)
  moreover have "length s \<le> length path" unfolding s_def by (rule length_dropWhile_le)
  moreover have "length (tl s) < length s" using s(1) by (cases s) auto
  ultimately show ?thesis by linarith
qed

function namex_loop :: "bool \<Rightarrow> nat \<Rightarrow> u8 list \<Rightarrow> 's fs_state_scheme \<Rightarrow> ((nat \<times> u8 list) option, 's fs_state_scheme) outcome" where
  "namex_loop parent ip path s =
     (case skipelem path of
        None \<Rightarrow> if parent then bindO (iput ip s) (\<lambda>_ s. Ret None s) else Ret (Some (ip, [])) s
      | Some (name, path) \<Rightarrow>
          bindO (ilock ip s) (\<lambda>_ s.
            if i_type (icache s ip) \<noteq> T_DIR then bindO (iunlockput ip s) (\<lambda>_ s. Ret None s)
            else if parent \<and> path = [] then bindO (iunlock ip s) (\<lambda>_ s. Ret (Some (ip, name)) s)
            else
              bindO (dirlookup ip name s) (\<lambda>next s.
              bindO (iunlockput ip s) (\<lambda>_ s.
                case next of
                  None \<Rightarrow> Ret None s
                | Some (next, _) \<Rightarrow> namex_loop parent next path s))))"
  by pat_completeness auto
termination by (relation "measure (\<lambda>(parent, ip, path, s). length path)") (auto simp: skipelem_shorter)

declare namex_loop.simps [simp del]

definition namex :: "u8 list \<Rightarrow> bool \<Rightarrow> 's fs_state_scheme \<Rightarrow> ((nat \<times> u8 list) option, 's fs_state_scheme) outcome" where
  "namex path parent s =
     bindO (if path \<noteq> [] \<and> hd path = slash then iget ROOTDEV ROOTINO s
            else Ret (cur_cwd s) (idup (cur_cwd s) s)) (\<lambda>ip s.
       namex_loop parent ip path s)"

definition namei :: "u8 list \<Rightarrow> 's fs_state_scheme \<Rightarrow> (nat option, 's fs_state_scheme) outcome" where
  "namei path s = bindO (namex path False s) (\<lambda>r s. Ret (map_option fst r) s)"

definition nameiparent :: "u8 list \<Rightarrow> 's fs_state_scheme \<Rightarrow> ((nat \<times> u8 list) option, 's fs_state_scheme) outcome" where
  "nameiparent path s = namex path True s"

end
