(* ===== verification/Fs_Files.thy ===== *)
theory Fs_Files
  imports Fs
begin

text \<open>
  Allocation and file contents: what \<^verbatim>\<open>balloc\<close>, \<^verbatim>\<open>bfree\<close>, \<^verbatim>\<open>bmap\<close>, \<^verbatim>\<open>readi\<close> and \<^verbatim>\<open>writei\<close> do to the
  blocks the kernel sees inside a transaction.
\<close>

unbundle bit_operations_syntax

section \<open>The free bit map\<close>

lemma bit_free_iff: "bit_free d bi \<longleftrightarrow> \<not> bit (d (bi div 8)) (bi mod 8)"
  by (simp add: bit_free_def push_bit_of_1 and_exp_eq_0_iff_not_bit)

lemma same_bit: "bi div 8 = bj div 8 \<Longrightarrow> bi mod 8 = bj mod 8 \<Longrightarrow> bi = (bj :: nat)"
  by (metis div_mult_mod_eq)

lemma bit_free_set [simp]: "bit_free (set_bit_at bi d) bj \<longleftrightarrow> bj \<noteq> bi \<and> bit_free d bj"
  using same_bit[of bj bi] by (auto simp: bit_free_iff set_bit_at_def bit_or_iff push_bit_of_1 bit_exp_iff possible_bit_word)

lemma bit_free_clear [simp]: "bit_free (clear_bit_at bi d) bj \<longleftrightarrow> bj = bi \<or> bit_free d bj"
  using same_bit[of bj bi]
  by (auto simp: bit_free_iff clear_bit_at_def bit_and_iff bit_not_iff push_bit_of_1 bit_exp_iff possible_bit_word)

definition blk_free :: "superblock \<Rightarrow> (nat \<Rightarrow> block) \<Rightarrow> nat \<Rightarrow> bool" where
  "blk_free sb v n \<longleftrightarrow> n < sb_size sb \<and> bit_free (v (BBLOCK n sb)) (n mod BPB)"

definition take_block :: "superblock \<Rightarrow> nat \<Rightarrow> (nat \<Rightarrow> block) \<Rightarrow> (nat \<Rightarrow> block)" where
  "take_block sb n v = v(BBLOCK n sb := set_bit_at (n mod BPB) (v (BBLOCK n sb)), n := (\<lambda>_. 0))"

lemma BPB_pos [simp]: "0 < BPB"
  by (simp add: fs_sizes)

lemma same_block: "BBLOCK n sb = BBLOCK m sb \<Longrightarrow> n mod BPB = m mod BPB \<Longrightarrow> n = m"
  by (metis BBLOCK_def add_right_cancel div_mult_mod_eq)

text \<open>The bit map blocks lie on the disk, outside the log.\<close>

definition bmap_ok :: "'s fs_state_scheme \<Rightarrow> bool" where
  "bmap_ok s \<longleftrightarrow> sb_size (fs_sb s) \<le> disksize s \<and>
     (\<forall>b < sb_size (fs_sb s). BBLOCK b (fs_sb s) < disksize s \<and> BBLOCK b (fs_sb s) \<notin> log_area s
        \<and> (blk_free (fs_sb s) (cur s) b \<longrightarrow> b \<notin> log_area s \<and> (\<forall>c < sb_size (fs_sb s). b \<noteq> BBLOCK c (fs_sb s))))"

lemma txf_fs:
  fixes s :: "'s fs_state_scheme"
  assumes "txf s t"
  shows "fs_sb t = fs_sb s" "icache t = icache s" "cur_cwd t = cur_cwd s" "disksize t = disksize s" "log_area t = log_area s"
    "cur_pid t = cur_pid s"
  using txf_fields[OF assms] by (subst assms[unfolded txf_def], simp add: log_area_def)+

lemma BBLOCK_in_range:
  assumes "b mod BPB = 0" "j < BPB"
  shows "BBLOCK (b + j) sb = BBLOCK b sb" "(b + j) mod BPB = j"
proof -
  obtain q where "b = q * BPB" using assms(1) by (metis div_mult_mod_eq add_0_right)
  then show "BBLOCK (b + j) sb = BBLOCK b sb" "(b + j) mod BPB = j" using assms(2) by (simp_all add: BBLOCK_def)
qed

lemma find_least:
  "n < m \<Longrightarrow> P n \<Longrightarrow> (\<And>j. j < n \<Longrightarrow> \<not> P j) \<Longrightarrow> find P [0..<m] = Some (n :: nat)"
  by (auto simp: find_Some_iff intro!: exI[of _ n])

definition unheld :: "nat set \<Rightarrow> nat \<Rightarrow> 's bio_state_scheme \<Rightarrow> bool" where
  "unheld H n s \<longleftrightarrow> card H \<le> 2 \<and> (\<forall>i \<in> H. \<not> has_key (bufs s i) n)"

lemma unheld_empty [simp]: "unheld {} n s"
  by (simp add: unheld_def)

lemma tx_step_unheld: "tx_step H k v s t \<Longrightarrow> unheld H n t \<longleftrightarrow> unheld H n s"
  by (simp add: tx_step_def unheld_def)

lemma access_runs:
  assumes "tx H (Suc k) s" "n < disksize s" "n \<notin> log_area s" "unheld H n s"
  shows "runs (access 1 n g s) (\<lambda>r t. case g (cur s n) of
      (v, None) \<Rightarrow> r = v \<and> tx_step H (Suc k) (cur s) s t
    | (v, Some d) \<Rightarrow> r = v \<and> tx_step H k ((cur s)(n := d)) s t)"
  by (rule access_ok[OF assms(1-3)]) (use assms(4) in \<open>auto simp: unheld_def\<close>)

text \<open>The buffers held by the caller hold neither bit map blocks nor free blocks.\<close>

definition off_map :: "nat set \<Rightarrow> 's fs_state_scheme \<Rightarrow> bool" where
  "off_map H s \<longleftrightarrow> (\<forall>b < sb_size (fs_sb s).
     unheld H (BBLOCK b (fs_sb s)) s \<and> (blk_free (fs_sb s) (cur s) b \<longrightarrow> unheld H b s))"

lemma bzero_ok:
  assumes "tx H (Suc k) s" "n < disksize s" "n \<notin> log_area s" "unheld H n s"
  shows "runs (bzero 1 n s) (\<lambda>_ t. tx_step H k ((cur s)(n := (\<lambda>_. 0))) s t)"
  using access_runs[OF assms, of "\<lambda>_. ((), Some (\<lambda>_. 0))"] by (simp add: bzero_def)

definition balloc_scan :: "superblock \<Rightarrow> nat \<Rightarrow> block \<Rightarrow> nat option \<times> block option" where
  "balloc_scan sb b d = (case find (\<lambda>bi. bit_free d bi) [0..<min BPB (sb_size sb - b)] of
     Some bi \<Rightarrow> (Some bi, Some (set_bit_at bi d)) | None \<Rightarrow> (None, None))"

lemma balloc_loop_step:
  "b < sb_size sb \<Longrightarrow> balloc_loop sb dev b s = bindO (access dev (BBLOCK b sb) (balloc_scan sb b) s) (\<lambda>r s.
     case r of Some bi \<Rightarrow> bindO (bzero dev (b + bi) s) (\<lambda>_ s. Ret (b + bi) s) | None \<Rightarrow> balloc_loop sb dev (b + BPB) s)"
  by (subst balloc_loop.simps) (simp add: balloc_scan_def[abs_def])

lemma balloc_scan_found:
  assumes "blk_free sb v n" "\<forall>j < n. \<not> blk_free sb v j" "b \<le> n" "b mod BPB = 0" "n < b + BPB"
  shows "balloc_scan sb b (v (BBLOCK b sb)) = (Some (n - b), Some (set_bit_at (n - b) (v (BBLOCK b sb))))"
proof -
  have free: "blk_free sb v (b + j) \<longleftrightarrow> bit_free (v (BBLOCK b sb)) j" if "j < BPB" "b + j < sb_size sb" for j
    using BBLOCK_in_range[OF assms(4) that(1)] that(2) by (simp add: blk_free_def)
  have n: "n < sb_size sb" using assms(1) by (simp add: blk_free_def)
  have "find (\<lambda>bi. bit_free (v (BBLOCK b sb)) bi) [0..<min BPB (sb_size sb - b)] = Some (n - b)"
  proof (rule find_least)
    show "n - b < min BPB (sb_size sb - b)" using assms(3,5) n by linarith
    show "bit_free (v (BBLOCK b sb)) (n - b)" using free[of "n - b"] assms(1,3,5) n by simp
    show "\<not> bit_free (v (BBLOCK b sb)) j" if "j < n - b" for j using free[of j] assms(2) that assms(5) n by auto
  qed
  then show ?thesis by (simp add: balloc_scan_def)
qed

lemma balloc_scan_none:
  assumes "\<forall>j < b + BPB. \<not> blk_free sb v j" "b mod BPB = 0"
  shows "balloc_scan sb b (v (BBLOCK b sb)) = (None, None)"
proof -
  have "\<not> bit_free (v (BBLOCK b sb)) j" if "j < BPB" "b + j < sb_size sb" for j
    using BBLOCK_in_range[OF assms(2) that(1)] that spec[OF assms(1), of "b + j"] by (simp add: blk_free_def)
  then have "find (\<lambda>bi. bit_free (v (BBLOCK b sb)) bi) [0..<min BPB (sb_size sb - b)] = None"
    by (force simp: find_None_iff)
  then show ?thesis by (simp add: balloc_scan_def)
qed

lemma balloc_here:
  fixes s :: "'s fs_state_scheme"
  assumes "tx H (k + 2) s" "bmap_ok s" "off_map H s" "fs_sb s = sb" "blk_free sb (cur s) n"
    "\<forall>j < n. \<not> blk_free sb (cur s) j" "b \<le> n" "b mod BPB = 0" "n < b + BPB"
  shows "runs (balloc_loop sb 1 b s) (\<lambda>r t. r = n \<and> tx_step H k (take_block sb n (cur s)) s t)"
proof -
  let ?d = "cur s (BBLOCK b sb)"
  have nb: "n < sb_size sb" "b < sb_size sb" using assms(5,7) by (auto simp: blk_free_def)
  have bb: "BBLOCK b sb < disksize s" "BBLOCK b sb \<notin> log_area s" "unheld H (BBLOCK b sb) s" "tx H (Suc (Suc k)) s"
    using assms(1-4) nb by (auto simp: bmap_ok_def off_map_def)
  have nB: "BBLOCK n sb = BBLOCK b sb" "n mod BPB = n - b"
    using BBLOCK_in_range[OF assms(8), of "n - b"] assms(7,9) by auto
  have z: "n < disksize s" "n \<notin> log_area s" "unheld H n s"
    using assms(2-5) nb by (auto simp: bmap_ok_def off_map_def)
  have "runs (access 1 (BBLOCK b sb) (balloc_scan sb b) s) (\<lambda>r t. r = Some (n - b) \<and>
      runs (bzero 1 n t) (\<lambda>_ u. tx_step H k (take_block sb n (cur s)) s u))"
  proof (rule runs_mono[OF access_runs[OF bb(4,1,2,3)]], goal_cases)
    case (1 r t)
    then have r: "r = Some (n - b)" and t: "tx_step H (Suc k) ((cur s)(BBLOCK b sb := set_bit_at (n - b) ?d)) s t"
      using balloc_scan_found[OF assms(5-9)] by auto
    have fr: "tx H (Suc k) t" "n < disksize t" "n \<notin> log_area t" "unheld H n t"
      using t z txf_fs[of s t] tx_step_unheld[OF t] by (auto simp: tx_step_def)
    have tb: "take_block sb n (cur s) = (cur t)(n := (\<lambda>_. 0))" using t nB by (simp add: take_block_def tx_step_def)
    have "runs (bzero 1 n t) (\<lambda>_ u. tx_step H k (take_block sb n (cur s)) s u)"
      unfolding tb by (rule runs_mono[OF bzero_ok[OF fr]]) (rule tx_step_trans[OF t])
    then show ?case using r by simp
  qed
  then have "runs (access 1 (BBLOCK b sb) (balloc_scan sb b) s) (\<lambda>r t. runs (case r of
          Some bi \<Rightarrow> bindO (bzero 1 (b + bi) t) (\<lambda>_ s. Ret (b + bi) s)
        | None \<Rightarrow> balloc_loop sb 1 (b + BPB) t) (\<lambda>r u. r = n \<and> tx_step H k (take_block sb n (cur s)) s u))"
    by (rule runs_mono) (use assms(7) in auto)
  then show ?thesis using nb by (simp add: balloc_loop_step)
qed

lemma bmap_ok_step: "txf s t \<Longrightarrow> cur t = cur s \<Longrightarrow> bmap_ok t \<longleftrightarrow> bmap_ok s"
  using txf_fs[of s t] by (simp add: bmap_ok_def)

lemma off_map_step: "tx_step H k (cur s) s t \<Longrightarrow> off_map H t \<longleftrightarrow> off_map H s"
  using txf_fs[of s t] by (simp add: off_map_def tx_step_unheld[of H k "cur s" s t]) (auto simp: tx_step_def)

lemma balloc_skip:
  fixes s :: "'s fs_state_scheme"
  assumes "tx H (Suc k) s" "bmap_ok s" "off_map H s" "fs_sb s = sb" "b < sb_size sb"
    "\<forall>j < b + BPB. \<not> blk_free sb (cur s) j" "b mod BPB = 0"
  shows "runs (access 1 (BBLOCK b sb) (balloc_scan sb b) s) (\<lambda>r t. r = None \<and> tx_step H (Suc k) (cur s) s t \<and> bmap_ok t \<and> off_map H t \<and> fs_sb t = sb)"
proof (rule runs_mono[OF access_runs[OF assms(1)]], goal_cases)
  case (4 r t)
  then have t: "r = None" "tx_step H (Suc k) (cur s) s t" using balloc_scan_none[OF assms(6,7)] by auto
  then have "txf s t" "cur t = cur s" by (auto simp: tx_step_def)
  then show ?case using t assms(2-4) bmap_ok_step[of s t] off_map_step[OF t(2)] txf_fs[of s t] by simp
qed (use assms(2-5) in \<open>auto simp: bmap_ok_def off_map_def\<close>)

lemma balloc_loop_ok:
  fixes s :: "'s fs_state_scheme"
  assumes "tx H (k + 2) s" "bmap_ok s" "off_map H s" "fs_sb s = sb" "blk_free sb (cur s) n"
    "\<forall>j < n. \<not> blk_free sb (cur s) j" "b \<le> n" "b mod BPB = 0"
  shows "runs (balloc_loop sb 1 b s) (\<lambda>r t. r = n \<and> tx_step H k (take_block sb n (cur s)) s t)"
  using assms
proof (induction "n - b" arbitrary: b s rule: less_induct)
  case less
  have nb: "b < sb_size sb" using less.prems(5,7) by (auto simp: blk_free_def)
  show ?case
  proof (cases "n < b + BPB")
    case True
    then show ?thesis by (rule balloc_here[OF less.prems])
  next
    case False
    have m: "n - (b + BPB) < n - b" "b + BPB \<le> n" using False BPB_pos by linarith+
    have "runs (access 1 (BBLOCK b sb) (balloc_scan sb b) s) (\<lambda>r t. r = None \<and> runs (balloc_loop sb 1 (b + BPB) t)
        (\<lambda>r u. r = n \<and> tx_step H k (take_block sb n (cur s)) s u))"
    proof (rule runs_mono[OF balloc_skip[of H "Suc k", OF _ less.prems(2-4) nb _ less.prems(8)]], goal_cases)
      case (3 r t)
      then have t: "tx_step H (k + 2) (cur s) s t" "tx H (k + 2) t" "cur t = cur s" by (auto simp: tx_step_def)
      have "runs (balloc_loop sb 1 (b + BPB) t) (\<lambda>r u. r = n \<and> tx_step H k (take_block sb n (cur t)) t u)"
        by (rule less.hyps) (use 3 t m less.prems in auto)
      then have "runs (balloc_loop sb 1 (b + BPB) t) (\<lambda>r u. r = n \<and> tx_step H k (take_block sb n (cur s)) s u)"
        by (rule runs_mono) (use t(3) tx_step_trans[OF t(1)] in auto)
      then show ?case using 3 by simp
    qed (use less.prems(1,6) m in auto)
    then have "runs (access 1 (BBLOCK b sb) (balloc_scan sb b) s) (\<lambda>r t. runs (case r of
            Some bi \<Rightarrow> bindO (bzero 1 (b + bi) t) (\<lambda>_ s. Ret (b + bi) s)
          | None \<Rightarrow> balloc_loop sb 1 (b + BPB) t) (\<lambda>r u. r = n \<and> tx_step H k (take_block sb n (cur s)) s u))"
      by (rule runs_mono) auto
    then show ?thesis using nb by (simp add: balloc_loop_step)
  qed
qed

lemma balloc_ok:
  fixes s :: "'s fs_state_scheme"
  assumes "tx H (k + 2) s" "bmap_ok s" "off_map H s" "\<exists>n. blk_free (fs_sb s) (cur s) n"
  shows "runs (balloc 1 s) (\<lambda>n t. blk_free (fs_sb s) (cur s) n \<and> (\<forall>j < n. \<not> blk_free (fs_sb s) (cur s) j)
    \<and> tx_step H k (take_block (fs_sb s) n (cur s)) s t)"
proof -
  obtain n where n: "blk_free (fs_sb s) (cur s) n" "\<forall>j < n. \<not> blk_free (fs_sb s) (cur s) j"
    using assms(4) by (metis LeastI not_less_Least)
  have z: "0 mod BPB = 0" by simp
  show ?thesis unfolding balloc_def
    by (rule runs_mono[OF balloc_loop_ok[OF assms(1-3) refl n le0 z]]) (use n in simp)
qed

text \<open>When the bit map has no free bit, the allocator panics.\<close>

lemma balloc_loop_full:
  fixes s :: "'s fs_state_scheme"
  assumes "tx H (Suc k) s" "bmap_ok s" "off_map H s" "fs_sb s = sb" "\<forall>j. \<not> blk_free sb (cur s) j" "b mod BPB = 0"
  shows "balloc_loop sb 1 b s = Panic ''balloc: out of blocks''"
  using assms
proof (induction "sb_size sb - b" arbitrary: b s rule: less_induct)
  case less
  show ?case
  proof (cases "b < sb_size sb")
    case True
    obtain t where t: "access 1 (BBLOCK b sb) (balloc_scan sb b) s = Ret None t" "tx_step H (Suc k) (cur s) s t" "bmap_ok t" "off_map H t" "fs_sb t = sb"
      using balloc_skip[OF less.prems(1-4) True _ less.prems(6)] less.prems(5) by (auto simp: runs_iff)
    have m: "sb_size sb - (b + BPB) < sb_size sb - b" using True BPB_pos by linarith
    have "balloc_loop sb 1 (b + BPB) t = Panic ''balloc: out of blocks''"
      by (rule less.hyps[OF m]) (use t less.prems in \<open>auto simp: tx_step_def\<close>)
    then show ?thesis using True t(1) by (simp add: balloc_loop_step)
  next
    case False
    then show ?thesis by (subst balloc_loop.simps) simp
  qed
qed

section \<open>Volumes and files, as the kernel sees the blocks\<close>

text \<open>
  \<open>v\<close> maps block numbers to contents and \<open>M\<close> is the set of blocks that hold no file data: the log, the
  inode blocks, the bit map and block 0. In a well-formed volume no block of \<open>M\<close> is free.
\<close>

definition vol :: "superblock \<Rightarrow> nat set \<Rightarrow> (nat \<Rightarrow> block) \<Rightarrow> bool" where
  "vol sb M v \<longleftrightarrow> 0 \<in> M \<and> (\<forall>b < sb_size sb. BBLOCK b sb \<in> M) \<and> (\<forall>n \<in> M. \<not> blk_free sb v n)"

text \<open>
  The blocks of an inode as a function of the block index in the file. Index \<open>MAXFILE\<close> stands for
  the indirect block itself.
\<close>

definition slot :: "inode \<Rightarrow> (nat \<Rightarrow> block) \<Rightarrow> nat \<Rightarrow> nat" where
  "slot ip v k =
     (if k < NDIRECT then i_addrs ip ! k
      else if k < MAXFILE then
        (if i_addrs ip ! NDIRECT = 0 then 0 else unat (blk32 (v (i_addrs ip ! NDIRECT)) (4 * (k - NDIRECT))))
      else if k = MAXFILE then i_addrs ip ! NDIRECT
      else 0)"

definition slots_ok :: "superblock \<Rightarrow> nat set \<Rightarrow> (nat \<Rightarrow> block) \<Rightarrow> (nat \<Rightarrow> nat) \<Rightarrow> bool" where
  "slots_ok sb M v sk \<longleftrightarrow>
     (\<forall>k. sk k \<noteq> 0 \<longrightarrow> sk k < sb_size sb \<and> sk k \<notin> M \<and> \<not> blk_free sb v (sk k)) \<and>
     (\<forall>j k. sk j \<noteq> 0 \<longrightarrow> sk j = sk k \<longrightarrow> j = k)"

definition fdat :: "(nat \<Rightarrow> nat) \<Rightarrow> (nat \<Rightarrow> block) \<Rightarrow> nat \<Rightarrow> u8" where
  "fdat sk v p = (if MAXFILE \<le> p div BSIZE \<or> sk (p div BSIZE) = 0 then 0 else v (sk (p div BSIZE)) (p mod BSIZE))"

lemma vol_take:
  assumes "vol sb M v" "blk_free sb v n"
  shows "blk_free sb (take_block sb n v) m \<longleftrightarrow> m \<noteq> n \<and> blk_free sb v m" "vol sb M (take_block sb n v)" "n \<notin> M" "n \<noteq> 0"
    "a \<notin> M \<Longrightarrow> a \<noteq> n \<Longrightarrow> take_block sb n v a = v a" "take_block sb n v n = (\<lambda>_. 0)"
proof -
  have n: "n < sb_size sb" "n \<notin> M" using assms by (auto simp: vol_def blk_free_def)
  show "n \<notin> M" by (rule n(2))
  show "n \<noteq> 0" using assms(1) n(2) by (metis vol_def)
  show f: "blk_free sb (take_block sb n v) m \<longleftrightarrow> m \<noteq> n \<and> blk_free sb v m" for m
  proof (cases "m < sb_size sb")
    case True
    then have "BBLOCK m sb \<noteq> n" using n assms(1) by (auto simp: vol_def)
    then show ?thesis using True same_block[of m sb n] by (auto simp: blk_free_def take_block_def)
  qed (simp add: blk_free_def)
  show "vol sb M (take_block sb n v)" using assms(1) f by (auto simp: vol_def)
  show "take_block sb n v a = v a" if "a \<notin> M" "a \<noteq> n" using that n assms(1) by (auto simp: take_block_def vol_def)
  show "take_block sb n v n = (\<lambda>_. 0)" by (simp add: take_block_def)
qed

lemma slots_ok_new: "slots_ok sb M v sk \<Longrightarrow> blk_free sb v n \<Longrightarrow> vol sb M v \<Longrightarrow> sk k \<noteq> n"
  using vol_take(4) by (fastforce simp: slots_ok_def)

lemma slots_ok_take:
  assumes "vol sb M v" "blk_free sb v n" "slots_ok sb M v sk"
  shows "slots_ok sb M (take_block sb n v) sk" "fdat sk (take_block sb n v) = fdat sk v"
proof -
  note f = vol_take(1)[OF assms(1,2)]
  show "slots_ok sb M (take_block sb n v) sk" using assms(3) by (auto simp: slots_ok_def f)
  have "take_block sb n v (sk k) = v (sk k)" if "sk k \<noteq> 0" for k
    using vol_take(5)[OF assms(1,2)] slots_ok_new[OF assms(3,2,1)] assms(3) that by (simp add: slots_ok_def)
  then show "fdat sk (take_block sb n v) = fdat sk v" by (auto simp: fdat_def)
qed

lemma slots_ok_add:
  assumes "slots_ok sb M v sk" "n < sb_size sb" "n \<notin> M" "\<not> blk_free sb v n" "\<forall>j. sk j \<noteq> n" "sk k = 0" "v n = (\<lambda>_. 0)"
  shows "slots_ok sb M v (sk(k := n))" "fdat (sk(k := n)) v = fdat sk v"
  using assms by (auto simp: slots_ok_def fdat_def)

lemma slots_ok_put:
  assumes "vol sb M v" "slots_ok sb M v sk" "\<forall>b < sb_size sb. BBLOCK b sb \<noteq> a"
  shows "vol sb M (v(a := d))" "slots_ok sb M (v(a := d)) sk" "blk_free sb (v(a := d)) = blk_free sb v"
proof -
  have f: "blk_free sb (v(a := d)) n \<longleftrightarrow> blk_free sb v n" for n using assms(3) by (auto simp: blk_free_def)
  then show "blk_free sb (v(a := d)) = blk_free sb v" by blast
  show "vol sb M (v(a := d))" "slots_ok sb M (v(a := d)) sk" using assms(1,2) f by (auto simp: vol_def slots_ok_def)
qed

lemma fdat_other:
  assumes "\<forall>k < MAXFILE. sk k \<noteq> 0 \<longrightarrow> sk k \<noteq> a"
  shows "fdat sk (v(a := d)) = fdat sk v"
  using assms by (auto simp: fdat_def)

text \<open>Writing bytes into a block of the file.\<close>

definition overlay :: "nat \<Rightarrow> u8 list \<Rightarrow> (nat \<Rightarrow> u8) \<Rightarrow> (nat \<Rightarrow> u8)" where
  "overlay off bs f p = (if off \<le> p \<and> p < off + length bs then bs ! (p - off) else f p)"

lemma in_block:
  assumes "off mod BSIZE + m \<le> BSIZE"
  shows "p div BSIZE = off div BSIZE \<and> off mod BSIZE \<le> p mod BSIZE \<and> p mod BSIZE < off mod BSIZE + m \<longleftrightarrow> off \<le> p \<and> p < off + m"
    (is "?l \<longleftrightarrow> ?r")
proof
  have B: "0 < BSIZE" by (simp add: BSIZE_def)
  have po: "p = BSIZE * (p div BSIZE) + p mod BSIZE" "off = BSIZE * (off div BSIZE) + off mod BSIZE" by simp_all
  show "?l \<Longrightarrow> ?r" using po by (metis add.assoc nat_add_left_cancel_le nat_add_left_cancel_less)
  assume r: ?r
  have "p div BSIZE = off div BSIZE"
  proof (rule antisym)
    have "p < BSIZE * (off div BSIZE) + BSIZE" using r po(2) assms by linarith
    then have "p < (off div BSIZE + 1) * BSIZE" by (simp add: algebra_simps)
    then show "p div BSIZE \<le> off div BSIZE" using less_mult_imp_div_less[of p "off div BSIZE + 1" BSIZE] by linarith
    show "off div BSIZE \<le> p div BSIZE" using r by (simp add: div_le_mono)
  qed
  then show ?l using r po by (smt (verit) add.assoc nat_add_left_cancel_le nat_add_left_cancel_less)
qed

lemma fdat_write:
  assumes "slots_ok sb M v sk" "sk (off div BSIZE) \<noteq> 0" "off mod BSIZE + length bs \<le> BSIZE" "off div BSIZE < MAXFILE"
  shows "fdat sk (v(sk (off div BSIZE) := patch (off mod BSIZE) bs (v (sk (off div BSIZE))))) = overlay off bs (fdat sk v)"
proof
  fix p
  note ib = in_block[OF assms(3), of p]
  show "fdat sk (v(sk (off div BSIZE) := patch (off mod BSIZE) bs (v (sk (off div BSIZE))))) p = overlay off bs (fdat sk v) p"
  proof (cases "p div BSIZE = off div BSIZE")
    case True
    have "p mod BSIZE - off mod BSIZE = p - off" if "off \<le> p" using True that
      by (metis add_diff_cancel_left div_mult_mod_eq)
    then show ?thesis using assms(2,4) True ib by (auto simp: fdat_def overlay_def patch_def)
  next
    case False
    then have "sk (p div BSIZE) \<noteq> sk (off div BSIZE)" using assms(1,2) by (auto simp: slots_ok_def)
    then show ?thesis using False ib by (auto simp: fdat_def overlay_def)
  qed
qed

section \<open>Files in a state\<close>

definition meta :: "'s fs_state_scheme \<Rightarrow> nat set" where
  "meta s = insert 0 (log_area s \<union> (\<lambda>j. IBLOCK j (fs_sb s)) ` {..<sb_ninodes (fs_sb s)} \<union> (\<lambda>b. BBLOCK b (fs_sb s)) ` {..<sb_size (fs_sb s)})"

definition fs_ok :: "'s fs_state_scheme \<Rightarrow> bool" where
  "fs_ok s \<longleftrightarrow> sb_size (fs_sb s) \<le> disksize s
     \<and> (\<forall>b < sb_size (fs_sb s). BBLOCK b (fs_sb s) < disksize s \<and> BBLOCK b (fs_sb s) \<notin> log_area s)
     \<and> (\<forall>j < sb_ninodes (fs_sb s). IBLOCK j (fs_sb s) < disksize s \<and> IBLOCK j (fs_sb s) \<notin> log_area s
          \<and> (\<forall>b < sb_size (fs_sb s). IBLOCK j (fs_sb s) \<noteq> BBLOCK b (fs_sb s)))
     \<and> vol (fs_sb s) (meta s) (cur s)"

abbreviation fslot :: "nat \<Rightarrow> 's fs_state_scheme \<Rightarrow> nat \<Rightarrow> nat" where
  "fslot i s \<equiv> slot (icache s i) (cur s)"

definition file_ok :: "nat \<Rightarrow> 's fs_state_scheme \<Rightarrow> bool" where
  "file_ok i s \<longleftrightarrow> fs_ok s \<and> length (i_addrs (icache s i)) = NDIRECT + 1 \<and> i_dev (icache s i) = 1
     \<and> i_inum (icache s i) < sb_ninodes (fs_sb s) \<and> slots_ok (fs_sb s) (meta s) (cur s) (fslot i s)"

definition filedata :: "nat \<Rightarrow> 's fs_state_scheme \<Rightarrow> nat \<Rightarrow> u8" where
  "filedata i s = fdat (fslot i s) (cur s)"

definition nfree :: "'s fs_state_scheme \<Rightarrow> nat" where
  "nfree s = card {n. blk_free (fs_sb s) (cur s) n}"

lemma fs_ok_bmap: "fs_ok s \<Longrightarrow> bmap_ok s"
  by (auto simp: fs_ok_def bmap_ok_def vol_def meta_def)

lemma meta_txf: "txf s t \<Longrightarrow> meta t = meta s"
  using txf_fs[of s t] by (simp add: meta_def)

lemma finite_free: "finite {n. blk_free sb v n}"
  by (rule finite_subset[of _ "{..<sb_size sb}"]) (auto simp: blk_free_def)

subsection \<open>Slots\<close>

lemma slot_cong: "(i_addrs ip ! NDIRECT \<noteq> 0 \<Longrightarrow> w (i_addrs ip ! NDIRECT) = v (i_addrs ip ! NDIRECT)) \<Longrightarrow> slot ip w = slot ip v"
  by (auto simp: slot_def)

lemma slot_max: "slot ip v MAXFILE = i_addrs ip ! NDIRECT"
  by (simp add: slot_def MAXFILE_def)

lemma slot_direct:
  assumes "k < NDIRECT" "length (i_addrs ip) = NDIRECT + 1"
  shows "slot (ip\<lparr>i_addrs := (i_addrs ip)[k := n]\<rparr>) v = (slot ip v)(k := n)"
  using assms by (auto simp: slot_def fun_eq_iff nth_list_update)

lemma blk32_zero: "blk32 (\<lambda>_. 0) k = 0"
  by (simp add: blk32_def)

lemma slot_indirect:
  assumes "i_addrs ip ! NDIRECT = 0" "v n = (\<lambda>_. 0)" "length (i_addrs ip) = NDIRECT + 1"
  shows "slot (ip\<lparr>i_addrs := (i_addrs ip)[NDIRECT := n]\<rparr>) v = (slot ip v)(MAXFILE := n)"
  using assms by (intro ext) (simp add: slot_def nth_list_update blk32_zero MAXFILE_def)

lemma slot_entry:
  assumes "i_addrs ip ! NDIRECT = a" "a \<noteq> 0" "j < NINDIRECT" "n < 2 ^ 32"
  shows "slot ip (v(a := put32 (v a) (4 * j) (of_nat n))) = (slot ip v)(NDIRECT + j := n)"
proof
  fix k
  have "unat (of_nat n :: u32) = n" using assms(4) by (simp add: unat_of_nat take_bit_nat_eq_self)
  moreover have "4 * j + 4 \<le> 4 * (k - NDIRECT) \<or> 4 * (k - NDIRECT) + 4 \<le> 4 * j" if "NDIRECT \<le> k" "k \<noteq> NDIRECT + j"
    using that by linarith
  ultimately show "slot ip (v(a := put32 (v a) (4 * j) (of_nat n))) k = ((slot ip v)(NDIRECT + j := n)) k"
    using assms(1-3) by (auto simp: slot_def MAXFILE_def)
qed

subsection \<open>Allocation for a file\<close>

text \<open>What a step that only fills in block addresses keeps.\<close>

definition fframe :: "nat \<Rightarrow> 's fs_state_scheme \<Rightarrow> 's fs_state_scheme \<Rightarrow> bool" where
  "fframe i s t \<longleftrightarrow> txf (s\<lparr>icache := icache t\<rparr>) t \<and> disk t = disk s
     \<and> (\<exists>a. icache t = (icache s)(i := (icache s i)\<lparr>i_addrs := a\<rparr>))"

lemma balloc_file:
  fixes s :: "'s fs_state_scheme"
  assumes "file_ok i s" "tx H (k + 2) s" "off_map H s" "1 \<le> nfree s"
  shows "runs (balloc 1 s) (\<lambda>n t. tx H k t \<and> txf s t \<and> disk t = disk s \<and> (\<forall>j \<in> H. bufs t j = bufs s j)
    \<and> n \<noteq> 0 \<and> n \<notin> meta s \<and> n < sb_size (fs_sb s) \<and> \<not> blk_free (fs_sb s) (cur t) n \<and> cur t n = (\<lambda>_. 0)
    \<and> fslot i t = fslot i s \<and> (\<forall>j. fslot i s j \<noteq> n) \<and> file_ok i t \<and> filedata i t = filedata i s \<and> nfree t = nfree s - 1
    \<and> (\<forall>a. a \<noteq> 0 \<longrightarrow> a = fslot i s MAXFILE \<longrightarrow> cur t a = cur s a))"
proof -
  let ?sb = "fs_sb s" and ?v = "cur s"
  have vs: "vol ?sb (meta s) ?v" "slots_ok ?sb (meta s) ?v (fslot i s)" "bmap_ok s"
    using assms(1) fs_ok_bmap by (auto simp: file_ok_def fs_ok_def)
  have ex: "\<exists>n. blk_free ?sb ?v n" using assms(4) card_gt_0_iff[of "{n. blk_free ?sb ?v n}"] by (auto simp: nfree_def)
  show ?thesis
  proof (rule runs_mono[OF balloc_ok[OF assms(2) vs(3) assms(3) ex]], elim conjE)
    fix n t assume n: "blk_free ?sb ?v n" and st: "tx_step H k (take_block ?sb n ?v) s t"
    have t: "tx H k t" "cur t = take_block ?sb n ?v" "disk t = disk s" "txf s t" "\<forall>j \<in> H. bufs t j = bufs s j"
      using st by (auto simp: tx_step_def)
    note f = txf_fs[OF t(4)] meta_txf[OF t(4)]
    note vt = vol_take[OF vs(1) n] and sn = slots_ok_new[OF vs(2) n vs(1)] and so = slots_ok_take[OF vs(1) n vs(2)]
    have ind: "cur t a = ?v a" if "a \<noteq> 0" "a = fslot i s MAXFILE" for a
      using vt(5)[of a] that sn[of MAXFILE] vs(2) unfolding t(2) by (auto simp: slots_ok_def)
    then have sl: "fslot i t = fslot i s" unfolding f(2) by (intro slot_cong) (simp add: slot_max)
    have fok: "fs_ok t" using assms(1) vt(2) f t(2) by (simp add: file_ok_def fs_ok_def)
    then have "file_ok i t" using assms(1) so(1) sl f t(2) by (simp add: file_ok_def)
    moreover have "filedata i t = filedata i s" unfolding filedata_def sl using so(2) t(2) by simp
    moreover have "{m. blk_free ?sb (cur t) m} = {m. blk_free ?sb ?v m} - {n}" using vt(1) t(2) by auto
    then have "nfree t = nfree s - 1" using n finite_free[of ?sb ?v] f(1) by (simp add: nfree_def)
    moreover have "n < sb_size ?sb" using n by (simp add: blk_free_def)
    ultimately show "tx H k t \<and> txf s t \<and> disk t = disk s \<and> (\<forall>j \<in> H. bufs t j = bufs s j)
      \<and> n \<noteq> 0 \<and> n \<notin> meta s \<and> n < sb_size (fs_sb s) \<and> \<not> blk_free (fs_sb s) (cur t) n \<and> cur t n = (\<lambda>_. 0)
      \<and> fslot i t = fslot i s \<and> (\<forall>j. fslot i s j \<noteq> n) \<and> file_ok i t \<and> filedata i t = filedata i s \<and> nfree t = nfree s - 1
      \<and> (\<forall>a. a \<noteq> 0 \<longrightarrow> a = fslot i s MAXFILE \<longrightarrow> cur t a = cur s a)"
      using t vt(1,3,4,6) sn sl ind by simp
  qed
qed


subsection \<open>Changes of the inode cache\<close>

lemma cur_icache [simp]: "cur (s\<lparr>icache := c\<rparr>) = cur s"
  by (simp add: cur_def fun_eq_iff split: option.split)

lemma tx_icache [simp]: "tx H k (s\<lparr>icache := c\<rparr>) = tx H k s"
  by (simp add: tx_def binv_def buf_ok_def log_area_def pinned_def dirty_def)

lemma meta_icache [simp]: "meta (s\<lparr>icache := c\<rparr>) = meta s"
  by (simp add: meta_def log_area_def)

lemma fs_ok_icache [simp]: "fs_ok (s\<lparr>icache := c\<rparr>) = fs_ok s"
  by (simp add: fs_ok_def log_area_def)

lemma nfree_icache [simp]: "nfree (s\<lparr>icache := c\<rparr>) = nfree s"
  by (simp add: nfree_def)

lemma off_map_empty [simp]: "off_map {} s"
  by (simp add: off_map_def)

lemma txf_icache:
  assumes "txf s t"
  shows "txf (s\<lparr>icache := c\<rparr>) (t\<lparr>icache := c\<rparr>)"
proof -
  obtain w b l d x y where "t = s\<lparr>wakeups := w, bufs := b, lru := l, disk := d, dwrites := x, lh := y\<rparr>"
    using assms unfolding txf_alt by blast
  then show ?thesis by (simp add: txf_def)
qed

lemma fframe_refl [simp]: "fframe i s s"
  by (auto simp: fframe_def intro!: exI[of _ "i_addrs (icache s i)"])

lemma fframe_trans:
  assumes "fframe i s t" "fframe i t u"
  shows "fframe i s u"
proof -
  have "txf (s\<lparr>icache := icache u\<rparr>) (t\<lparr>icache := icache u\<rparr>)"
    using assms(1) txf_icache[of "s\<lparr>icache := icache t\<rparr>" t "icache u"] by (simp add: fframe_def)
  then have "txf (s\<lparr>icache := icache u\<rparr>) u" using assms(2) by (auto simp: fframe_def intro: txf_trans)
  moreover obtain a b where "icache t = (icache s)(i := (icache s i)\<lparr>i_addrs := a\<rparr>)" "icache u = (icache t)(i := (icache t i)\<lparr>i_addrs := b\<rparr>)"
    using assms by (auto simp: fframe_def)
  then have "icache u = (icache s)(i := (icache s i)\<lparr>i_addrs := b\<rparr>)" by simp
  ultimately show ?thesis using assms by (auto simp: fframe_def)
qed

lemma txf_fframe:
  fixes s :: "'s fs_state_scheme"
  assumes "txf s t" "disk t = disk s"
  shows "fframe i s t"
proof -
  have "icache t = icache s" using txf_fs[OF assms(1)] by simp
  then show ?thesis using assms by (auto simp: fframe_def intro!: exI[of _ "i_addrs (icache s i)"])
qed

lemma fframe_set_addr: "fframe i s (set_addr i k n s)"
  by (auto simp: fframe_def set_addr_def upd_inode_def txf_def)

lemma fframe_fields:
  fixes s :: "'s fs_state_scheme"
  assumes "fframe i s t"
  shows "fs_sb t = fs_sb s" "disksize t = disksize s" "meta t = meta s" "mem t = mem s" "cur_pid t = cur_pid s" "disk t = disk s"
    "log_area t = log_area s" "cur_cwd t = cur_cwd s"
    "i_size (icache t i) = i_size (icache s i)" "i_dev (icache t i) = i_dev (icache s i)" "i_inum (icache t i) = i_inum (icache s i)"
    "i_type (icache t i) = i_type (icache s i)" "j \<noteq> i \<Longrightarrow> icache t j = icache s j"
proof -
  have t: "txf (s\<lparr>icache := icache t\<rparr>) t" and "disk t = disk s" using assms by (auto simp: fframe_def)
  then show "fs_sb t = fs_sb s" "disksize t = disksize s" "meta t = meta s" "mem t = mem s" "cur_pid t = cur_pid s" "disk t = disk s"
      "log_area t = log_area s" "cur_cwd t = cur_cwd s"
    using txf_fs[OF t] meta_txf[OF t] txf_fields[OF t] by (simp_all add: log_area_def)
  obtain a where "icache t = (icache s)(i := (icache s i)\<lparr>i_addrs := a\<rparr>)" using assms by (auto simp: fframe_def)
  then show "i_size (icache t i) = i_size (icache s i)" "i_dev (icache t i) = i_dev (icache s i)" "i_inum (icache t i) = i_inum (icache s i)"
    "i_type (icache t i) = i_type (icache s i)" "j \<noteq> i \<Longrightarrow> icache t j = icache s j" by simp_all
qed

subsection \<open>\<^verbatim>\<open>bmap\<close>\<close>

text \<open>The result of a step that maps one more block of the file: the contents do not change.\<close>

definition mapped :: "nat \<Rightarrow> nat \<Rightarrow> nat \<Rightarrow> nat \<Rightarrow> 's fs_state_scheme \<Rightarrow> nat \<Rightarrow> 's fs_state_scheme \<Rightarrow> bool" where
  "mapped i k c j s a t \<longleftrightarrow> a \<noteq> 0 \<and> a = fslot i t j \<and> file_ok i t \<and> tx {} k t \<and> filedata i t = filedata i s \<and> fframe i s t
     \<and> nfree s \<le> nfree t + c \<and> (\<forall>m < MAXFILE. fslot i s m \<noteq> 0 \<longrightarrow> fslot i t m = fslot i s m)"

lemma file_set_addr:
  fixes t :: "'s fs_state_scheme"
  assumes "file_ok i t" "n \<notin> meta t" "n < sb_size (fs_sb t)" "\<not> blk_free (fs_sb t) (cur t) n" "cur t n = (\<lambda>_. 0)"
    "\<forall>j. fslot i t j \<noteq> n" "fslot i t k = 0" "fslot i (set_addr i m n t) = (fslot i t)(k := n)"
  shows "file_ok i (set_addr i m n t)" "filedata i (set_addr i m n t) = filedata i t"
proof -
  have sl: "slots_ok (fs_sb t) (meta t) (cur t) (fslot i t)" using assms(1) by (simp add: file_ok_def)
  note so = slots_ok_add[OF sl assms(3,2,4,6,7,5)]
  have eq: "cur (set_addr i m n t) = cur t" "meta (set_addr i m n t) = meta t" "fs_sb (set_addr i m n t) = fs_sb t" "fs_ok (set_addr i m n t) = fs_ok t"
    by (simp_all add: set_addr_def upd_inode_def)
  have "slots_ok (fs_sb t) (meta t) (cur t) (fslot i (set_addr i m n t))" using so(1) assms(8) by simp
  then show "file_ok i (set_addr i m n t)" using assms(1) eq by (simp add: file_ok_def) (simp add: set_addr_def upd_inode_def)
  show "filedata i (set_addr i m n t) = filedata i t" using so(2) assms(8) eq by (simp add: filedata_def)
qed

lemma bmap_top:
  fixes s :: "'s fs_state_scheme"
  assumes "file_ok i s" "tx {} (k + 2) s" "1 \<le> nfree s" "m < NDIRECT \<and> j = m \<or> m = NDIRECT \<and> j = MAXFILE"
  shows "runs (let addr = i_addrs (icache s i) ! m
      in if addr = 0 then bindO (balloc 1 s) (\<lambda>addr s. Ret addr (set_addr i m addr s)) else Ret addr s) (mapped i k 1 j s)"
proof -
  have mj: "fslot i u j = i_addrs (icache u i) ! m" for u :: "'s fs_state_scheme"
    using assms(4) by (auto simp: slot_def MAXFILE_def)
  show ?thesis
  proof (cases "i_addrs (icache s i) ! m = 0")
    case False
    then show ?thesis using assms(1) tx_less[OF assms(2)] by (simp add: mapped_def mj)
  next
    case True
    have "runs (balloc 1 s) (\<lambda>n t. mapped i k 1 j s n (set_addr i m n t))"
    proof (rule runs_mono[OF balloc_file[OF assms(1,2) off_map_empty assms(3)]], elim conjE)
      fix n t assume t: "tx {} k t" "txf s t" "disk t = disk s" "n \<noteq> 0" "n \<notin> meta s" "n < sb_size (fs_sb s)"
        "\<not> blk_free (fs_sb s) (cur t) n" "cur t n = (\<lambda>_. 0)" "fslot i t = fslot i s" "\<forall>j. fslot i s j \<noteq> n" "file_ok i t"
        "filedata i t = filedata i s" "nfree t = nfree s - 1"
      note f = txf_fs[OF t(2)] meta_txf[OF t(2)]
      let ?u = "set_addr i m n t"
      have len: "length (i_addrs (icache t i)) = NDIRECT + 1" using t(11) by (simp add: file_ok_def)
      have z: "i_addrs (icache t i) ! m = 0" "fslot i t j = 0" using True f(2) mj[of t] by simp_all
      have sl: "fslot i ?u = (fslot i t)(j := n)"
        using assms(4) slot_direct[OF _ len] slot_indirect[of "icache t i" "cur t" n] len z(1) t(8)
        by (auto simp: set_addr_def upd_inode_def)
      note fs = file_set_addr[OF t(11) _ _ _ t(8) _ z(2) sl]
      have u: "file_ok i ?u" "filedata i ?u = filedata i s" using fs t f by simp_all
      have "tx {} k ?u" "nfree ?u = nfree t" using t(1) by (simp_all add: set_addr_def upd_inode_def)
      moreover have "fframe i s ?u" by (rule fframe_trans[OF txf_fframe[OF t(2,3)] fframe_set_addr])
      ultimately show "mapped i k 1 j s n ?u" using u t(4,9,13) sl z(2) by (auto simp: mapped_def)
    qed
    then show ?thesis using True by simp
  qed
qed


lemma slot_in_range: "file_ok i s \<Longrightarrow> fslot i s j \<noteq> 0 \<Longrightarrow> fslot i s j < disksize s \<and> fslot i s j \<notin> meta s \<and> fslot i s j \<notin> log_area s"
proof -
  assume a: "file_ok i s" "fslot i s j \<noteq> 0"
  then have "fslot i s j < sb_size (fs_sb s)" "fslot i s j \<notin> meta s" by (simp_all add: file_ok_def slots_ok_def)
  moreover have "sb_size (fs_sb s) \<le> disksize s" using a(1) by (simp add: file_ok_def fs_ok_def)
  ultimately show ?thesis by (simp add: meta_def)
qed

lemma file_step:
  fixes t :: "'s fs_state_scheme"
  assumes "file_ok i t" "txf t w" "vol (fs_sb t) (meta t) (cur w)" "slots_ok (fs_sb t) (meta t) (cur w) (slot (icache t i) (cur w))"
  shows "file_ok i w"
  using assms txf_fs[OF assms(2)] meta_txf[OF assms(2)] by (simp add: file_ok_def fs_ok_def)

lemma BBLOCK_meta: "b < sb_size (fs_sb s) \<Longrightarrow> BBLOCK b (fs_sb s) \<in> meta s"
  by (auto simp: meta_def)

lemma off_map_slot:
  assumes "file_ok i s" "fslot i s j \<noteq> 0" "has_key (bufs s bp) (fslot i s j)"
  shows "off_map {bp} s"
proof -
  have "has_key (bufs s bp) n \<longleftrightarrow> n = fslot i s j" for n using assms(3) by (auto simp: has_key_def)
  moreover have "fslot i s j \<notin> meta s" "\<not> blk_free (fs_sb s) (cur s) (fslot i s j)"
    using assms(1,2) by (simp_all add: file_ok_def slots_ok_def)
  moreover have "BBLOCK b (fs_sb s) \<noteq> fslot i s j" if "b < sb_size (fs_sb s)" for b
    using BBLOCK_meta[OF that] calculation(2) by metis
  ultimately show ?thesis by (auto simp: off_map_def unheld_def)
qed

lemma bmap_indirect_fill:
  fixes s :: "'s fs_state_scheme"
  assumes "file_ok i s" "tx {bp} (k + 3) s" "a = fslot i s MAXFILE" "a \<noteq> 0" "has_key (bufs s bp) a" "b_data (bufs s bp) = cur s a"
    "1 \<le> nfree s" "j < NINDIRECT" "fslot i s (NDIRECT + j) = 0"
  shows "runs (balloc 1 s) (\<lambda>n t. runs (log_write bp (upd_data bp (\<lambda>a. put32 a (4 * j) (of_nat n)) t))
    (\<lambda>_ u. runs (brelse bp u) (\<lambda>_ w. mapped i k 1 (NDIRECT + j) s n w)))"
proof -
  have om: "off_map {bp} s" using off_map_slot[OF assms(1)] assms(3-5) by simp
  have ts: "tx {bp} (Suc k + 2) s" using tx_less[OF assms(2), of "Suc k + 2"] by simp
  show ?thesis
  proof (rule runs_mono[OF balloc_file[OF assms(1) ts om assms(7)]], elim conjE)
    fix n t assume t: "tx {bp} (Suc k) t" "txf s t" "disk t = disk s" "\<forall>j \<in> {bp}. bufs t j = bufs s j" "n \<noteq> 0" "n \<notin> meta s" "n < sb_size (fs_sb s)"
        "\<not> blk_free (fs_sb s) (cur t) n" "cur t n = (\<lambda>_. 0)" "fslot i t = fslot i s" "\<forall>j. fslot i s j \<noteq> n" "file_ok i t"
        "filedata i t = filedata i s" "nfree t = nfree s - 1" "\<forall>a. a \<noteq> 0 \<longrightarrow> a = fslot i s MAXFILE \<longrightarrow> cur t a = cur s a"
    note f = txf_fs[OF t(2)] meta_txf[OF t(2)]
    let ?v = "(cur t)(a := put32 (cur t a) (4 * j) (of_nat n))"
    have at: "a = fslot i t MAXFILE" "i_addrs (icache t i) ! NDIRECT = a" using assms(3) t(10) f(2) slot_max by simp_all
    have ar: "a < disksize t" "a \<notin> log_area t" "a \<notin> meta t" using slot_in_range[OF t(12), of MAXFILE] at(1) assms(4) by simp_all
    have "disksize s \<le> 2 ^ 32" using ts by (simp add: tx_def)
    then have n32: "n < 2 ^ 32" using t(7,12) f by (simp add: file_ok_def fs_ok_def)
    have bd: "b_data (bufs t bp) = cur t a" "has_key (bufs t bp) a" using t(4,15) assms(3-6) by simp_all
    have vol: "vol (fs_sb t) (meta t) (cur t)" "slots_ok (fs_sb t) (meta t) (cur t) (fslot i t)" using t(12) by (simp_all add: file_ok_def fs_ok_def)
    have bb: "\<forall>b < sb_size (fs_sb t). BBLOCK b (fs_sb t) \<noteq> a" using ar(3) BBLOCK_meta by metis
    note sp = slots_ok_put[OF vol bb, of "put32 (cur t a) (4 * j) (of_nat n)"]
    have z: "fslot i t (NDIRECT + j) = 0" using assms(9) t(10) by simp
    have na: "n \<noteq> a" using t(11) assms(3) by auto
    have so: "slots_ok (fs_sb t) (meta t) ?v ((fslot i t)(NDIRECT + j := n))" "fdat ((fslot i t)(NDIRECT + j := n)) ?v = fdat (fslot i t) ?v"
      using slots_ok_add[OF sp(2), of n "NDIRECT + j"] t(6,7,8,9,10,11) f z na sp(3) by simp_all
    have "\<forall>k < MAXFILE. fslot i t k \<noteq> 0 \<longrightarrow> fslot i t k \<noteq> a" using vol(2) unfolding at(1) slots_ok_def by (metis less_irrefl)
    then have fd: "fdat (fslot i t) ?v = fdat (fslot i t) (cur t)" by (rule fdat_other)
    have sl: "slot (icache t i) ?v = (fslot i t)(NDIRECT + j := n)" by (rule slot_entry[OF at(2) assms(4,8) n32])
    have "runs (log_write bp (upd_data bp (\<lambda>a. put32 a (4 * j) (of_nat n)) t)) (\<lambda>_ u. runs (brelse bp u) (\<lambda>_ w. tx_step {} k ?v t w))"
      using tx_modify[of bp "{}" k t a "\<lambda>a. put32 a (4 * j) (of_nat n)"] t(1) ar bd by simp
    then show "runs (log_write bp (upd_data bp (\<lambda>a. put32 a (4 * j) (of_nat n)) t)) (\<lambda>_ u. runs (brelse bp u) (\<lambda>_ w. mapped i k 1 (NDIRECT + j) s n w))"
    proof (rule runs_mono, elim runs_mono)
      fix w assume "tx_step {} k ?v t w"
      then have w: "tx {} k w" "cur w = ?v" "disk w = disk t" "txf t w" by (auto simp: tx_step_def)
      note fw = txf_fs[OF w(4)]
      have "fslot i w = (fslot i t)(NDIRECT + j := n)" using w(2) fw(2) sl by simp
      moreover have "file_ok i w" by (rule file_step[OF t(12) w(4)]) (use sp(1) so(1) w(2) sl in simp_all)
      moreover have "filedata i w = filedata i s" using calculation(1) so(2) fd w(2) t(13) by (simp add: filedata_def)
      moreover have "nfree w = nfree t" using w(2) fw(1) sp(3) by (simp add: nfree_def)
      moreover have "fframe i s w" using txf_fframe[OF txf_trans[OF t(2) w(4)]] w(3) t(3) by simp
      ultimately show "mapped i k 1 (NDIRECT + j) s n w" using w(1) t(5,10,14) z by (auto simp: mapped_def)
    qed
  qed
qed


lemma bmap_indirect_ok:
  fixes s :: "'s fs_state_scheme"
  assumes "file_ok i s" "tx {} (k + 3) s" "a = fslot i s MAXFILE" "a \<noteq> 0" "1 \<le> nfree s" "j < NINDIRECT"
  shows "runs (bmap_indirect 1 a j s) (mapped i k 1 (NDIRECT + j) s)"
proof -
  have ar: "a < disksize s" using slot_in_range[OF assms(1), of MAXFILE] assms(3,4) by simp
  have ent: "fslot i s (NDIRECT + j) = unat (blk32 (cur s a) (4 * j))" using assms(3,4,6) by (simp add: slot_def MAXFILE_def)
  show ?thesis unfolding bmap_indirect_def runs_bindO
  proof (rule runs_mono[OF tx_got[OF assms(2) ar]], simp, simp, elim conjE)
    fix bp t assume t: "tx (insert bp {}) (k + 3) t" "bp \<notin> {}" "has_key (bufs t bp) a" "b_data (bufs t bp) = cur s a" "clean t bp" "txf s t" "cur t = cur s" "disk t = disk s"
    note f = txf_fs[OF t(6)] meta_txf[OF t(6)]
    have sl: "fslot i t = fslot i s" using f(2) t(7) by simp
    have ft: "file_ok i t" by (rule file_step[OF assms(1) t(6)]) (use assms(1) t(7) in \<open>simp_all add: file_ok_def fs_ok_def\<close>)
    have eq: "nfree t = nfree s" "filedata i t = filedata i s" using f(1) sl t(7) by (simp_all add: nfree_def filedata_def)
    have ms: "mapped i k 1 (NDIRECT + j) t n w \<Longrightarrow> mapped i k 1 (NDIRECT + j) s n w" for n w
      using eq sl fframe_trans[OF txf_fframe[OF t(6,8)], of i w] by (simp add: mapped_def)
    show "runs (let addr = unat (blk32 (b_data (bufs t bp)) (4 * j))
       in bindO (if addr = 0 then bindO (balloc 1 t) (\<lambda>addr s. bindO (log_write bp (upd_data bp (\<lambda>a. put32 a (4 * j) (of_nat addr)) s)) (\<lambda>_ s. Ret addr s))
               else Ret addr t) (\<lambda>addr s. bindO (brelse bp s) (\<lambda>_ s. Ret addr s))) (mapped i k 1 (NDIRECT + j) s)"
    proof (cases "fslot i s (NDIRECT + j) = 0")
      case True
      have "runs (balloc 1 t) (\<lambda>n t. runs (log_write bp (upd_data bp (\<lambda>a. put32 a (4 * j) (of_nat n)) t))
          (\<lambda>_ u. runs (brelse bp u) (\<lambda>_ w. mapped i k 1 (NDIRECT + j) s n w)))"
        by (rule runs_mono[OF bmap_indirect_fill[OF ft t(1) _ assms(4) t(3) _ _ assms(6)]])
          (use assms(3,5) t(4,7) sl eq True ms in \<open>auto elim!: runs_mono\<close>)
      then show ?thesis using True ent t(4) by simp
    next
      case False
      have "runs (brelse bp t) (\<lambda>_ w. mapped i k 1 (NDIRECT + j) s (fslot i s (NDIRECT + j)) w)"
      proof (rule runs_mono[OF tx_release[OF t(1,2,5)]])
        fix w assume "tx_step {} (k + 3) (cur t) t w"
        then have w: "tx {} k w" "cur w = cur t" "disk w = disk t" "txf t w" using tx_less[of "{}" "k + 3" w k] by (auto simp: tx_step_def)
        have fw: "file_ok i w" by (rule file_step[OF ft w(4)]) (use ft w(2) in \<open>simp_all add: file_ok_def fs_ok_def\<close>)
        have "fslot i w = fslot i s" "nfree w = nfree t" using txf_fs[OF w(4)] w(2) sl by (simp_all add: nfree_def)
        moreover have "fframe i s w" using txf_fframe[OF txf_trans[OF t(6) w(4)]] w(3) t(8) by simp
        ultimately show "mapped i k 1 (NDIRECT + j) s (fslot i s (NDIRECT + j)) w"
          using w fw False eq t(7) by (simp add: mapped_def filedata_def)
      qed
      then show ?thesis using False ent t(4) by simp
    qed
  qed
qed

lemma bmap_runs:
  fixes s :: "'s fs_state_scheme"
  assumes "file_ok i s" "tx {} (k + 5) s" "2 \<le> nfree s" "bn < MAXFILE"
  shows "runs (bmap i bn s) (mapped i k 2 bn s)"
proof -
  have dev: "i_dev (icache s i) = 1" using assms(1) by (simp add: file_ok_def)
  show ?thesis
  proof (cases "bn < NDIRECT")
    case True
    have "tx {} (k + 2) s" by (rule tx_less[OF assms(2)]) simp
    from bmap_top[OF assms(1) this, of bn bn] show ?thesis using True dev assms(3)
      by (simp add: bmap_def) (erule runs_mono, simp add: mapped_def)
  next
    case False
    let ?j = "bn - NDIRECT"
    have j: "?j < NINDIRECT" "NDIRECT + ?j = bn" using assms(4) False by (auto simp: MAXFILE_def)
    have tx: "tx {} (k + 3 + 2) s" by (rule tx_less[OF assms(2)]) simp
    have "runs (let addr = i_addrs (icache s i) ! NDIRECT
        in if addr = 0 then bindO (balloc 1 s) (\<lambda>addr s. Ret addr (set_addr i NDIRECT addr s)) else Ret addr s)
        (\<lambda>a t. runs (bmap_indirect 1 a ?j t) (mapped i k 2 bn s))"
    proof (rule runs_mono[OF bmap_top[OF assms(1) tx, of NDIRECT MAXFILE]])
      fix a t assume m: "mapped i (k + 3) 1 MAXFILE s a t"
      then have t: "file_ok i t" "tx {} (k + 3) t" "a = fslot i t MAXFILE" "a \<noteq> 0" "1 \<le> nfree t" using assms(3) by (auto simp: mapped_def)
      show "runs (bmap_indirect 1 a ?j t) (mapped i k 2 bn s)"
        by (rule runs_mono[OF bmap_indirect_ok[OF t j(1)]]) (use m j(2) fframe_trans in \<open>fastforce simp: mapped_def\<close>)
    qed (use assms(3) in simp_all)
    then show ?thesis using False j dev by (simp add: bmap_def Let_def)
  qed
qed

subsection \<open>Chunks\<close>

lemma BSIZE_pos [simp]: "0 < BSIZE"
  by (simp add: BSIZE_def)

definition nchunks :: "nat \<Rightarrow> nat \<Rightarrow> nat" where
  "nchunks off n = (if n = 0 then 0 else (off + n - 1) div BSIZE - off div BSIZE + 1)"

lemma chunk_block: "off mod BSIZE + chunk off n \<le> BSIZE"
proof -
  have "chunk off n \<le> BSIZE - off mod BSIZE" by (simp add: chunk_def)
  then show ?thesis using mod_less_divisor[OF BSIZE_pos, of off] by linarith
qed

lemma nchunks_step:
  assumes "0 < n"
  shows "nchunks off n = Suc (nchunks (off + chunk off n) (n - chunk off n))"
proof (cases "n \<le> BSIZE - off mod BSIZE")
  case True
  then have c: "chunk off n = n" by (simp add: chunk_def)
  have "off mod BSIZE + n \<le> BSIZE" using True mod_less_divisor[OF BSIZE_pos, of off] by linarith
  moreover have "off \<le> off + n - 1 \<and> off + n - 1 < off + n" using assms by linarith
  ultimately have "(off + n - 1) div BSIZE = off div BSIZE" using in_block by blast
  then show ?thesis using assms c by (simp add: nchunks_def)
next
  case False
  then have c: "chunk off n = BSIZE - off mod BSIZE" by (simp add: chunk_def)
  let ?q = "off div BSIZE"
  have o: "off + chunk off n = BSIZE * (?q + 1)"
    unfolding distrib_left c using mod_less_divisor[OF BSIZE_pos, of off] mult_div_mod_eq[of BSIZE off] by linarith
  have e: "off + chunk off n + (n - chunk off n) - 1 = off + n - 1" using chunk_le[of off n] by linarith
  have "BSIZE * (?q + 1) \<le> off + n - 1" using o False c assms by linarith
  then have "?q + 1 \<le> (off + n - 1) div BSIZE" by (simp add: less_eq_div_iff_mult_less_eq mult.commute)
  moreover have "(off + chunk off n) div BSIZE = ?q + 1" unfolding o by simp
  moreover have "n - chunk off n \<noteq> 0" using False c by simp
  ultimately show ?thesis using assms e by (simp add: nchunks_def)
qed

lemma map_block:
  assumes "sk (off div BSIZE) \<noteq> 0" "off div BSIZE < MAXFILE" "off mod BSIZE + m \<le> BSIZE"
  shows "map (v (sk (off div BSIZE))) [off mod BSIZE..<off mod BSIZE + m] = map (fdat sk v) [off..<off + m]"
proof (rule nth_equalityI)
  fix j assume "j < length (map (v (sk (off div BSIZE))) [off mod BSIZE..<off mod BSIZE + m])"
  then have j: "j < m" by simp
  then have "(off + j) div BSIZE = off div BSIZE" "(off + j) mod BSIZE = off mod BSIZE + j"
    using in_block[OF assms(3), of "off + j"] mod_add_left_eq[of off BSIZE j] assms(3) by auto
  then show "map (v (sk (off div BSIZE))) [off mod BSIZE..<off mod BSIZE + m] ! j = map (fdat sk v) [off..<off + m] ! j"
    using j assms(1,2) by (simp add: fdat_def)
qed simp

lemma overlay_split:
  "m \<le> length bs \<Longrightarrow> overlay (off + m) (drop m bs) (overlay off (take m bs) f) = overlay off bs f"
  by (auto simp: overlay_def fun_eq_iff)

lemma overlay_nil [simp]: "overlay off [] f = f"
  by (rule ext) (auto simp: overlay_def)

lemma map_overlay: "map (overlay off bs f) [off..<off + length bs] = bs"
  by (rule nth_equalityI) (auto simp: overlay_def)

subsection \<open>Reading\<close>

lemma access_read:
  assumes "tx H (Suc k) s" "n < disksize s" "n \<notin> log_area s" "unheld H n s"
  shows "runs (access 1 n (\<lambda>d. (h d, None)) s) (\<lambda>r t. r = h (cur s n) \<and> tx_step H (Suc k) (cur s) s t)"
  using access_runs[OF assms, of "\<lambda>d. (h d, None)"] by simp

lemma access_write:
  assumes "tx H (Suc k) s" "n < disksize s" "n \<notin> log_area s" "unheld H n s"
  shows "runs (access 1 n (\<lambda>d. (c, Some (h d))) s) (\<lambda>r t. r = c \<and> tx_step H k ((cur s)(n := h (cur s n))) s t)"
  using access_runs[OF assms, of "\<lambda>d. (c, Some (h d))"] by simp

lemma file_same:
  fixes t :: "'s fs_state_scheme"
  assumes "file_ok i s" "txf s t" "cur t = cur s"
  shows "file_ok i t" "fslot i t = fslot i s" "filedata i t = filedata i s" "nfree t = nfree s"
  using file_step[OF assms(1,2)] assms(1,3) txf_fs[OF assms(2)]
  by (simp_all add: file_ok_def fs_ok_def filedata_def nfree_def)

lemma bmap_mapped:
  fixes s :: "'s fs_state_scheme"
  assumes "file_ok i s" "tx {} k s" "bn < MAXFILE" "fslot i s bn \<noteq> 0"
  shows "runs (bmap i bn s) (\<lambda>a t. a = fslot i s bn \<and> tx_step {} k (cur s) s t)"
proof -
  have dev: "i_dev (icache s i) = 1" using assms(1) by (simp add: file_ok_def)
  show ?thesis
  proof (cases "bn < NDIRECT")
    case True
    then show ?thesis using assms(4) dev tx_step_refl[OF assms(2)] by (simp add: bmap_def Let_def slot_def)
  next
    case False
    let ?a = "i_addrs (icache s i) ! NDIRECT"
    have j: "bn - NDIRECT < NINDIRECT" "?a \<noteq> 0" "fslot i s bn = unat (blk32 (cur s ?a) (4 * (bn - NDIRECT)))"
      using assms(3,4) False by (auto simp: MAXFILE_def slot_def split: if_splits)
    have ar: "?a < disksize s" using slot_in_range[OF assms(1), of MAXFILE] j(2) slot_max by metis
    have "runs (bmap_indirect 1 ?a (bn - NDIRECT) s) (\<lambda>a t. a = fslot i s bn \<and> tx_step {} k (cur s) s t)"
      unfolding bmap_indirect_def runs_bindO
    proof (rule runs_mono[OF tx_got[OF assms(2) ar]], simp, simp, elim conjE)
      fix bp t assume t: "tx (insert bp {}) k t" "bp \<notin> {}" "b_data (bufs t bp) = cur s ?a" "clean t bp" "txf s t" "cur t = cur s" "disk t = disk s"
      have "runs (brelse bp t) (\<lambda>_ w. tx_step {} k (cur s) s w)"
        by (rule runs_mono[OF tx_release[OF t(1,2,4)]]) (use tx_step_start[OF t(5,7), of "{}"] t(6) in simp)
      then show "runs (let addr = unat (blk32 (b_data (bufs t bp)) (4 * (bn - NDIRECT)))
        in bindO (if addr = 0 then bindO (balloc 1 t) (\<lambda>addr s. bindO (log_write bp (upd_data bp (\<lambda>a. put32 a (4 * (bn - NDIRECT)) (of_nat addr)) s)) (\<lambda>_ s. Ret addr s))
               else Ret addr t) (\<lambda>addr s. bindO (brelse bp s) (\<lambda>_ s. Ret addr s))) (\<lambda>a t. a = fslot i s bn \<and> tx_step {} k (cur s) s t)"
        using t(3) j(3) assms(4) by simp
    qed
    then show ?thesis using False j dev by (simp add: bmap_def Let_def)
  qed
qed

definition range_mapped :: "nat \<Rightarrow> nat \<Rightarrow> nat \<Rightarrow> 's fs_state_scheme \<Rightarrow> bool" where
  "range_mapped i off n s \<longleftrightarrow> (\<forall>p. off \<le> p \<longrightarrow> p < off + n \<longrightarrow> p div BSIZE < MAXFILE \<and> fslot i s (p div BSIZE) \<noteq> 0)"

lemma upt_append: "m \<le> n \<Longrightarrow> map f [off..<off + n] = map f [off..<off + m] @ map f [off + m..<off + m + (n - m)]"
  using upt_add_eq_append[of off "off + m" "n - m"] by simp

lemma read_loop_ok:
  fixes s :: "'s fs_state_scheme"
  assumes "file_ok i s" "tx {} (Suc k) s" "range_mapped i off n s"
  shows "runs (read_loop i off n s) (\<lambda>bs t. bs = map (filedata i s) [off..<off + n] \<and> tx_step {} (Suc k) (cur s) s t)"
  using assms
proof (induction n arbitrary: off s rule: less_induct)
  case (less n)
  show ?case
  proof (cases "n = 0")
    case True
    then show ?thesis using tx_step_refl[OF less.prems(2)] by (subst read_loop.simps) simp
  next
    case False
    let ?m = "chunk off n" and ?bn = "off div BSIZE"
    have bn: "?bn < MAXFILE" "fslot i s ?bn \<noteq> 0" using less.prems(3) False by (auto simp: range_mapped_def)
    have m: "n - ?m < n" "?m \<le> n" using chunk_pos[of n off] False by (auto simp del: chunk_pos)
    have "runs (bmap i ?bn s) (\<lambda>addr s'. runs (access (i_dev (icache s' i)) addr (\<lambda>d. (map d [off mod BSIZE..<off mod BSIZE + ?m], None)) s') (\<lambda>bs s''.
        runs (read_loop i (off + ?m) (n - ?m) s'') (\<lambda>rest t. bs @ rest = map (filedata i s) [off..<off + n] \<and> tx_step {} (Suc k) (cur s) s t)))"
    proof (rule runs_mono[OF bmap_mapped[OF less.prems(1,2) bn]], elim conjE)
      fix addr t assume a: "addr = fslot i s ?bn" and st: "tx_step {} (Suc k) (cur s) s t"
      then have t: "tx {} (Suc k) t" "txf s t" "cur t = cur s" by (auto simp: tx_step_def)
      note ft = file_same[OF less.prems(1) t(2,3)]
      have ar: "addr < disksize t" "addr \<notin> log_area t" "i_dev (icache t i) = 1"
        using slot_in_range[OF ft(1), of ?bn] a bn(2) ft by (auto simp: file_ok_def)
      show "runs (access (i_dev (icache t i)) addr (\<lambda>d. (map d [off mod BSIZE..<off mod BSIZE + ?m], None)) t) (\<lambda>bs s''.
        runs (read_loop i (off + ?m) (n - ?m) s'') (\<lambda>rest t. bs @ rest = map (filedata i s) [off..<off + n] \<and> tx_step {} (Suc k) (cur s) s t))"
        unfolding ar(3)
      proof (rule runs_mono[OF access_read[OF t(1) ar(1,2) unheld_empty]], elim conjE)
        fix bs u assume b: "bs = map (cur t addr) [off mod BSIZE..<off mod BSIZE + ?m]" and su: "tx_step {} (Suc k) (cur t) t u"
        have su': "tx_step {} (Suc k) (cur s) s u" using tx_step_trans[OF st su] t(3) by simp
        then have u: "tx {} (Suc k) u" "txf s u" "cur u = cur s" by (auto simp: tx_step_def)
        note fu = file_same[OF less.prems(1) u(2,3)]
        have bs: "bs = map (filedata i s) [off..<off + ?m]"
          unfolding b a filedata_def t(3) by (rule map_block[of "fslot i s", OF bn(2,1) chunk_block])
        have rm: "range_mapped i (off + ?m) (n - ?m) u" using less.prems(3) fu(2) m by (auto simp: range_mapped_def)
        show "runs (read_loop i (off + ?m) (n - ?m) u) (\<lambda>rest w. bs @ rest = map (filedata i s) [off..<off + n] \<and> tx_step {} (Suc k) (cur s) s w)"
          by (rule runs_mono[OF less.IH[OF m(1) fu(1) u(1) rm]])
            (use bs tx_step_trans[OF su'] u(3) fu(3) upt_append[OF m(2), of "filedata i s" off] in simp)
      qed
    qed
    then show ?thesis using False by (subst read_loop.simps) simp
  qed
qed

lemma readi_bytes_ok:
  fixes s :: "'s fs_state_scheme"
  assumes "file_ok i s" "tx {} (Suc k) s" "range_mapped i (unat off) (unat n) s" "off \<le> i_size (icache s i)"
    "unat off + unat n \<le> unat (i_size (icache s i))"
  shows "runs (readi_bytes i off n s) (\<lambda>r t. r = Some (map (filedata i s) [unat off..<unat off + unat n]) \<and> tx_step {} (Suc k) (cur s) s t)"
proof -
  have "unat off + unat n < 2 ^ 32" using assms(5) unsigned_less[where ?'a = nat, of "i_size (icache s i)"] by simp
  then have u: "unat (off + n) = unat off + unat n" by (simp add: unat_plus_if')
  then have c: "\<not> i_size (icache s i) < off" "\<not> off + n < off" "\<not> i_size (icache s i) < off + n"
    using assms(4,5) by (auto simp: word_less_nat_alt)
  show ?thesis using c by (simp add: readi_bytes_def Let_def) (rule read_loop_ok[OF assms(1-3)])
qed

subsection \<open>Writing\<close>

definition written :: "nat \<Rightarrow> nat \<Rightarrow> nat \<Rightarrow> u8 list \<Rightarrow> 's fs_state_scheme \<Rightarrow> 's fs_state_scheme \<Rightarrow> bool" where
  "written i k off bs s t \<longleftrightarrow> file_ok i t \<and> tx {} k t \<and> filedata i t = overlay off bs (filedata i s) \<and> fframe i s t
     \<and> range_mapped i off (length bs) t \<and> (\<forall>m < MAXFILE. fslot i s m \<noteq> 0 \<longrightarrow> fslot i t m = fslot i s m)
     \<and> nfree s \<le> nfree t + 2 * nchunks off (length bs)"

lemma write_chunk:
  fixes s :: "'s fs_state_scheme"
  assumes "file_ok i s" "tx {} (k + 6) s" "2 \<le> nfree s" "off div BSIZE < MAXFILE" "off mod BSIZE + length bs \<le> BSIZE" "bs \<noteq> []"
  shows "runs (bmap i (off div BSIZE) s) (\<lambda>a t. runs (access (i_dev (icache t i)) a (\<lambda>d. ((), Some (patch (off mod BSIZE) bs d))) t)
    (\<lambda>_ u. written i k off bs s u))"
proof -
  let ?bn = "off div BSIZE"
  have tx: "tx {} (Suc k + 5) s" by (rule tx_less[OF assms(2)]) simp
  show ?thesis
  proof (rule runs_mono[OF bmap_runs[OF assms(1) tx assms(3,4)]])
    fix a t assume m: "mapped i (Suc k) 2 ?bn s a t"
    then have t: "a \<noteq> 0" "a = fslot i t ?bn" "file_ok i t" "tx {} (Suc k) t" "filedata i t = filedata i s" "fframe i s t" by (auto simp: mapped_def)
    have ar: "a < disksize t" "a \<notin> log_area t" "a \<notin> meta t" using slot_in_range[OF t(3), of ?bn] t(1,2) by auto
    have dev: "i_dev (icache t i) = 1" using t(3) by (simp add: file_ok_def)
    have vs: "vol (fs_sb t) (meta t) (cur t)" "slots_ok (fs_sb t) (meta t) (cur t) (fslot i t)" using t(3) by (simp_all add: file_ok_def fs_ok_def)
    have bb: "\<forall>b < sb_size (fs_sb t). BBLOCK b (fs_sb t) \<noteq> a" using ar(3) BBLOCK_meta by metis
    let ?d = "patch (off mod BSIZE) bs (cur t a)"
    note sp = slots_ok_put[OF vs bb, of ?d]
    have "fslot i t MAXFILE \<noteq> a" if "fslot i t MAXFILE \<noteq> 0"
      using vs(2) assms(4) that t(2) unfolding slots_ok_def by (metis less_irrefl)
    then have sl: "slot (icache t i) ((cur t)(a := ?d)) = fslot i t" by (intro slot_cong) (simp add: slot_max)
    have fd: "fdat (fslot i t) ((cur t)(a := ?d)) = overlay off bs (fdat (fslot i t) (cur t))"
      using fdat_write[OF vs(2) _ assms(5,4)] t(1,2) by simp
    show "runs (access (i_dev (icache t i)) a (\<lambda>d. ((), Some (patch (off mod BSIZE) bs d))) t) (\<lambda>_ u. written i k off bs s u)"
      unfolding dev
    proof (rule runs_mono[OF access_write[OF t(4) ar(1,2) unheld_empty]], elim conjE)
      fix u assume st: "tx_step {} k ((cur t)(a := ?d)) t u"
      then have u: "tx {} k u" "cur u = (cur t)(a := ?d)" "txf t u" "disk u = disk t" by (auto simp: tx_step_def)
      note f = txf_fs[OF u(3)]
      have su: "fslot i u = fslot i t" using f(2) u(2) sl by simp
      have fu: "file_ok i u" by (rule file_step[OF t(3) u(3)]) (use sp(1,2) u(2) sl in simp_all)
      have "filedata i u = overlay off bs (filedata i s)" using fd su u(2) t(5) by (simp add: filedata_def)
      moreover have "fframe i s u" by (rule fframe_trans[OF t(6) txf_fframe[OF u(3,4)]])
      moreover have "p div BSIZE = ?bn" if "off \<le> p" "p < off + length bs" for p using in_block[OF assms(5), of p] that by blast
      then have "range_mapped i off (length bs) u" using su t(1,2) assms(4) by (auto simp: range_mapped_def)
      moreover have "nfree u = nfree t" using sp(3) u(2) f(1) by (simp add: nfree_def)
      moreover have "1 \<le> nchunks off (length bs)" using assms(6) by (simp add: nchunks_def)
      ultimately show "written i k off bs s u" using fu u(1) su m by (auto simp: written_def mapped_def)
    qed
  qed
qed

lemma written_join:
  fixes s :: "'s fs_state_scheme"
  assumes "written i j off (take m bs) s t" "written i k (off + m) (drop m bs) t u" "m = chunk off (length bs)" "bs \<noteq> []"
  shows "written i k off bs s u"
proof -
  have m: "m \<le> length bs" "0 < m" using assms(3,4) by auto
  have r: "range_mapped i off (length bs) u" unfolding range_mapped_def
  proof (intro allI impI)
    fix p assume p: "off \<le> p" "p < off + length bs"
    show "p div BSIZE < MAXFILE \<and> fslot i u (p div BSIZE) \<noteq> 0"
    proof (cases "p < off + m")
      case True
      then have "p div BSIZE < MAXFILE" "fslot i t (p div BSIZE) \<noteq> 0"
        using assms(1) p m by (auto simp: written_def range_mapped_def)
      then show ?thesis using assms(2) by (auto simp: written_def)
    next
      case False
      then show ?thesis using assms(2) p m by (auto simp: written_def range_mapped_def)
    qed
  qed
  have "nchunks off m = 1" "nchunks off (length bs) = Suc (nchunks (off + m) (length bs - m))"
  proof -
    show "nchunks off (length bs) = Suc (nchunks (off + m) (length bs - m))" using nchunks_step[of "length bs" off] assms(3,4) by simp
    have "chunk off m = m" using assms(3) by (simp add: chunk_def)
    then show "nchunks off m = 1" using nchunks_step[OF m(2), of off] by (simp add: nchunks_def)
  qed
  then have "nfree s \<le> nfree u + 2 * nchunks off (length bs)" using assms(1,2) m by (simp add: written_def)
  then show ?thesis using assms(1,2) r overlay_split[OF m(1), of off] fframe_trans[of i s t u]
    by (auto simp: written_def)
qed

lemma write_loop_ok:
  fixes s :: "'s fs_state_scheme"
  assumes "file_ok i s" "tx {} (k + 6 * nchunks off (length bs)) s" "2 * nchunks off (length bs) \<le> nfree s" "off + length bs \<le> MAXFILE * BSIZE"
  shows "runs (write_loop i off bs s) (\<lambda>_ t. written i k off bs s t)"
  using assms
proof (induction "length bs" arbitrary: off bs s rule: less_induct)
  case less
  show ?case
  proof (cases "bs = []")
    case True
    then show ?thesis using less.prems(1,2) by (subst write_loop.simps) (simp add: written_def range_mapped_def nchunks_def)
  next
    case False
    let ?m = "chunk off (length bs)"
    have n: "nchunks off (length bs) = Suc (nchunks (off + ?m) (length (drop ?m bs)))" using nchunks_step[of "length bs" off] False by simp
    have "off < MAXFILE * BSIZE" using less.prems(4) False by (cases bs) auto
    then have bn: "off div BSIZE < MAXFILE" by (rule less_mult_imp_div_less)
    have pos: "0 < ?m" "?m \<le> length bs" using False by auto
    have tk: "off mod BSIZE + length (take ?m bs) \<le> BSIZE" "take ?m bs \<noteq> []" using chunk_block[of off "length bs"] pos False by auto
    let ?k = "k + 6 * nchunks (off + ?m) (length (drop ?m bs))"
    have tx: "tx {} (?k + 6) s" "2 \<le> nfree s" using less.prems(2,3) n by (simp_all add: algebra_simps)
    have len: "length (drop ?m bs) < length bs" using pos unfolding length_drop by linarith
    have "runs (bmap i (off div BSIZE) s) (\<lambda>a t. runs (access (i_dev (icache t i)) a (\<lambda>d. ((), Some (patch (off mod BSIZE) (take ?m bs) d))) t)
      (\<lambda>_ u. runs (write_loop i (off + ?m) (drop ?m bs) u) (\<lambda>_ t. written i k off bs s t)))"
    proof (rule runs_mono[OF write_chunk[OF less.prems(1) tx bn tk]], erule runs_mono)
      fix u assume w: "written i ?k off (take ?m bs) s u"
      have u: "file_ok i u" "tx {} ?k u" using w by (simp_all add: written_def)
      have one: "nchunks off (length (take ?m bs)) = 1"
        using nchunks_step[of ?m off] pos by (simp add: nchunks_def chunk_def)
      show "runs (write_loop i (off + ?m) (drop ?m bs) u) (\<lambda>_ t. written i k off bs s t)"
      proof (rule runs_mono[OF less.hyps[OF len u]])
        show "2 * nchunks (off + ?m) (length (drop ?m bs)) \<le> nfree u" using w one n less.prems(3) by (simp add: written_def)
        show "off + ?m + length (drop ?m bs) \<le> MAXFILE * BSIZE" using pos less.prems(4) by simp
      qed (rule written_join[OF w _ refl False])
    qed
    then show ?thesis using False by (subst write_loop.simps) (simp add: Let_def)
  qed
qed

text \<open>The inode block belongs to no file and is not a bit map block.\<close>

lemma iupdate_ok:
  fixes s :: "'s fs_state_scheme"
  assumes "file_ok i s" "tx {} (Suc k) s"
  shows "runs (iupdate i s) (\<lambda>_ t. file_ok i t \<and> tx {} k t \<and> txf s t \<and> disk t = disk s \<and> fslot i t = fslot i s
    \<and> filedata i t = filedata i s \<and> nfree t = nfree s
    \<and> cur t = (cur s)(IBLOCK (i_inum (icache s i)) (fs_sb s) := dinode_put (icache s i) (dinode_off (i_inum (icache s i))) (cur s (IBLOCK (i_inum (icache s i)) (fs_sb s)))))"
proof -
  let ?a = "IBLOCK (i_inum (icache s i)) (fs_sb s)"
  let ?d = "dinode_put (icache s i) (dinode_off (i_inum (icache s i)))"
  have a: "?a < disksize s" "?a \<notin> log_area s" "\<forall>b < sb_size (fs_sb s). BBLOCK b (fs_sb s) \<noteq> ?a" "?a \<in> meta s" "i_dev (icache s i) = 1"
    using assms(1) by (auto simp: file_ok_def fs_ok_def meta_def) (metis)
  have vs: "vol (fs_sb s) (meta s) (cur s)" "slots_ok (fs_sb s) (meta s) (cur s) (fslot i s)" using assms(1) by (simp_all add: file_ok_def fs_ok_def)
  note sp = slots_ok_put[OF vs a(3), of "?d (cur s ?a)"]
  have ns: "fslot i s m \<noteq> ?a" if "fslot i s m \<noteq> 0" for m using vs(2) a(4) that unfolding slots_ok_def by metis
  have sl: "slot (icache s i) ((cur s)(?a := ?d (cur s ?a))) = fslot i s" using ns[of MAXFILE] by (intro slot_cong) (simp add: slot_max)
  have fd: "fdat (fslot i s) ((cur s)(?a := ?d (cur s ?a))) = fdat (fslot i s) (cur s)" using ns by (intro fdat_other) blast
  have "runs (access 1 ?a (\<lambda>d. ((), Some (?d d))) s) (\<lambda>_ t. file_ok i t \<and> tx {} k t \<and> txf s t \<and> disk t = disk s \<and> fslot i t = fslot i s
    \<and> filedata i t = filedata i s \<and> nfree t = nfree s \<and> cur t = (cur s)(?a := ?d (cur s ?a)))"
  proof (rule runs_mono[OF access_write[OF assms(2) a(1,2) unheld_empty]], elim conjE)
    fix t assume "tx_step {} k ((cur s)(?a := ?d (cur s ?a))) s t"
    then have t: "tx {} k t" "cur t = (cur s)(?a := ?d (cur s ?a))" "txf s t" "disk t = disk s" by (auto simp: tx_step_def)
    note f = txf_fs[OF t(3)]
    have "fslot i t = fslot i s" using f(2) t(2) sl by simp
    moreover have "file_ok i t" by (rule file_step[OF assms(1) t(3)]) (use sp(1,2) t(2) sl in simp_all)
    moreover have "nfree t = nfree s" using sp(3) t(2) f(1) by (simp add: nfree_def)
    ultimately show "file_ok i t \<and> tx {} k t \<and> txf s t \<and> disk t = disk s \<and> fslot i t = fslot i s
      \<and> filedata i t = filedata i s \<and> nfree t = nfree s \<and> cur t = (cur s)(?a := ?d (cur s ?a))"
      using t fd by (simp add: filedata_def)
  qed
  then show ?thesis using a(5) by (simp add: iupdate_def Let_def)
qed

text \<open>A change of the inode that keeps the block addresses keeps the file.\<close>

lemma file_upd_inode:
  assumes "\<And>ip. i_addrs (f ip) = i_addrs ip \<and> i_dev (f ip) = i_dev ip \<and> i_inum (f ip) = i_inum ip"
  shows "file_ok i (upd_inode i f s) = file_ok i s" "fslot i (upd_inode i f s) = fslot i s" "filedata i (upd_inode i f s) = filedata i s"
    "nfree (upd_inode i f s) = nfree s" "tx H k (upd_inode i f s) = tx H k s" "cur (upd_inode i f s) = cur s"
proof -
  have sl: "slot (f ip) v = slot ip v" for ip v using assms by (simp add: slot_def fun_eq_iff)
  show "file_ok i (upd_inode i f s) = file_ok i s" "fslot i (upd_inode i f s) = fslot i s" "filedata i (upd_inode i f s) = filedata i s"
    "nfree (upd_inode i f s) = nfree s" "tx H k (upd_inode i f s) = tx H k s" "cur (upd_inode i f s) = cur s"
    using assms sl by (simp_all add: upd_inode_def file_ok_def filedata_def)
qed

lemma file_set_size:
  fixes s :: "'s fs_state_scheme"
  shows "file_ok i (upd_inode i (\<lambda>ip. ip\<lparr>i_size := n\<rparr>) s) = file_ok i s" "fslot i (upd_inode i (\<lambda>ip. ip\<lparr>i_size := n\<rparr>) s) = fslot i s" "filedata i (upd_inode i (\<lambda>ip. ip\<lparr>i_size := n\<rparr>) s) = filedata i s" "tx H k (upd_inode i (\<lambda>ip. ip\<lparr>i_size := n\<rparr>) s) = tx H k s"
  by (rule file_upd_inode, simp)+

definition wrote_file :: "nat \<Rightarrow> nat \<Rightarrow> nat \<Rightarrow> u8 list \<Rightarrow> 's fs_state_scheme \<Rightarrow> 's fs_state_scheme \<Rightarrow> bool" where
  "wrote_file i k off bs s t \<longleftrightarrow> file_ok i t \<and> tx {} k t \<and> filedata i t = overlay off bs (filedata i s) \<and> disk t = disk s \<and> mem t = mem s
     \<and> range_mapped i off (length bs) t \<and> unat (i_size (icache t i)) = max (unat (i_size (icache s i))) (off + length bs)
     \<and> i_type (icache t i) = i_type (icache s i) \<and> (\<forall>m < MAXFILE. fslot i s m \<noteq> 0 \<longrightarrow> fslot i t m = fslot i s m)
     \<and> (\<forall>j. j \<noteq> i \<longrightarrow> icache t j = icache s j) \<and> fs_sb t = fs_sb s \<and> cur_cwd t = cur_cwd s \<and> cur_pid t = cur_pid s"

lemma writei_grow:
  fixes s :: "'s fs_state_scheme"
  assumes "written i (Suc k) (unat off) bs s t" "i_size (icache t i) < off + n" "unat (off + n) = unat off + length bs"
  shows "runs (iupdate i (upd_inode i (\<lambda>ip. ip\<lparr>i_size := off + n\<rparr>) t)) (\<lambda>_ x. wrote_file i k (unat off) bs s x)"
proof -
  have t: "file_ok i t" "tx {} (Suc k) t" "fframe i s t" using assms(1) by (simp_all add: written_def)
  note f = fframe_fields[OF t(3)]
  let ?u = "upd_inode i (\<lambda>ip. ip\<lparr>i_size := off + n\<rparr>) t"
  note fu = file_set_size(1-3)[of i "off + n" t] file_set_size(4)[of "{}" "Suc k" i "off + n" t]
  have fok: "file_ok i ?u" "tx {} (Suc k) ?u" using fu(1,4) t by simp_all
  have "unat (i_size (icache s i)) < unat off + length bs" using assms(2) f(9) assms(3) by (simp add: word_less_nat_alt)
  then have mx: "unat (off + n) = max (unat (i_size (icache s i))) (unat off + length bs)" using assms(3) by simp
  show "runs (iupdate i ?u) (\<lambda>_ x. wrote_file i k (unat off) bs s x)"
  proof (rule runs_mono[OF iupdate_ok[OF fok]], elim conjE)
    fix x assume x: "file_ok i x" "tx {} k x" "txf ?u x" "disk x = disk ?u" "fslot i x = fslot i ?u" "filedata i x = filedata i ?u"
    note fx = txf_fs[OF x(3)] txf_fields[OF x(3)]
    have ix: "icache x = (icache t)(i := (icache t i)\<lparr>i_size := off + n\<rparr>)" "disk ?u = disk t" "mem ?u = mem t" "fs_sb ?u = fs_sb t" "cur_cwd ?u = cur_cwd t" "cur_pid ?u = cur_pid t"
      using fx(2) by (simp_all add: upd_inode_def)
    have rm: "range_mapped i (unat off) (length bs) x" "filedata i x = overlay (unat off) bs (filedata i s)" "\<forall>m < MAXFILE. fslot i s m \<noteq> 0 \<longrightarrow> fslot i x m = fslot i s m"
      using assms(1) x(5,6) fu(2,3) by (simp_all add: written_def range_mapped_def)
    show "wrote_file i k (unat off) bs s x"
      unfolding wrote_file_def using rm x(1,2,4) ix fx f mx by simp
  qed
qed

lemma writei_bytes_ok:
  fixes s :: "'s fs_state_scheme"
  assumes "file_ok i s" "tx {} (Suc k + 6 * nchunks (unat off) (length bs)) s" "2 * nchunks (unat off) (length bs) \<le> nfree s"
    "unat off + length bs \<le> MAXFILE * BSIZE" "off \<le> i_size (icache s i)" "unat n = length bs"
  shows "runs (writei_bytes i bs off n s) (\<lambda>r t. r = int (length bs) \<and> wrote_file i k (unat off) bs s t)"
proof -
  have M: "MAXFILE * BSIZE = 71680" by (simp add: fs_sizes)
  have u: "unat (off + n) = unat off + length bs" using assms(4,6) M by (simp add: unat_plus_if')
  have sn: "sint n = int (length bs)" using sint_small[of n] assms(4,6) M by simp
  have c: "\<not> i_size (icache s i) < off" "\<not> off + n < off" "\<not> of_nat (MAXFILE * BSIZE) < off + n"
    using assms(4,5) u M by (auto simp: word_less_nat_alt word_le_nat_alt)
  have "runs (write_loop i (unat off) bs s) (\<lambda>_ t. runs (if 0 < n \<and> i_size (icache t i) < off + n then iupdate i (upd_inode i (\<lambda>ip. ip\<lparr>i_size := off + n\<rparr>) t) else Ret () t)
       (\<lambda>_ t. sint n = int (length bs) \<and> wrote_file i k (unat off) bs s t))"
  proof (rule runs_mono[OF write_loop_ok[OF assms(1-4)]])
    fix t assume w: "written i (Suc k) (unat off) bs s t"
    then have t: "file_ok i t" "tx {} (Suc k) t" "fframe i s t" by (simp_all add: written_def)
    note f = fframe_fields[OF t(3)]
    show "runs (if 0 < n \<and> i_size (icache t i) < off + n then iupdate i (upd_inode i (\<lambda>ip. ip\<lparr>i_size := off + n\<rparr>) t) else Ret () t)
       (\<lambda>_ t. sint n = int (length bs) \<and> wrote_file i k (unat off) bs s t)"
    proof (cases "0 < n \<and> i_size (icache t i) < off + n")
      case True
      have "runs (iupdate i (upd_inode i (\<lambda>ip. ip\<lparr>i_size := off + n\<rparr>) t)) (\<lambda>_ x. wrote_file i k (unat off) bs s x)"
        by (rule writei_grow[OF w _ u]) (use True in simp)
      then show ?thesis using True sn by simp
    next
      case False
      have "unat off + length bs \<le> unat (i_size (icache s i))"
      proof (cases "n = 0")
        case True
        then show ?thesis using assms(5,6) by (simp add: word_le_nat_alt)
      next
        case False
        then have "\<not> i_size (icache t i) < off + n" using \<open>\<not> (0 < n \<and> _)\<close> by (simp add: word_neq_0_conv)
        then show ?thesis using u f(9) by (simp add: word_less_nat_alt)
      qed
      then show ?thesis unfolding if_not_P[OF False] runs.simps
        using w f sn tx_less[OF t(2), of k] by (simp add: wrote_file_def written_def)
    qed
  qed
  then show ?thesis using c by (simp add: writei_bytes_def)
qed

section \<open>A small volume\<close>

text \<open>
  Sixty blocks: the log in blocks 2 to 32, one inode block 33, the bit map in block 34 and data from
  block 35 on. Inode 1, in cache entry 0, is an empty locked file of process 0.
\<close>

definition sb0 :: superblock where
  "sb0 = \<lparr>sb_size = 60, sb_nblocks = 25, sb_ninodes = 8, sb_nlog = 30, sb_logstart = 2, sb_inodestart = 33, sb_bmapstart = 34\<rparr>"

definition disk0 :: "nat \<Rightarrow> block" where
  "disk0 = (\<lambda>_ _. 0)(34 := (\<lambda>j. if j < 4 then -1 else if j = 4 then 7 else 0))"

definition ip0 :: inode where
  "ip0 = \<lparr>i_dev = 1, i_inum = 1, i_ref = 1, i_lock = \<lparr>sl_locked = True, sl_pid = 1\<rparr>, i_valid = True, i_type = T_FILE, i_major = 0, i_minor = 0,
     i_nlink = 1, i_size = 0, i_addrs = replicate 13 0\<rparr>"

definition fs0 :: fs_state where
  "fs0 = log_state.extend (log0\<lparr>bufs := (\<lambda>_. blank_buf), disk := disk0, disksize := 60, log_outstanding := 1, log_committing := False, lh := []\<rparr>)
     \<lparr>fs_sb = sb0, icache = (\<lambda>_. ip0\<lparr>i_ref := 0\<rparr>)(0 := ip0), cur_cwd = 0\<rparr>"

lemma fs0_fields [simp]:
  "bufs fs0 = (\<lambda>_. blank_buf)" "lru fs0 = [0..<NBUF]" "disk fs0 = disk0" "disksize fs0 = 60" "log_start fs0 = 2" "log_size fs0 = 30"
  "log_dev fs0 = 1" "lh fs0 = []" "log_outstanding fs0 = 1" "fs_sb fs0 = sb0" "icache fs0 = (\<lambda>_. ip0\<lparr>i_ref := 0\<rparr>)(0 := ip0)"
  by (simp_all add: fs0_def log0_def bio0_def bio_state.defs vga_state.defs log_state.defs)

lemma fs0_tx: "k \<le> 26 \<Longrightarrow> tx {} k fs0"
proof -
  assume "k \<le> 26"
  moreover have "binv {} fs0" by (auto simp: binv_def buf_ok_def blank_buf_def initsleeplock_def has_key_def)
  moreover have "dirty fs0 = {}" by (auto simp: dirty_def blank_buf_def)
  ultimately show ?thesis by (simp add: tx_def pinned_def LOGSIZE_def MAXOPBLOCKS_def)
qed

lemma fs0_cur: "cur fs0 = disk0"
proof -
  have "find (\<lambda>i. has_key (bufs fs0 i) n \<and> b_valid (bufs fs0 i)) [0..<NBUF] = None" for n
    by (simp add: find_None_iff blank_buf_def)
  then show ?thesis by (simp add: cur_def fun_eq_iff)
qed

lemma sb0_blocks: "b < 4096 \<Longrightarrow> BBLOCK b sb0 = 34" "j < 8 \<Longrightarrow> IBLOCK j sb0 = 33"
  by (auto simp: BBLOCK_def IBLOCK_def sb0_def fs_sizes div_eq_0_iff)

lemma sb0_size [simp]: "sb_size sb0 = 60" "sb_ninodes sb0 = 8"
  by (simp_all add: sb0_def)

lemma disk0_free: "blk_free sb0 disk0 n \<longleftrightarrow> 35 \<le> n \<and> n < 60"
proof -
  have "n < 35 \<Longrightarrow> bit (disk0 34 (n div 8)) (n mod 8)"
  proof -
    assume n: "n < 35"
    show ?thesis
    proof (cases "n < 32")
      case True
      then have "n div 8 < 4" by linarith
      then show ?thesis by (simp add: disk0_def)
    next
      case False
      then have "n = 32 \<or> n = 33 \<or> n = 34" using n by linarith
      then show ?thesis by (auto simp: disk0_def bit_numeral_rec One_nat_def)
    qed
  qed
  moreover have "\<not> bit (disk0 34 (n div 8)) (n mod 8)" if "35 \<le> n" "n < 60"
  proof -
    have "n = 35 \<or> n = 36 \<or> n = 37 \<or> n = 38 \<or> n = 39 \<or> 5 \<le> n div 8" using that(1) by linarith
    then show ?thesis by (elim disjE) (auto simp: disk0_def bit_numeral_rec One_nat_def)
  qed
  ultimately show ?thesis by (cases "n < 60") (auto simp: blk_free_def sb0_blocks bit_free_iff fs_sizes not_less[symmetric])
qed


lemma fs0_ok: "fs_ok fs0" "file_ok 0 fs0" "nfree fs0 = 25"
proof -
  have L: "log_area fs0 = {2..32}" by (auto simp: log_area_def LOGSIZE_def MAXOPBLOCKS_def)
  have m: "n \<in> meta fs0 \<Longrightarrow> n < 35" for n by (auto simp: meta_def L sb0_blocks)
  have v: "vol sb0 (meta fs0) disk0" 
    unfolding vol_def using BBLOCK_meta[of _ fs0] by (auto simp: disk0_free dest: m) (simp add: meta_def)
  show ok: "fs_ok fs0" using v by (simp add: fs_ok_def fs0_cur L sb0_blocks)
  have "slot ip0 v k = 0" for v k by (simp add: slot_def ip0_def fs_sizes nth_replicate)
  then show "file_ok 0 fs0" using ok by (simp add: file_ok_def slots_ok_def) (simp add: ip0_def fs_sizes)
  have "{n. blk_free sb0 disk0 n} = {35..<60}" by (auto simp: disk0_free)
  then show "nfree fs0 = 25" by (simp add: nfree_def fs0_cur)
qed

section \<open>Properties\<close>

text \<open>
  C14. Inside a transaction with room for two more blocks, \<^verbatim>\<open>balloc\<close> on a well-formed volume returns the
  lowest-numbered free block; exactly its bit is set, its contents are zero, every other block outside the bit
  map is unchanged, and nothing is written to the disk before the commit. With no free block it panics.
\<close>

theorem balloc_first_free:
  fixes s :: "'s fs_state_scheme"
  assumes "tx H (k + 2) s" "fs_ok s" "off_map H s"
  shows "if \<exists>n. blk_free (fs_sb s) (cur s) n
    then runs (balloc 1 s) (\<lambda>n t. blk_free (fs_sb s) (cur s) n \<and> (\<forall>j < n. \<not> blk_free (fs_sb s) (cur s) j) \<and> disk t = disk s \<and> tx H k t
      \<and> cur t n = (\<lambda>_. 0) \<and> (\<forall>m. blk_free (fs_sb s) (cur t) m \<longleftrightarrow> m \<noteq> n \<and> blk_free (fs_sb s) (cur s) m)
      \<and> (\<forall>a. a \<notin> meta s \<longrightarrow> a \<noteq> n \<longrightarrow> cur t a = cur s a))
    else balloc 1 s = Panic ''balloc: out of blocks''"
proof (cases "\<exists>n. blk_free (fs_sb s) (cur s) n")
  case True
  have v: "vol (fs_sb s) (meta s) (cur s)" using assms(2) by (simp add: fs_ok_def)
  show ?thesis unfolding if_P[OF True]
    by (rule runs_mono[OF balloc_ok[OF assms(1) fs_ok_bmap[OF assms(2)] assms(3) True]], elim conjE)
      (use vol_take(1,5,6)[OF v] in \<open>auto simp: tx_step_def\<close>)
next
  case False
  have t: "tx H (Suc (Suc k)) s" "0 mod BPB = 0" using assms(1) by simp_all
  show ?thesis unfolding if_not_P[OF False] balloc_def
    using balloc_loop_full[OF t(1) fs_ok_bmap[OF assms(2)] assms(3) refl _ t(2)] False by simp
qed

theorem balloc_first_free_witness:
  "runs (balloc 1 fs0) (\<lambda>n t. n = 35 \<and> cur t 35 = (\<lambda>_. 0) \<and> \<not> blk_free sb0 (cur t) 35)"
proof -
  have e: "\<exists>n. blk_free sb0 disk0 n" by (intro exI[of _ 35]) (simp add: disk0_free)
  have "n = 35" if "35 \<le> n" "\<forall>j < n. 35 \<le> j \<longrightarrow> \<not> j < (60 :: nat)" for n
    using that(1) that(2)[rule_format, of 35] by linarith
  then show ?thesis
    using balloc_first_free[OF fs0_tx[of "0 + 2"] fs0_ok(1) off_map_empty] e
    by (auto simp: fs0_cur disk0_free elim!: runs_mono)
qed

text \<open>
  C25. \<^verbatim>\<open>bfree\<close> of a block of the volume marks exactly that block free and changes nothing else but its bit
  map block; freeing a block that is already free panics.
\<close>

theorem bfree_exact:
  fixes s :: "'s fs_state_scheme"
  assumes "tx H (Suc k) s" "fs_ok s" "off_map H s" "b < sb_size (fs_sb s)"
  shows "if blk_free (fs_sb s) (cur s) b then bfree 1 b s = Panic ''freeing free block''
    else runs (bfree 1 b s) (\<lambda>_ t. tx H k t \<and> disk t = disk s
      \<and> (\<forall>m. blk_free (fs_sb s) (cur t) m \<longleftrightarrow> m = b \<or> blk_free (fs_sb s) (cur s) m)
      \<and> (\<forall>a. a \<noteq> BBLOCK b (fs_sb s) \<longrightarrow> cur t a = cur s a))"
proof -
  let ?B = "BBLOCK b (fs_sb s)" and ?b = "b mod BPB"
  have B: "?B < disksize s" "?B \<notin> log_area s" "unheld H ?B s" using assms(2-4) by (auto simp: fs_ok_def off_map_def)
  let ?g = "\<lambda>d. if bit_free d ?b then (False, None) else (True, Some (clear_bit_at ?b d))"
  have f: "blk_free (fs_sb s) (cur s) b \<longleftrightarrow> bit_free (cur s ?B) ?b" using assms(4) by (simp add: blk_free_def)
  note acc = access_runs[OF assms(1) B, of ?g]
  show ?thesis
  proof (cases "blk_free (fs_sb s) (cur s) b")
    case True
    then obtain t where "access 1 ?B ?g s = Ret False t" using acc f by (auto simp: runs_iff)
    then show ?thesis using True by (simp add: bfree_def)
  next
    case False
    have "runs (access 1 ?B ?g s) (\<lambda>r t. r \<and> tx_step H k ((cur s)(?B := clear_bit_at ?b (cur s ?B))) s t)"
      by (rule runs_mono[OF acc]) (use False f in simp)
    moreover have "blk_free (fs_sb s) ((cur s)(?B := clear_bit_at ?b (cur s ?B))) m \<longleftrightarrow> m = b \<or> blk_free (fs_sb s) (cur s) m" for m
      using same_block[of m "fs_sb s" b] assms(4) by (auto simp: blk_free_def)
    ultimately show ?thesis using False by (auto simp: bfree_def tx_step_def elim!: runs_mono)
  qed
qed

theorem bfree_exact_witness:
  "bfree 1 35 fs0 = Panic ''freeing free block'' \<and> runs (bfree 1 20 fs0) (\<lambda>_ t. blk_free sb0 (cur t) 20)"
  using bfree_exact[OF fs0_tx[of "Suc 0"] fs0_ok(1) off_map_empty, of 35] bfree_exact[OF fs0_tx[of "Suc 0"] fs0_ok(1) off_map_empty, of 20]
  by (auto simp: fs0_cur disk0_free elim!: runs_mono)

lemma bytes_at_store:
  assumes "length bs \<le> 2 ^ 32"
  shows "bytes_at (mem (store_bytes dst bs s)) dst (length bs) = bs"
proof (rule nth_equalityI)
  fix i assume "i < length (bytes_at (mem (store_bytes dst bs s)) dst (length bs))"
  then have i: "i < length bs" by (simp add: bytes_at_def)
  then have "unat (of_nat i :: u32) = i" using assms by (simp add: unat_of_nat take_bit_nat_eq_self)
  then show "bytes_at (mem (store_bytes dst bs s)) dst (length bs) ! i = bs ! i" using i by (simp add: bytes_at_def store_bytes_def)
qed (simp add: bytes_at_def)

text \<open>
  C2. Read after write, across system memory: when \<^verbatim>\<open>writei\<close> stores \<^verbatim>\<open>n\<close> bytes of memory into a
  file at an offset not beyond its end, the file's contents become the old contents overlaid with those bytes, blocks
  being allocated on the way (through the indirect block when the offset asks for it), the size becomes the maximum of the
  old size and the end of the write, and a following \<^verbatim>\<open>readi\<close> of the same range returns \<^verbatim>\<open>n\<close> and puts exactly the same
  bytes into memory at \<^verbatim>\<open>dst\<close>, touching no other address.
\<close>

theorem writei_readi_round_trip:
  fixes s :: "'s fs_state_scheme"
  assumes "file_ok i s" "i_type (icache s i) \<noteq> T_DEV"
    "tx {} (2 + 6 * nchunks (unat off) (unat n)) s" "2 * nchunks (unat off) (unat n) \<le> nfree s"
    "off \<le> i_size (icache s i)" "unat off + unat n \<le> MAXFILE * BSIZE"
  shows "runs (writei P i src off n s) (\<lambda>r t. r = int (unat n)
    \<and> filedata i t = overlay (unat off) (bytes_at (mem s) src (unat n)) (filedata i s)
    \<and> unat (i_size (icache t i)) = max (unat (i_size (icache s i))) (unat off + unat n)
    \<and> runs (readi envs i dst off n t) (\<lambda>r u. r = int (unat n)
        \<and> bytes_at (mem u) dst (unat n) = bytes_at (mem s) src (unat n)
        \<and> (\<forall>a. unat n \<le> unat (a - dst) \<longrightarrow> mem u a = mem s a)))"
proof -
  let ?bs = "bytes_at (mem s) src (unat n)"
  have len: "length ?bs = unat n" by (simp add: bytes_at_def)
  have tx: "tx {} (Suc 1 + 6 * nchunks (unat off) (length ?bs)) s" using assms(3) len by (simp add: numeral_2_eq_2 One_nat_def)
  have M: "MAXFILE * BSIZE = 71680" by (simp add: fs_sizes)
  have wr: "runs (writei_bytes i ?bs off n s) (\<lambda>r t. r = int (length ?bs) \<and> wrote_file i 1 (unat off) ?bs s t)"
    by (rule writei_bytes_ok[OF assms(1) tx]) (use assms(4-6) len in simp_all)
  have "runs (writei_bytes i ?bs off n s) (\<lambda>r t. r = int (unat n)
    \<and> filedata i t = overlay (unat off) ?bs (filedata i s)
    \<and> unat (i_size (icache t i)) = max (unat (i_size (icache s i))) (unat off + unat n)
    \<and> runs (readi envs i dst off n t) (\<lambda>r u. r = int (unat n) \<and> bytes_at (mem u) dst (unat n) = ?bs
        \<and> (\<forall>a. unat n \<le> unat (a - dst) \<longrightarrow> mem u a = mem s a)))"
  proof (rule runs_mono[OF wr], elim conjE)
    fix r t assume r: "r = int (length ?bs)" and w: "wrote_file i 1 (unat off) ?bs s t"
    then have t: "file_ok i t" "tx {} (Suc 0) t" "filedata i t = overlay (unat off) ?bs (filedata i s)" "mem t = mem s"
      "range_mapped i (unat off) (unat n) t" "unat (i_size (icache t i)) = max (unat (i_size (icache s i))) (unat off + unat n)"
      "i_type (icache t i) \<noteq> T_DEV" using assms(2) len by (simp_all add: wrote_file_def One_nat_def)
    have sz: "off \<le> i_size (icache t i)" "unat off + unat n \<le> unat (i_size (icache t i))"
      using t(6) assms(5) by (simp_all add: word_le_nat_alt)
    have rd: "map (filedata i t) [unat off..<unat off + unat n] = ?bs" unfolding t(3) using map_overlay[of "unat off" ?bs] len by simp
    have "runs (readi_bytes i off n t) (\<lambda>r u. r = Some ?bs \<and> mem u = mem s)"
      by (rule runs_mono[OF readi_bytes_ok[OF t(1,2,5) sz]]) (use rd t(4) in \<open>auto simp: tx_step_def dest: txf_fields(3)\<close>)
    then have "runs (readi envs i dst off n t) (\<lambda>r u. r = int (unat n) \<and> bytes_at (mem u) dst (unat n) = ?bs
        \<and> (\<forall>a. unat n \<le> unat (a - dst) \<longrightarrow> mem u a = mem s a))"
      using t(7) len bytes_at_store[of ?bs dst] assms(6) M by (simp add: readi_def) (erule runs_mono, auto simp: store_bytes_def)
    then show "r = int (unat n) \<and> filedata i t = overlay (unat off) ?bs (filedata i s)
      \<and> unat (i_size (icache t i)) = max (unat (i_size (icache s i))) (unat off + unat n)
      \<and> runs (readi envs i dst off n t) (\<lambda>r u. r = int (unat n) \<and> bytes_at (mem u) dst (unat n) = ?bs
        \<and> (\<forall>a. unat n \<le> unat (a - dst) \<longrightarrow> mem u a = mem s a))"
      using r len t(3,6) by simp
  qed
  then show ?thesis using assms(2) by (simp add: writei_def)
qed

theorem writei_readi_round_trip_witness:
  "runs (writei console_platform 0 0x5000 0 1000 fs0) (\<lambda>r t. r = 1000 \<and> unat (i_size (icache t 0)) = 1000
    \<and> runs (readi [] 0 0x9000 0 1000 t) (\<lambda>r u. r = 1000 \<and> bytes_at (mem u) 0x9000 1000 = bytes_at (mem fs0) 0x5000 1000))"
proof -
  have n: "nchunks 0 1000 = 2" by (simp add: nchunks_def BSIZE_def)
  have s: "i_size (icache fs0 0) = 0" "i_type (icache fs0 0) \<noteq> T_DEV" by (simp_all add: ip0_def T_FILE_def T_DEV_def)
  have m: "1000 \<le> MAXFILE * BSIZE" by (simp add: fs_sizes)
  show ?thesis
    by (rule runs_mono[OF writei_readi_round_trip[OF fs0_ok(2) s(2), of 0 1000 _ _ "[]" "0x9000"]])
      (use n s(1) m fs0_tx[of 14] fs0_ok(3) in \<open>auto elim!: runs_mono\<close>)
qed

section \<open>Inodes on disk\<close>

definition same_dinode :: "inode \<Rightarrow> inode \<Rightarrow> bool" where
  "same_dinode ip jp \<longleftrightarrow> i_type ip = i_type jp \<and> i_major ip = i_major jp \<and> i_minor ip = i_minor jp \<and> i_nlink ip = i_nlink jp
     \<and> i_size ip = i_size jp \<and> i_addrs ip = i_addrs jp"

lemma dinode_get_put:
  assumes "length (i_addrs ip) = NDIRECT + 1" "\<forall>a \<in> set (i_addrs ip). a < 2 ^ 32"
  shows "same_dinode (dinode_get (dinode_put ip k d) k jp) ip"
proof -
  define b where "b = put32 (put16 (put16 (put16 (put16 d k (i_type ip)) (k + 2) (i_major ip)) (k + 4) (i_minor ip)) (k + 6) (i_nlink ip)) (k + 8) (i_size ip)"
  let ?w = "put_words (k + 12) (i_addrs ip) b"
  have h: "?w j = b j" if "j < k + 12" for j using that by (simp add: put_words_other)
  have b16: "blk16 ?w j = blk16 b j" if "j + 2 \<le> k + 12" for j using that h[of j] h[of "j + 1"] by (simp add: blk16_def)
  have b32: "blk32 ?w (k + 8) = blk32 b (k + 8)" by (rule blk32_cong) (simp add: h)
  have "map (\<lambda>j. unat (blk32 ?w (k + 12 + 4 * j))) [0..<NDIRECT + 1] = i_addrs ip"
  proof (rule nth_equalityI)
    fix j assume "j < length (map (\<lambda>j. unat (blk32 ?w (k + 12 + 4 * j))) [0..<NDIRECT + 1])"
    then have "j < length (i_addrs ip)" using assms(1) by simp
    then show "map (\<lambda>j. unat (blk32 ?w (k + 12 + 4 * j))) [0..<NDIRECT + 1] ! j = i_addrs ip ! j"
      using blk32_put_words[of j "i_addrs ip" "k + 12" b] assms by (simp del: upt_Suc)
  qed (use assms(1) in simp)
  moreover have f: "blk16 b k = i_type ip" "blk16 b (k + 2) = i_major ip" "blk16 b (k + 4) = i_minor ip" "blk16 b (k + 6) = i_nlink ip" "blk32 b (k + 8) = i_size ip"
    by (simp_all add: b_def)
  ultimately show ?thesis unfolding same_dinode_def dinode_get_def dinode_put_def
    b_def[symmetric]
    using b16[of k] b16[of "k + 2"] b16[of "k + 4"] b16[of "k + 6"] b32 f by simp
qed

text \<open>
  C16. The inode cache is written through: after \<^verbatim>\<open>iupdate\<close> of an inode, locking any other cache entry
  for the same inode that has not been read yet yields, field by field, the inode that was written (type, device numbers,
  link count, size and all thirteen block addresses).
\<close>

theorem iupdate_ilock_round_trip:
  fixes s :: "'s fs_state_scheme"
  assumes "file_ok i s" "tx {} 2 s" "i_type (icache s i) \<noteq> 0" "j \<noteq> i" "i_dev (icache s j) = 1" "i_inum (icache s j) = i_inum (icache s i)"
    "1 \<le> i_ref (icache s j)" "\<not> i_valid (icache s j)" "\<not> sl_locked (i_lock (icache s j))"
  shows "runs (iupdate i s) (\<lambda>_ t. runs (ilock j t) (\<lambda>_ u.
    same_dinode (icache u j) (icache s i) \<and> i_valid (icache u j) \<and> sl_locked (i_lock (icache u j)) \<and> icache u i = icache s i))"
proof -
  let ?n = "i_inum (icache s i)"
  let ?a = "IBLOCK ?n (fs_sb s)"
  have ok: "length (i_addrs (icache s i)) = NDIRECT + 1" "?a < disksize s" "?a \<notin> log_area s" using assms(1) by (auto simp: file_ok_def fs_ok_def)
  have "a < 2 ^ 32" if "a \<in> set (i_addrs (icache s i))" for a
  proof -
    obtain m where "m \<le> NDIRECT" "a = i_addrs (icache s i) ! m" using \<open>a \<in> _\<close> ok(1) by (auto simp: in_set_conv_nth less_Suc_eq_le One_nat_def)
    then have "a = fslot i s (if m < NDIRECT then m else MAXFILE)" using slot_max by (auto simp: slot_def)
    then have "a = 0 \<or> a < disksize s" using slot_in_range[OF assms(1)] by metis
    then show ?thesis using assms(2) by (auto simp: tx_def)
  qed
  note gp = dinode_get_put[OF ok(1), of "dinode_off ?n" "cur s ?a"]
  have tx: "tx {} (Suc 1) s" using assms(2) by (simp add: numeral_2_eq_2 One_nat_def)
  show ?thesis
  proof (rule runs_mono[OF iupdate_ok[OF assms(1) tx]], elim conjE)
    fix t assume t: "tx {} 1 t" "txf s t" "cur t = (cur s)(?a := dinode_put (icache s i) (dinode_off ?n) (cur s ?a))"
    note f = txf_fs[OF t(2)]
    let ?lk = "(i_lock (icache s j))\<lparr>sl_locked := True, sl_pid := cur_pid s\<rparr>"
    define w where "w = upd_inode j (\<lambda>ip. ip\<lparr>i_lock := ?lk\<rparr>) t"
    have tt: "tx {} (Suc 0) w" "cur w = cur t" "fs_sb w = fs_sb s" "disksize w = disksize s" "log_area w = log_area s"
      "icache w = (icache s)(j := (icache s j)\<lparr>i_lock := ?lk\<rparr>)"
      using t(1) f by (simp_all add: w_def upd_inode_def One_nat_def log_area_def)
    have "runs (access 1 ?a (\<lambda>d. (d, None)) w) (\<lambda>d u. d = cur t ?a \<and> icache u = icache w)"
      by (rule runs_mono[OF access_read[OF tt(1), of ?a "\<lambda>d. d"]]) (use tt ok in \<open>auto simp: tx_step_def dest: txf_fs(2)\<close>)
    moreover have "acquire_inode j t = Ret () w" using assms(9) f by (simp add: w_def acquire_inode_def acquiresleep_def)
    moreover have "same_dinode (dinode_get (cur t ?a) (dinode_off ?n) jp) (icache s i)" for jp using gp t(3) \<open>\<And>a. a \<in> _ \<Longrightarrow> a < 2 ^ 32\<close> by simp
    moreover have "i_type (dinode_get (cur t ?a) (dinode_off ?n) jp) \<noteq> 0" for jp using calculation(3)[of jp] assms(3) by (simp add: same_dinode_def)
    ultimately show "runs (ilock j t) (\<lambda>_ u. same_dinode (icache u j) (icache s i) \<and> i_valid (icache u j) \<and> sl_locked (i_lock (icache u j)) \<and> icache u i = icache s i)"
      using assms(4-8) f tt(3,6) by (auto simp: ilock_def upd_inode_def Let_def same_dinode_def dinode_get_def elim!: runs_mono)
  qed
qed

definition fs1 :: fs_state where
  "fs1 = fs0\<lparr>icache := (icache fs0)(1 := ip0\<lparr>i_valid := False, i_lock := initsleeplock\<rparr>)\<rparr>"

lemma fs1_ok: "file_ok 0 fs1" "tx {} 2 fs1"
  using fs0_ok(2) fs0_tx[of 2] by (simp_all add: fs1_def file_ok_def)

theorem iupdate_ilock_round_trip_witness:
  "runs (iupdate 0 fs1) (\<lambda>_ t. runs (ilock 1 t) (\<lambda>_ u. i_type (icache u 1) = T_FILE \<and> i_nlink (icache u 1) = 1))"
proof -
  have "i_type (icache fs1 0) \<noteq> 0" "i_dev (icache fs1 1) = 1" "i_inum (icache fs1 1) = i_inum (icache fs1 0)" "1 \<le> i_ref (icache fs1 1)"
    "\<not> i_valid (icache fs1 1)" "\<not> sl_locked (i_lock (icache fs1 1))"
    by (simp_all add: fs1_def ip0_def T_FILE_def initsleeplock_def)
  note w = iupdate_ilock_round_trip[OF fs1_ok this(1) one_neq_zero this(2-6)]
  have "i_type (icache fs1 0) = T_FILE" "i_nlink (icache fs1 0) = 1" by (simp_all add: fs1_def ip0_def)
  then show ?thesis by (intro runs_mono[OF w]) (auto simp: same_dinode_def elim!: runs_mono)
qed

section \<open>Reading lines from the console\<close>

text \<open>
  C20. A process that holds the lock of the console's inode reads a line: when the committed bytes suffice,
  \<^verbatim>\<open>consoleread\<close> gives up the inode lock and takes it again around the read, and returns without sleeping the first line or its
  first \<open>n\<close> bytes. It stores exactly those bytes at the destination and changes no other memory, returns their number, takes them
  from the front of the buffer and leaves the line being edited alone. A control-D ends the read; it
  is consumed only by a read that returns no bytes.
\<close>

theorem consoleread_returns_line:
  assumes "holdingsleep (cur_pid s) (i_lock (icache s i))" "1 \<le> i_ref (icache s i)" "i_valid (icache s i)"
    and "\<not> cons_held s" and "line_ready n (committed s)" and "int n < 2 ^ 31"
  shows "runs (consoleread (iunlock i) (ilock i) [] dst (int n) s) (\<lambda>r t.
    r = int (length (take_line n (committed s)))
    \<and> bytes_at (mem t) dst (length (take_line n (committed s))) = take_line n (committed s)
    \<and> (\<forall>x. length (take_line n (committed s)) \<le> unat (x - dst) \<longrightarrow> mem t x = mem s x)
    \<and> committed t = rest_line False n (committed s) \<and> editing t = editing s \<and> \<not> cons_held t
    \<and> icache t = icache s)"
proof -
  let ?u = "release_inode i s"
  have u: "iunlock i s = Ret () ?u" using assms(1,2) by (simp add: iunlock_def)
  have f: "mem ?u = mem s" "\<not> cons_held ?u" "committed ?u = committed s" "editing ?u = editing s" "cur_pid ?u = cur_pid s"
    using assms(4) by (simp_all add: release_inode_def wakeup_call_def upd_inode_def committed_def editing_def)
  obtain t where t: "consoleread (iunlock i) (ilock i) [] dst (int n) s =
      bindO (ilock i t) (\<lambda>_ t. Ret (int (length (take_line n (committed s)))) t)" "t = ?u\<lparr>mem := mem t, input_r := input_r t\<rparr>"
    "bytes_at (mem t) dst (length (take_line n (committed s))) = take_line n (committed s)"
    "\<forall>x. length (take_line n (committed s)) \<le> unat (x - dst) \<longrightarrow> mem t x = mem s x"
    "committed t = rest_line False n (committed s)" "editing t = editing s"
    using consoleread_line[where iunlock = "iunlock i" and ilock = "ilock i" and dst = dst, OF u f(1-4) assms(5,6)] by blast
  have it: "icache t = icache ?u" "cur_pid t = cur_pid s" "\<not> cons_held t" using f(2,5) by (subst t(2), simp)+
  define w where "w = upd_inode i (\<lambda>ip. ip\<lparr>i_lock := i_lock (icache s i)\<rparr>) t"
  have lk: "(icache s i)\<lparr>i_lock := (i_lock (icache s i))\<lparr>sl_locked := True, sl_pid := cur_pid s\<rparr>\<rparr> = icache s i"
    using assms(1) by (cases "icache s i", cases "i_lock (icache s i)") (simp add: holdingsleep_def)
  have "ilock i t = Ret () w"
    using assms(1-3) it by (simp add: ilock_def acquire_inode_def acquiresleep_def releasesleep_def release_inode_def
        wakeup_call_def upd_inode_def w_def holdingsleep_def lk)
  moreover have "icache w = icache s" using it(1)
    by (simp add: w_def release_inode_def wakeup_call_def upd_inode_def fun_eq_iff)
  ultimately show ?thesis using t it(3)
    by (simp add: w_def upd_inode_def committed_def editing_def)
qed

text \<open>A line has been typed, across the wrap-around of the counters, and process 1 holds the lock of entry 0.\<close>

definition typed_line :: fs_state where
  "typed_line = fs0\<lparr>input_buf := (replicate 128 0)[127 := 104, 0 := 105, 1 := 10], input_w := 2, input_e := 2\<rparr>"

lemma typed_line_ok:
  "committed typed_line = [104, 105, 10]" "holdingsleep (cur_pid typed_line) (i_lock (icache typed_line 0))" "\<not> cons_held typed_line"
  "1 \<le> i_ref (icache typed_line 0)" "i_valid (icache typed_line 0)"
  by (simp_all add: committed_def typed_line_def ring_at_def INPUT_BUF_def upt_rec holdingsleep_def ip0_def)
    (simp_all add: fs0_def log0_def bio0_def bio_state.defs vga_state.defs log_state.defs vga0_def console0_def console_state.defs upt_rec One_nat_def)

theorem consoleread_returns_line_witness:
  "runs (consoleread (iunlock 0) (ilock 0) [] 0x1000 (int 100) typed_line)
     (\<lambda>r t. r = 3 \<and> bytes_at (mem t) 0x1000 3 = [104, 105, 10] \<and> committed t = [])"
proof -
  have l: "take_line 100 [104, 105, 10] = [104, 105, 10]" "rest_line False 100 [104, 105, 10] = []"
    "line_ready 100 [104, 105, 10]" by code_simp+
  show ?thesis
    using consoleread_returns_line[OF typed_line_ok(2,4,5,3), of 100 "0x1000"] l
    by (auto elim!: runs_mono simp: typed_line_ok(1) numeral_3_eq_3)
qed

end
