(* ===== verification/Fs_Dirs.thy ===== *)
theory Fs_Dirs
  imports Fs_Files
begin

text \<open>
  Directories and path names: \<^verbatim>\<open>dirlookup\<close> and \<^verbatim>\<open>dirlink\<close> against the list of entries a directory
  holds, and \<^verbatim>\<open>skipelem\<close> against the list of components of a path.
\<close>

section \<open>Path names\<close>

text \<open>The elements that the loop of \<^verbatim>\<open>namex\<close> sees, one \<^verbatim>\<open>skipelem\<close> after the other.\<close>

function path_elems :: "u8 list \<Rightarrow> u8 list list" where
  "path_elems path = (case skipelem path of None \<Rightarrow> [] | Some (name, rest) \<Rightarrow> name # path_elems rest)"
  by pat_completeness auto
termination by (relation "measure length") (auto simp: skipelem_shorter)

declare path_elems.simps [simp del]

text \<open>The reference: split at every slash, drop the empty pieces, and cut each piece to \<^verbatim>\<open>DIRSIZ\<close> bytes.\<close>

fun pieces :: "u8 list \<Rightarrow> u8 list list" where
  "pieces [] = [[]]"
| "pieces (c # cs) = (if c = slash then [] # pieces cs else (c # hd (pieces cs)) # tl (pieces cs))"

definition components :: "u8 list \<Rightarrow> u8 list list" where
  "components path = map (take DIRSIZ) (filter (\<lambda>p. p \<noteq> []) (pieces path))"

lemma pieces_not_nil [simp]: "pieces path \<noteq> []"
  by (cases path) auto

lemma pieces_slashes: "filter (\<lambda>p. p \<noteq> []) (pieces (dropWhile (\<lambda>c. c = slash) path)) = filter (\<lambda>p. p \<noteq> []) (pieces path)"
  by (induction path) auto

lemma pieces_first:
  "pieces path = takeWhile (\<lambda>c. c \<noteq> slash) path # (case dropWhile (\<lambda>c. c \<noteq> slash) path of [] \<Rightarrow> [] | c # cs \<Rightarrow> pieces cs)"
proof (induction path)
  case (Cons c cs)
  show ?case
  proof (cases "c = slash")
    case False
    then have "pieces (c # cs) = (c # hd (pieces cs)) # tl (pieces cs)" by simp
    then show ?thesis using False by (subst (asm) (1 2) Cons.IH) simp
  qed simp
qed simp

lemma components_step:
  assumes "takeWhile (\<lambda>c. c \<noteq> slash) s \<noteq> []"
  shows "components s = take DIRSIZ (takeWhile (\<lambda>c. c \<noteq> slash) s) # components (dropWhile (\<lambda>c. c = slash) (dropWhile (\<lambda>c. c \<noteq> slash) s))"
proof -
  have f: "filter (\<lambda>p. p \<noteq> []) (pieces s) = takeWhile (\<lambda>c. c \<noteq> slash) s #
      filter (\<lambda>p. p \<noteq> []) (case dropWhile (\<lambda>c. c \<noteq> slash) s of [] \<Rightarrow> [] | c # cs \<Rightarrow> pieces cs)"
    by (subst pieces_first) (simp only: filter.simps assms simp_thms if_True)
  show ?thesis
  proof (cases "dropWhile (\<lambda>c. c \<noteq> slash) s")
    case Nil
    show ?thesis using f unfolding components_def Nil by simp
  next
    case (Cons c cs)
    then have "c = slash" using hd_dropWhile[of "\<lambda>c. c \<noteq> slash" s] by simp
    then show ?thesis using f Cons pieces_slashes[of cs] by (simp add: components_def)
  qed
qed

text \<open>
  C18. Repeated \<^verbatim>\<open>skipelem\<close> splits a path name exactly into its components: the maximal runs of bytes
  other than a slash, in order, each cut to fourteen bytes; leading, repeated and trailing slashes do not matter, and a path of
  slashes only has none.
\<close>

theorem skipelem_components: "path_elems path = components path"
proof (induction path rule: path_elems.induct)
  case (1 path)
  let ?s = "dropWhile (\<lambda>c. c = slash) path"
  have cp: "components path = components ?s" by (simp add: components_def pieces_slashes)
  show ?case
  proof (cases "?s = []")
    case True
    then have "components path = []" using cp by (simp only: components_def pieces.simps list.map filter.simps if_False simp_thms)
    then show ?thesis using True by (subst path_elems.simps) (simp add: skipelem_def)
  next
    case False
    let ?w = "takeWhile (\<lambda>c. c \<noteq> slash) ?s" and ?r = "dropWhile (\<lambda>c. c \<noteq> slash) ?s"
    let ?rest = "dropWhile (\<lambda>c. c = slash) ?r"
    have sk: "skipelem path = Some (take DIRSIZ ?w, ?rest)" using False by (simp add: skipelem_def Let_def)
    have w: "?w \<noteq> []" using False hd_dropWhile[of "\<lambda>c. c = slash" path] by (cases ?s) auto
    have "components ?s = take DIRSIZ ?w # components ?rest" by (rule components_step[OF w])
    then show ?thesis using "1.IH"[OF sk refl] cp by (subst path_elems.simps) (simp add: sk)
  qed
qed

end
