(* ===== verification/File.thy ===== *)
theory File
  imports Fs_Dirs Ring
begin

text \<open>
  Pipes and open files, \<^verbatim>\<open>src/pipe.c\<close> and \<^verbatim>\<open>src/file.c\<close>. A pipe lives in a page from the page
  allocator; \<open>pipes\<close> gives the structure in the page at an address. Pointers to open files are indices of the
  file table. A call that sleeps takes, as \<open>envs\<close>, what the rest of the system does to the state during
  each sleep; with none left the call is still asleep. The address \<open>kend\<close> is the linker's \<^verbatim>\<open>end\<close>.
\<close>

section \<open>State\<close>

definition PIPESIZE :: nat where "PIPESIZE = 512"

record pipe =
  p_data :: "u8 list"
  p_nread :: u32
  p_nwrite :: u32
  p_readopen :: bool
  p_writeopen :: bool

datatype fd_type = FD_NONE | FD_PIPE | FD_INODE

record open_file =
  f_type :: fd_type
  f_ref :: int
  f_readable :: bool
  f_writable :: bool
  f_pipe :: u32
  f_ip :: nat
  f_off :: u32

record file_state = fs_state +
  pipes :: "u32 \<Rightarrow> pipe"
  files :: "nat \<Rightarrow> open_file"
  cur_ofile :: "nat \<Rightarrow> nat option"

definition upd_pipe :: "u32 \<Rightarrow> (pipe \<Rightarrow> pipe) \<Rightarrow> 's file_state_scheme \<Rightarrow> 's file_state_scheme" where
  "upd_pipe p f s = s\<lparr>pipes := (pipes s)(p := f (pipes s p))\<rparr>"

definition upd_file :: "nat \<Rightarrow> (open_file \<Rightarrow> open_file) \<Rightarrow> 's file_state_scheme \<Rightarrow> 's file_state_scheme" where
  "upd_file i f s = s\<lparr>files := (files s)(i := f (files s i))\<rparr>"

abbreviation ch_nread :: "u32 \<Rightarrow> chan" where "ch_nread p \<equiv> ChPipeRead (unat p)"
abbreviation ch_nwrite :: "u32 \<Rightarrow> chan" where "ch_nwrite p \<equiv> ChPipeWrite (unat p)"

section \<open>Pipes\<close>

definition pipeclose :: "u32 \<Rightarrow> u32 \<Rightarrow> bool \<Rightarrow> 's file_state_scheme \<Rightarrow> (unit, 's file_state_scheme) outcome" where
  "pipeclose kend p writable s =
     (let s = (if writable
               then wakeup_call (ch_nread p) (upd_pipe p (\<lambda>q. q\<lparr>p_writeopen := False\<rparr>) s)
               else wakeup_call (ch_nwrite p) (upd_pipe p (\<lambda>q. q\<lparr>p_readopen := False\<rparr>) s))
      in if \<not> p_readopen (pipes s p) \<and> \<not> p_writeopen (pipes s p) then kfree kend p s else Ret () s)"

definition pipe_put :: "u8 \<Rightarrow> pipe \<Rightarrow> pipe" where
  "pipe_put c q = q\<lparr>p_data := (p_data q)[unat (p_nwrite q) mod PIPESIZE := c], p_nwrite := p_nwrite q + 1\<rparr>"

function pipewrite_loop :: "('s file_state_scheme \<Rightarrow> 's file_state_scheme) list \<Rightarrow> u32 \<Rightarrow> u32 \<Rightarrow> nat \<Rightarrow> 's file_state_scheme \<Rightarrow>
    (bool, 's file_state_scheme) outcome" where
  "pipewrite_loop envs p addr n s =
     (if n = 0 then Ret True s
      else if p_nwrite (pipes s p) = p_nread (pipes s p) + of_nat PIPESIZE then
        (if \<not> p_readopen (pipes s p) \<or> cur_killed s then Ret False s
         else
           let s = wakeup_call (ch_nread p) s
           in case envs of
                [] \<Rightarrow> Block (ch_nwrite p) s
              | e # envs \<Rightarrow> pipewrite_loop envs p addr n (e s))
      else pipewrite_loop envs p (addr + 1) (n - 1) (upd_pipe p (pipe_put (mem s addr)) s))"
  by pat_completeness auto
termination by (relation "measure (\<lambda>(envs, p, addr, n, s). length envs + n)") auto

declare pipewrite_loop.simps [simp del]

definition pipewrite :: "('s file_state_scheme \<Rightarrow> 's file_state_scheme) list \<Rightarrow> u32 \<Rightarrow> u32 \<Rightarrow> int \<Rightarrow> 's file_state_scheme \<Rightarrow>
    (int, 's file_state_scheme) outcome" where
  "pipewrite envs p addr n s =
     bindO (pipewrite_loop envs p addr (nat n) s) (\<lambda>ok s.
       if ok then Ret n (wakeup_call (ch_nread p) s) else Ret (-1) s)"

fun piperead_wait :: "('s file_state_scheme \<Rightarrow> 's file_state_scheme) list \<Rightarrow> u32 \<Rightarrow> 's file_state_scheme \<Rightarrow>
    (bool, 's file_state_scheme) outcome" where
  "piperead_wait envs p s =
     (if p_nread (pipes s p) = p_nwrite (pipes s p) \<and> p_writeopen (pipes s p) then
        (if cur_killed s then Ret False s
         else case envs of
                [] \<Rightarrow> Block (ch_nread p) s
              | e # envs \<Rightarrow> piperead_wait envs p (e s))
      else Ret True s)"

declare piperead_wait.simps [simp del]

fun piperead_copy :: "u32 \<Rightarrow> u32 \<Rightarrow> nat \<Rightarrow> nat \<Rightarrow> 's file_state_scheme \<Rightarrow> nat \<times> 's file_state_scheme" where
  "piperead_copy p addr i 0 s = (i, s)"
| "piperead_copy p addr i (Suc n) s =
     (let q = pipes s p
      in if p_nread q = p_nwrite q then (i, s)
         else
           let c = p_data q ! (unat (p_nread q) mod PIPESIZE);
               s = (upd_pipe p (\<lambda>q. q\<lparr>p_nread := p_nread q + 1\<rparr>) s)\<lparr>mem := (mem s)(addr := c)\<rparr>
           in piperead_copy p (addr + 1) (Suc i) n s)"

definition piperead :: "('s file_state_scheme \<Rightarrow> 's file_state_scheme) list \<Rightarrow> u32 \<Rightarrow> u32 \<Rightarrow> int \<Rightarrow> 's file_state_scheme \<Rightarrow>
    (int, 's file_state_scheme) outcome" where
  "piperead envs p addr n s =
     bindO (piperead_wait envs p s) (\<lambda>ok s.
       if \<not> ok then Ret (-1) s
       else case piperead_copy p addr 0 (nat n) s of (i, s) \<Rightarrow> Ret (int i) (wakeup_call (ch_nwrite p) s))"

section \<open>Open files\<close>

definition filealloc :: "'s file_state_scheme \<Rightarrow> nat option \<times> 's file_state_scheme" where
  "filealloc s =
     (case find (\<lambda>i. f_ref (files s i) = 0) [0..<NFILE] of
        None \<Rightarrow> (None, s)
      | Some i \<Rightarrow> (Some i, upd_file i (\<lambda>f. f\<lparr>f_ref := 1\<rparr>) s))"

definition filedup :: "nat \<Rightarrow> 's file_state_scheme \<Rightarrow> (unit, 's file_state_scheme) outcome" where
  "filedup i s =
     (if f_ref (files s i) < 1 then Panic ''filedup''
      else Ret () (upd_file i (\<lambda>f. f\<lparr>f_ref := f_ref f + 1\<rparr>) s))"

definition fileclose :: "u32 \<Rightarrow> nat \<Rightarrow> 's file_state_scheme \<Rightarrow> (unit, 's file_state_scheme) outcome" where
  "fileclose kend i s =
     (if f_ref (files s i) < 1 then Panic ''fileclose''
      else
        let s = upd_file i (\<lambda>f. f\<lparr>f_ref := f_ref f - 1\<rparr>) s
        in if 0 < f_ref (files s i) then Ret () s
           else
             let ff = files s i;
                 s = upd_file i (\<lambda>f. f\<lparr>f_type := FD_NONE, f_ref := 0\<rparr>) s
             in case f_type ff of
                  FD_PIPE \<Rightarrow> pipeclose kend (f_pipe ff) (f_writable ff) s
                | FD_INODE \<Rightarrow>
                    bindO (begin_op s) (\<lambda>_ s.
                    bindO (iput (f_ip ff) s) (\<lambda>_ s.
                      end_op s))
                | FD_NONE \<Rightarrow> Ret () s)"

definition cleanuppipealloc :: "u32 \<Rightarrow> u32 \<Rightarrow> nat option \<Rightarrow> nat option \<Rightarrow> 's file_state_scheme \<Rightarrow> (unit, 's file_state_scheme) outcome" where
  "cleanuppipealloc kend p f0 f1 s =
     bindO (if p \<noteq> 0 then kfree kend p s else Ret () s) (\<lambda>_ s.
     bindO (case f0 of Some f \<Rightarrow> fileclose kend f s | None \<Rightarrow> Ret () s) (\<lambda>_ s.
       (case f1 of Some f \<Rightarrow> fileclose kend f s | None \<Rightarrow> Ret () s)))"

definition pipealloc :: "u32 \<Rightarrow> 's file_state_scheme \<Rightarrow> ((nat \<times> nat) option, 's file_state_scheme) outcome" where
  "pipealloc kend s =
     (case filealloc s of
        (None, s) \<Rightarrow> bindO (cleanuppipealloc kend 0 None None s) (\<lambda>_ s. Ret None s)
      | (Some f0, s) \<Rightarrow>
          (case filealloc s of
             (None, s) \<Rightarrow> bindO (cleanuppipealloc kend 0 (Some f0) None s) (\<lambda>_ s. Ret None s)
           | (Some f1, s) \<Rightarrow>
               bindO (kalloc s) (\<lambda>p s.
                 if p = 0 then bindO (cleanuppipealloc kend 0 (Some f0) (Some f1) s) (\<lambda>_ s. Ret None s)
                 else
                   let s = upd_pipe p (\<lambda>q. q\<lparr>p_nread := 0, p_nwrite := 0, p_readopen := True, p_writeopen := True\<rparr>) s;
                       s = upd_file f0 (\<lambda>f. f\<lparr>f_type := FD_PIPE, f_readable := True, f_writable := False, f_pipe := p\<rparr>) s;
                       s = upd_file f1 (\<lambda>f. f\<lparr>f_type := FD_PIPE, f_readable := False, f_writable := True, f_pipe := p\<rparr>) s
                   in Ret (Some (f0, f1)) s)))"

text \<open>The fields of \<^verbatim>\<open>struct stat\<close> at their offsets.\<close>

definition store_stat :: "u32 \<Rightarrow> stat \<Rightarrow> memory \<Rightarrow> memory" where
  "store_stat a st m =
     store32 (store16 (store32 (store32 (store16 m a (st_type st)) (a + 4) (of_nat (st_dev st))) (a + 8) (of_nat (st_ino st)))
       (a + 12) (st_nlink st)) (a + 16) (st_size st)"

definition filestat :: "nat \<Rightarrow> u32 \<Rightarrow> 's file_state_scheme \<Rightarrow> (int, 's file_state_scheme) outcome" where
  "filestat i addr s =
     (if f_type (files s i) = FD_INODE then
        let ip = f_ip (files s i)
        in bindO (ilock ip s) (\<lambda>_ s.
           bindO (iunlock ip (s\<lparr>mem := store_stat addr (stati ip s) (mem s)\<rparr>)) (\<lambda>_ s. Ret 0 s))
      else Ret (-1) s)"

definition fileread :: "('s file_state_scheme \<Rightarrow> 's file_state_scheme) list \<Rightarrow> nat \<Rightarrow> u32 \<Rightarrow> int \<Rightarrow> 's file_state_scheme \<Rightarrow>
    (int, 's file_state_scheme) outcome" where
  "fileread envs i addr n s =
     (if \<not> f_readable (files s i) then Ret (-1) s
      else case f_type (files s i) of
        FD_PIPE \<Rightarrow> piperead envs (f_pipe (files s i)) addr n s
      | FD_INODE \<Rightarrow>
          let ip = f_ip (files s i)
          in bindO (ilock ip s) (\<lambda>_ s.
             bindO (readi envs ip addr (f_off (files s i)) (word_of_int n) s) (\<lambda>r s.
               let s = (if 0 < r then upd_file i (\<lambda>f. f\<lparr>f_off := f_off f + word_of_int r\<rparr>) s else s)
               in bindO (iunlock ip s) (\<lambda>_ s. Ret r s)))
      | FD_NONE \<Rightarrow> Panic ''fileread'')"

definition filewrite_max :: int where
  "filewrite_max = ((int MAXOPBLOCKS - 1 - 1 - 2) div 2) * 512"

text \<open>The loop returns \<open>i\<close>; \<open>r < 0\<close> ends it early.\<close>

function filewrite_loop :: "platform \<Rightarrow> nat \<Rightarrow> u32 \<Rightarrow> int \<Rightarrow> int \<Rightarrow> 's file_state_scheme \<Rightarrow> (int, 's file_state_scheme) outcome" where
  "filewrite_loop P f addr n i s =
     (if i < n then
        let n1 = min (n - i) filewrite_max; ip = f_ip (files s f)
        in bindO (begin_op s) (\<lambda>_ s.
           bindO (ilock ip s) (\<lambda>_ s.
           bindO (writei P ip (addr + word_of_int i) (f_off (files s f)) (word_of_int n1) s) (\<lambda>r s.
             let s = (if 0 < r then upd_file f (\<lambda>g. g\<lparr>f_off := f_off g + word_of_int r\<rparr>) s else s)
             in bindO (iunlock ip s) (\<lambda>_ s.
                bindO (end_op s) (\<lambda>_ s.
                  if r < 0 then Ret i s
                  else if r \<noteq> n1 then Panic ''short filewrite''
                  else filewrite_loop P f addr n (i + n1) s)))))
      else Ret i s)"
  by pat_completeness auto
termination
  by (relation "measure (\<lambda>(P, f, addr, n, i, s). nat (n - i))") (auto simp: filewrite_max_def MAXOPBLOCKS_def)

declare filewrite_loop.simps [simp del]

definition filewrite :: "platform \<Rightarrow> ('s file_state_scheme \<Rightarrow> 's file_state_scheme) list \<Rightarrow> nat \<Rightarrow> u32 \<Rightarrow> int \<Rightarrow> 's file_state_scheme \<Rightarrow>
    (int, 's file_state_scheme) outcome" where
  "filewrite P envs i addr n s =
     (if \<not> f_writable (files s i) then Ret (-1) s
      else case f_type (files s i) of
        FD_PIPE \<Rightarrow> pipewrite envs (f_pipe (files s i)) addr n s
      | FD_INODE \<Rightarrow> bindO (filewrite_loop P i addr n 0 s) (\<lambda>i s. Ret (if i = n then n else -1) s)
      | FD_NONE \<Rightarrow> Panic ''filewrite'')"


section \<open>A pipe is a bounded queue\<close>

definition pipe_count :: "pipe \<Rightarrow> nat" where
  "pipe_count q = unat (p_nwrite q - p_nread q)"

definition pipe_ok :: "pipe \<Rightarrow> bool" where
  "pipe_ok q \<longleftrightarrow> length (p_data q) = PIPESIZE \<and> pipe_count q \<le> PIPESIZE"

definition queued :: "pipe \<Rightarrow> u8 list" where
  "queued q = ring_at PIPESIZE (p_data q) (p_nread q) (pipe_count q)"

lemma length_queued [simp]: "length (queued q) = pipe_count q"
  by (simp add: queued_def)

lemma pipe_full: "pipe_ok q \<Longrightarrow> p_nwrite q = p_nread q + of_nat PIPESIZE \<longleftrightarrow> pipe_count q = PIPESIZE"
proof
  assume "p_nwrite q = p_nread q + of_nat PIPESIZE"
  then show "pipe_count q = PIPESIZE" by (simp add: pipe_count_def PIPESIZE_def)
next
  assume "pipe_count q = PIPESIZE"
  moreover have "p_nwrite q - p_nread q = of_nat (pipe_count q)" by (simp add: pipe_count_def)
  ultimately have "p_nwrite q - p_nread q = of_nat PIPESIZE" by simp
  then show "p_nwrite q = p_nread q + of_nat PIPESIZE" by (simp add: diff_eq_eq add.commute)
qed

lemma pipe_empty: "p_nread q = p_nwrite q \<longleftrightarrow> pipe_count q = 0"
  by (auto simp: pipe_count_def unat_eq_0)

lemma pipe_put_queued:
  assumes "pipe_ok q" "pipe_count q < PIPESIZE"
  shows "pipe_ok (pipe_put c q)" "queued (pipe_put c q) = queued q @ [c]"
proof -
  let ?n = "pipe_count q"
  have nw: "p_nwrite q = p_nread q + of_nat ?n" by (simp add: pipe_count_def)
  have "unat (p_nwrite q - p_nread q + 1) = Suc ?n" using assms(2) by (simp add: pipe_count_def PIPESIZE_def unat_word_ariths)
  then have c: "pipe_count (pipe_put c q) = Suc ?n" by (simp add: pipe_count_def pipe_put_def algebra_simps)
  show "pipe_ok (pipe_put c q)" using assms c by (simp add: pipe_ok_def pipe_put_def)
  have "ring_at PIPESIZE ((p_data q)[unat (p_nread q + of_nat ?n) mod PIPESIZE := c]) (p_nread q) (Suc ?n) = ring_at PIPESIZE (p_data q) (p_nread q) ?n @ [c]"
    by (rule ring_at_put) (use assms in \<open>simp_all add: pipe_ok_def PIPESIZE_def\<close>)
  then show "queued (pipe_put c q) = queued q @ [c]" using c nw by (simp add: queued_def) (simp add: pipe_put_def)
qed

lemma pipe_get_queued:
  assumes "pipe_ok q" "pipe_count q \<noteq> 0"
  shows "pipe_ok (q\<lparr>p_nread := p_nread q + 1\<rparr>)"
    "queued q = p_data q ! (unat (p_nread q) mod PIPESIZE) # queued (q\<lparr>p_nread := p_nread q + 1\<rparr>)"
proof -
  let ?r = "q\<lparr>p_nread := p_nread q + 1\<rparr>"
  have "p_nwrite q - p_nread q \<noteq> 0" using assms(2) pipe_empty[of q] by auto
  then have "unat (p_nwrite q - p_nread q - 1) = pipe_count q - 1" by (simp add: unat_minus_one pipe_count_def)
  then have c: "pipe_count q = Suc (pipe_count ?r)" using assms(2) by (simp add: pipe_count_def algebra_simps)
  show "pipe_ok ?r" using assms(1) c by (simp add: pipe_ok_def)
  show "queued q = p_data q ! (unat (p_nread q) mod PIPESIZE) # queued ?r"
    by (simp add: queued_def c ring_at_Cons)
qed

text \<open>
  What the rest of the system does while a writer sleeps: readers take \<open>m\<close> bytes out of the pipe and leave the
  writer's own bytes at the addresses \<open>A\<close> alone.
\<close>

definition takes :: "u32 \<Rightarrow> u32 set \<Rightarrow> nat \<Rightarrow> ('s file_state_scheme \<Rightarrow> 's file_state_scheme) \<Rightarrow> bool" where
  "takes p A m e \<longleftrightarrow> m \<le> PIPESIZE \<and> (\<forall>s. pipe_ok (pipes s p) \<longrightarrow>
     pipe_ok (pipes (e s) p) \<and> queued (pipes (e s) p) = drop m (queued (pipes s p)) \<and> (\<forall>a \<in> A. mem (e s) a = mem s a))"

text \<open>The writer can go on: there is a reader and the writer has not been killed.\<close>

definition can_write :: "u32 \<Rightarrow> 's file_state_scheme \<Rightarrow> bool" where
  "can_write p s \<longleftrightarrow> p_readopen (pipes s p) \<and> \<not> cur_killed s"

definition lets_write :: "u32 \<Rightarrow> ('s file_state_scheme \<Rightarrow> 's file_state_scheme) \<Rightarrow> bool" where
  "lets_write p e \<longleftrightarrow> (\<forall>s. can_write p s \<longrightarrow> can_write p (e s))"

lemma upd_pipe_simps [simp]: "pipes (upd_pipe p f s) = (pipes s)(p := f (pipes s p))" "mem (upd_pipe p f s) = mem s"
  "pipes (wakeup_call ch s) = pipes s" "mem (wakeup_call ch s) = mem s" "cur_killed (upd_pipe p f s) = cur_killed s"
  "cur_killed (wakeup_call ch s) = cur_killed s" "wakeups (wakeup_call ch s) = wakeups s @ [ch]"
  by (simp_all add: upd_pipe_def wakeup_call_def)

lemma can_write_simps [simp]: "can_write p (upd_pipe p (pipe_put c) s) = can_write p s" "can_write p (wakeup_call ch s) = can_write p s"
  by (simp_all add: can_write_def pipe_put_def)

text \<open>Of the old queue and the first \<open>j\<close> of the bytes \<open>bs\<close> behind it, \<open>k\<close> have been taken and the rest is queued.\<close>

definition passed :: "u32 \<Rightarrow> u8 list \<Rightarrow> nat \<Rightarrow> nat \<Rightarrow> 's file_state_scheme \<Rightarrow> 's file_state_scheme \<Rightarrow> bool" where
  "passed p bs j k s t \<longleftrightarrow> pipe_ok (pipes t p) \<and> k \<le> length (queued (pipes s p)) + j
     \<and> queued (pipes t p) = drop k (queued (pipes s p) @ take j bs)"

text \<open>
  How a writer of \<open>bs\<close> ends whose \<open>w\<close>-th sleep lasts while readers take \<open>ms ! w\<close> bytes: it sleeps only when the pipe is
  full, until everything fits.
\<close>

definition wrote :: "nat list \<Rightarrow> u32 \<Rightarrow> u8 list \<Rightarrow> 's file_state_scheme \<Rightarrow> 's file_state_scheme \<Rightarrow> bool" where
  "wrote ms p bs s t \<longleftrightarrow> (\<exists>w \<le> length ms. passed p bs (length bs) (sum_list (take w ms)) s t
     \<and> (\<forall>v < w. PIPESIZE + sum_list (take v ms) < length (queued (pipes s p)) + length bs))"

definition gave_up :: "nat list \<Rightarrow> ('s file_state_scheme \<Rightarrow> 's file_state_scheme) list \<Rightarrow> u32 \<Rightarrow> u8 list \<Rightarrow> 's file_state_scheme \<Rightarrow> 's file_state_scheme \<Rightarrow> bool" where
  "gave_up ms envs p bs s t \<longleftrightarrow> (\<exists>w \<le> length ms. \<exists>j < length bs. passed p bs j (sum_list (take w ms)) s t
     \<and> length (queued (pipes s p)) + j = PIPESIZE + sum_list (take w ms)
     \<and> \<not> can_write p t \<and> \<not> (can_write p s \<and> (\<forall>e \<in> set (take w envs). lets_write p e)))"

definition asleep :: "nat list \<Rightarrow> u32 \<Rightarrow> u8 list \<Rightarrow> 's file_state_scheme \<Rightarrow> 's file_state_scheme \<Rightarrow> bool" where
  "asleep ms p bs s t \<longleftrightarrow> (\<exists>j < length bs. passed p bs j (sum_list ms) s t
     \<and> length (queued (pipes s p)) + j = PIPESIZE + sum_list ms)"

lemma passed_put:
  assumes "pipe_ok (pipes s p)" "pipe_count (pipes s p) < PIPESIZE"
    "passed p bs j k (upd_pipe p (pipe_put c) s) t"
  shows "passed p (c # bs) (Suc j) k s t"
  using assms(3) pipe_put_queued[OF assms(1,2), of c] by (simp add: passed_def)

lemma wrote_put:
  assumes "pipe_ok (pipes s p)" "pipe_count (pipes s p) < PIPESIZE"
  shows "wrote ms p bs (upd_pipe p (pipe_put c) s) t \<Longrightarrow> wrote ms p (c # bs) s t"
    "gave_up ms envs p bs (upd_pipe p (pipe_put c) s) t \<Longrightarrow> gave_up ms envs p (c # bs) s t"
    "asleep ms p bs (upd_pipe p (pipe_put c) s) t \<Longrightarrow> asleep ms p (c # bs) s t"
proof -
  have q: "length (queued (pipes (upd_pipe p (pipe_put c) s) p)) = Suc (length (queued (pipes s p)))"
    using pipe_put_queued(2)[OF assms, of c] by simp
  show "wrote ms p (c # bs) s t" if "wrote ms p bs (upd_pipe p (pipe_put c) s) t"
    using that passed_put[OF assms] q unfolding wrote_def by (metis add_Suc add_Suc_right length_Cons)
  show "gave_up ms envs p (c # bs) s t" if g: "gave_up ms envs p bs (upd_pipe p (pipe_put c) s) t"
  proof -
    from g obtain w j where "w \<le> length ms" "Suc j < length (c # bs)" "passed p bs j (sum_list (take w ms)) (upd_pipe p (pipe_put c) s) t"
      "length (queued (pipes s p)) + Suc j = PIPESIZE + sum_list (take w ms)"
      "\<not> can_write p t \<and> \<not> (can_write p s \<and> (\<forall>e \<in> set (take w envs). lets_write p e))"
      unfolding gave_up_def q by auto
    then show ?thesis unfolding gave_up_def using passed_put[OF assms] by blast
  qed
  show "asleep ms p (c # bs) s t" if "asleep ms p bs (upd_pipe p (pipe_put c) s) t"
    using that passed_put[OF assms] q unfolding asleep_def by (metis Suc_less_eq add_Suc add_Suc_right length_Cons)
qed

lemma passed_take:
  assumes "queued (pipes u p) = drop m (queued (pipes s p))" "m \<le> length (queued (pipes s p))" "passed p bs j k u t"
  shows "passed p bs j (m + k) s t"
proof -
  have "queued (pipes u p) @ take j bs = drop m (queued (pipes s p) @ take j bs)" using assms(1,2) by simp
  then show ?thesis using assms unfolding passed_def by (simp only: drop_drop add.commute) auto
qed

lemma wrote_take:
  assumes "queued (pipes u p) = drop m (queued (pipes s p))" "length (queued (pipes s p)) = PIPESIZE" "m \<le> PIPESIZE" "bs \<noteq> []"
    "u = e s \<or> u = e (wakeup_call ch s)"
  shows "wrote ms p bs u t \<Longrightarrow> wrote (m # ms) p bs s t"
    "gave_up ms envs p bs u t \<Longrightarrow> gave_up (m # ms) (e # envs) p bs s t"
    "asleep ms p bs u t \<Longrightarrow> asleep (m # ms) p bs s t"
proof -
  have m: "m \<le> length (queued (pipes s p))" using assms(2,3) by simp
  note pt = passed_take[OF assms(1) m]
  have l: "length (queued (pipes u p)) + m = PIPESIZE" using assms(1-3) by simp
  have cw: "can_write p u" if "can_write p s" "lets_write p e" using that assms(5) by (auto simp: lets_write_def)
  show "wrote (m # ms) p bs s t" if "wrote ms p bs u t"
  proof -
    from that obtain w where w: "w \<le> length ms" "passed p bs (length bs) (sum_list (take w ms)) u t"
      "\<forall>v < w. PIPESIZE + sum_list (take v ms) < length (queued (pipes u p)) + length bs" unfolding wrote_def by blast
    have "PIPESIZE + sum_list (take v (m # ms)) < length (queued (pipes s p)) + length bs" if "v < Suc w" for v
      using w(3) that l assms(2,4) by (cases v) fastforce+
    then show ?thesis using w(1) pt[OF w(2)] unfolding wrote_def by (intro exI[of _ "Suc w"]) simp
  qed
  show "gave_up (m # ms) (e # envs) p bs s t" if "gave_up ms envs p bs u t"
  proof -
    from that obtain w j where w: "w \<le> length ms" "j < length bs" "passed p bs j (sum_list (take w ms)) u t"
      "length (queued (pipes u p)) + j = PIPESIZE + sum_list (take w ms)" "\<not> can_write p t"
      "\<not> (can_write p u \<and> (\<forall>e \<in> set (take w envs). lets_write p e))" unfolding gave_up_def by blast
    have "\<not> (can_write p s \<and> (\<forall>e \<in> set (take (Suc w) (e # envs)). lets_write p e))" using w(6) cw by auto
    then show ?thesis using w(1,2,4,5) pt[OF w(3)] l assms(2) unfolding gave_up_def
      by - (rule exI[of _ "Suc w"], rule conjI, simp, rule exI[of _ j], simp)
  qed
  show "asleep (m # ms) p bs s t" if "asleep ms p bs u t"
    using that pt l assms(2) unfolding asleep_def by fastforce
qed

lemma passed_0: "pipe_ok (pipes s p) \<Longrightarrow> pipes t p = pipes s p \<Longrightarrow> passed p bs 0 0 s t"
  by (simp add: passed_def)

definition fifo_end :: "nat list \<Rightarrow> ('s file_state_scheme \<Rightarrow> 's file_state_scheme) list \<Rightarrow> u32 \<Rightarrow> u8 list \<Rightarrow> 's file_state_scheme \<Rightarrow>
    (bool, 's file_state_scheme) outcome \<Rightarrow> bool" where
  "fifo_end ms envs p bs s r \<longleftrightarrow> (case r of
      Ret ok t \<Rightarrow> if ok then wrote ms p bs s t else gave_up ms envs p bs s t
    | Block c t \<Rightarrow> c = ch_nwrite p \<and> asleep ms p bs s t
    | _ \<Rightarrow> False)"

lemma pipewrite_loop_put:
  assumes "pipe_ok (pipes s p)" "pipe_count (pipes s p) < PIPESIZE"
    "fifo_end ms envs p (bytes_at (mem s) (addr + 1) m) (upd_pipe p (pipe_put (mem s addr)) s)
       (pipewrite_loop envs p (addr + 1) m (upd_pipe p (pipe_put (mem s addr)) s))"
  shows "fifo_end ms envs p (bytes_at (mem s) addr (Suc m)) s (pipewrite_loop envs p addr (Suc m) s)"
proof -
  have nf: "p_nwrite (pipes s p) \<noteq> p_nread (pipes s p) + of_nat PIPESIZE" using pipe_full[OF assms(1)] assms(2) by simp
  then have "pipewrite_loop envs p addr (Suc m) s = pipewrite_loop envs p (addr + 1) m (upd_pipe p (pipe_put (mem s addr)) s)"
    by (subst pipewrite_loop.simps) simp
  then show ?thesis using assms(3) wrote_put[OF assms(1,2)] unfolding fifo_end_def bytes_at_Suc
    by (auto split: outcome.splits if_splits)
qed

lemma pipewrite_loop_sleep:
  assumes "pipe_ok (pipes s p)" "pipe_count (pipes s p) = PIPESIZE" "can_write p s" "0 < n"
    "takes p A m e" "\<forall>i < n. addr + of_nat i \<in> A"
    "fifo_end ms envs p (bytes_at (mem (e (wakeup_call (ch_nread p) s))) addr n) (e (wakeup_call (ch_nread p) s))
       (pipewrite_loop envs p addr n (e (wakeup_call (ch_nread p) s)))"
  shows "fifo_end (m # ms) (e # envs) p (bytes_at (mem s) addr n) s (pipewrite_loop (e # envs) p addr n s)"
proof -
  let ?w = "wakeup_call (ch_nread p) s"
  have f: "p_nwrite (pipes s p) = p_nread (pipes s p) + of_nat PIPESIZE" using pipe_full[OF assms(1)] assms(2) by simp
  have st: "pipewrite_loop (e # envs) p addr n s = pipewrite_loop envs p addr n (e ?w)"
    using f assms(3,4) by (subst pipewrite_loop.simps) (simp add: Let_def can_write_def)
  have e: "queued (pipes (e ?w) p) = drop m (queued (pipes s p))" "m \<le> PIPESIZE" "\<forall>a \<in> A. mem (e ?w) a = mem s a"
    using assms(1,5) unfolding takes_def by (metis upd_pipe_simps(3,4))+
  have "bytes_at (mem (e ?w)) addr n = bytes_at (mem s) addr n" using e(3) assms(6) by (auto simp: bytes_at_def)
  moreover have "bytes_at (mem s) addr n \<noteq> []" using assms(4) by (simp add: bytes_at_def)
  ultimately show ?thesis using assms(7) wrote_take[OF e(1) _ e(2), of "bytes_at (mem s) addr n" e "ch_nread p"] assms(2) st
    unfolding fifo_end_def by (auto split: outcome.splits if_splits)
qed

lemma pipewrite_loop_fifo:
  assumes "list_all2 (takes p A) ms envs" "\<forall>i < n. addr + of_nat i \<in> A" "pipe_ok (pipes s p)"
  shows "fifo_end ms envs p (bytes_at (mem s) addr n) s (pipewrite_loop envs p addr n s)"
  using assms
proof (induction envs p addr n s arbitrary: ms rule: pipewrite_loop.induct)
  case (1 envs p addr n s)
  let ?q = "pipes s p"
  note ok = "1.prems"(3)
  consider "n = 0" | m where "n = Suc m" "pipe_count ?q < PIPESIZE" | "0 < n" "pipe_count ?q = PIPESIZE"
    using ok unfolding pipe_ok_def by (metis le_neq_implies_less neq0_conv not0_implies_Suc)
  then show ?case
  proof cases
    case 1
    then show ?thesis using passed_0[OF ok refl] by (subst pipewrite_loop.simps) (auto simp: fifo_end_def wrote_def bytes_at_def)
  next
    case (2 m)
    have nf: "p_nwrite ?q \<noteq> p_nread ?q + of_nat PIPESIZE" using 2(2) pipe_full[OF ok] by simp
    have "addr + 1 + of_nat i \<in> A" if "i < m" for i
      using "1.prems"(2)[rule_format, of "Suc i"] that 2(1) by (simp add: add.assoc)
    then show ?thesis using "1.IH"(2)[OF _ nf, of ms] "1.prems"(1) pipe_put_queued(1)[OF ok 2(2)] pipewrite_loop_put[OF ok 2(2)] 2(1)
      by simp
  next
    case 3
    then have f: "p_nwrite ?q = p_nread ?q + of_nat PIPESIZE" using pipe_full[OF ok] by simp
    show ?thesis
    proof (cases "can_write p s")
      case False
      then show ?thesis using 3 f passed_0[OF ok refl]
        by (subst pipewrite_loop.simps) (auto simp: fifo_end_def gave_up_def can_write_def bytes_at_def)
    next
      case True
      show ?thesis
      proof (cases envs)
        case Nil
        then show ?thesis using "1.prems"(1) True 3 f passed_0[OF ok, of "wakeup_call (ch_nread p) s"]
          by (subst pipewrite_loop.simps) (auto simp: Let_def fifo_end_def asleep_def can_write_def bytes_at_def)
      next
        case (Cons e es)
        then obtain m ms' where ms: "ms = m # ms'" "takes p A m e" "list_all2 (takes p A) ms' es"
          using "1.prems"(1) by (auto simp: list_all2_Cons2)
        let ?w = "wakeup_call (ch_nread p) s"
        have "pipe_ok (pipes (e ?w) p)" using ms(2) ok by (auto simp: takes_def)
        moreover have "\<not> (\<not> p_readopen ?q \<or> cur_killed s)" using True by (simp add: can_write_def)
        ultimately show ?thesis unfolding ms(1) Cons
          using "1.IH"(1)[OF _ f _ refl Cons, of ms'] ms(3) 3(1) "1.prems"(2) pipewrite_loop_sleep[OF ok 3(2) True 3(1) ms(2) "1.prems"(2)]
          by simp
      qed
    qed
  qed
qed

text \<open>
  C11. Bytes go through a pipe in order and none is lost or repeated. Let the readers that run while the writer
  sleeps for the \<open>w\<close>-th time take \<open>ms ! w\<close> bytes. A successful \<^verbatim>\<open>pipewrite\<close> has slept as often as needed for its bytes to fit and
  no more, has queued all of its \<^verbatim>\<open>n\<close> bytes in order behind the old ones, and wakes the readers: what is queued now is the old
  queue followed by the \<^verbatim>\<open>n\<close> bytes, without exactly the bytes the readers took. One that fails has filled the pipe
  with a prefix of its bytes, and fails only when there is no reader left or the writer has been killed; one that is still asleep
  has filled the pipe too. It never panics, and the wrap-around of the 32-bit counters does not matter.
\<close>

theorem pipewrite_fifo:
  assumes "list_all2 (takes p A) ms envs" "\<forall>i < n. src + of_nat i \<in> A" "pipe_ok (pipes s p)"
  shows "let old = queued (pipes s p); bs = bytes_at (mem s) src n in case pipewrite envs p src (int n) s of
      Ret r t \<Rightarrow> pipe_ok (pipes t p) \<and> (\<exists>w \<le> length ms. let k = sum_list (take w ms) in
          r = int n \<and> queued (pipes t p) = drop k (old @ bs) \<and> k \<le> length old + n \<and> ch_nread p \<in> set (wakeups t)
            \<and> (\<forall>v < w. PIPESIZE + sum_list (take v ms) < length old + n)
        \<or> r = -1 \<and> (\<exists>j < n. queued (pipes t p) = drop k (old @ take j bs) \<and> length old + j = PIPESIZE + k)
            \<and> \<not> can_write p t \<and> \<not> (can_write p s \<and> (\<forall>e \<in> set (take w envs). lets_write p e)))
    | Block c t \<Rightarrow> pipe_ok (pipes t p) \<and> c = ch_nwrite p
        \<and> (\<exists>j < n. queued (pipes t p) = drop (sum_list ms) (old @ take j bs) \<and> length old + j = PIPESIZE + sum_list ms)
    | _ \<Rightarrow> False"
proof -
  let ?bs = "bytes_at (mem s) src n"
  have l: "length ?bs = n" by (simp add: bytes_at_def)
  have e: "fifo_end ms envs p ?bs s (pipewrite_loop envs p src n s)" by (rule pipewrite_loop_fifo[OF assms])
  show ?thesis
  proof (cases "pipewrite_loop envs p src n s")
    case (Ret ok t)
    show ?thesis
    proof (cases ok)
      case True
      then have "wrote ms p ?bs s t" using e Ret by (simp add: fifo_end_def)
      then show ?thesis using Ret True l unfolding wrote_def passed_def pipewrite_def by (auto simp: Let_def)
    next
      case False
      then have "gave_up ms envs p ?bs s t" using e Ret by (simp add: fifo_end_def)
      then show ?thesis using Ret False l unfolding gave_up_def passed_def pipewrite_def
        by (simp add: Let_def) blast
    qed
  qed (use e l in \<open>auto simp: fifo_end_def asleep_def passed_def pipewrite_def Let_def\<close>)
qed

lemma piperead_copy_ok:
  assumes "pipe_ok (pipes s p)" "n \<le> 2 ^ 32" "piperead_copy p addr i n s = (r, t)"
  shows "r = i + min n (pipe_count (pipes s p)) \<and> pipe_ok (pipes t p) \<and> queued (pipes t p) = drop n (queued (pipes s p))
    \<and> bytes_at (mem t) addr (min n (pipe_count (pipes s p))) = take n (queued (pipes s p))
    \<and> (\<forall>a. n \<le> unat (a - addr) \<longrightarrow> mem t a = mem s a)"
  using assms
proof (induction n arbitrary: addr i s)
  case 0
  then show ?case by (simp add: bytes_at_def)
next
  case (Suc n)
  let ?q = "pipes s p"
  show ?case
  proof (cases "pipe_count ?q = 0")
    case True
    then have "queued ?q = []" by (metis length_0_conv length_queued)
    then show ?thesis using True Suc.prems pipe_empty[of ?q] by (simp add: Let_def bytes_at_def)
  next
    case False
    let ?c = "p_data ?q ! (unat (p_nread ?q) mod PIPESIZE)" and ?r = "?q\<lparr>p_nread := p_nread ?q + 1\<rparr>"
    define u where "u = (upd_pipe p (\<lambda>q. q\<lparr>p_nread := p_nread q + 1\<rparr>) s)\<lparr>mem := (mem s)(addr := ?c)\<rparr>"
    note g = pipe_get_queued[OF Suc.prems(1) False]
    have c: "pipe_count ?q = Suc (pipe_count ?r)" using arg_cong[OF g(2), of length] by simp
    have up: "pipes u p = ?r" "mem u = (mem s)(addr := ?c)" by (simp_all add: u_def)
    have e: "piperead_copy p (addr + 1) (Suc i) n u = (r, t)"
      using Suc.prems(3) False pipe_empty[of ?q] by (simp add: Let_def u_def)
    have IH: "r = Suc i + min n (pipe_count ?r)" "pipe_ok (pipes t p)" "queued (pipes t p) = drop n (queued ?r)"
      "bytes_at (mem t) (addr + 1) (min n (pipe_count ?r)) = take n (queued ?r)" "\<forall>a. n \<le> unat (a - (addr + 1)) \<longrightarrow> mem t a = mem u a"
      using Suc.IH[of u "addr + 1" "Suc i"] g(1) Suc.prems(2) e by (simp_all add: up)
    have "unat (addr - (addr + 1)) = 2 ^ 32 - 1" by (simp add: unsigned_minus_1_eq_mask mask_eq_exp_minus_1)
    then have a: "mem t addr = ?c" using IH(5)[rule_format, of addr] Suc.prems(2) by (simp add: up)
    have "mem t b = mem s b" if "Suc n \<le> unat (b - addr)" for b
    proof -
      have "b \<noteq> addr" using that by auto
      moreover have "n \<le> unat (b - (addr + 1))" using that unat_minus_one[of "b - addr"] calculation by (simp add: diff_diff_eq[symmetric])
      ultimately show ?thesis using IH(5) by (simp add: up)
    qed
    then show ?thesis using IH a g(2) c by (simp add: bytes_at_Suc)
  qed
qed

text \<open>
  C13. \<^verbatim>\<open>piperead\<close> from a pipe that has bytes, or has no writer left, returns at once with the oldest \<^verbatim>\<open>n\<close> bytes (all
  of them when there are fewer), stores exactly them at the destination, leaves the rest queued in order,
  and wakes the writers.
\<close>

theorem piperead_fifo:
  assumes "pipe_ok (pipes s p)" "queued (pipes s p) \<noteq> [] \<or> \<not> p_writeopen (pipes s p)" "n \<le> 2 ^ 31"
  shows "runs (piperead envs p dst (int n) s) (\<lambda>r t. r = int (min n (length (queued (pipes s p))))
    \<and> bytes_at (mem t) dst (nat r) = take n (queued (pipes s p)) \<and> queued (pipes t p) = drop n (queued (pipes s p))
    \<and> (\<forall>a. n \<le> unat (a - dst) \<longrightarrow> mem t a = mem s a) \<and> ch_nwrite p \<in> set (wakeups t))"
proof -
  obtain r t where rt: "piperead_copy p dst 0 n s = (r, t)" by fastforce
  have "pipe_count (pipes s p) \<noteq> 0 \<or> \<not> p_writeopen (pipes s p)" using assms(2) by (metis length_greater_0_conv length_queued less_not_refl)
  then have w: "piperead_wait envs p s = Ret True s" using pipe_empty[of "pipes s p"] by (subst piperead_wait.simps) auto
  have "n \<le> 2 ^ 32" using assms(3) by simp
  from piperead_copy_ok[OF assms(1) this rt] show ?thesis
    by (simp add: piperead_def w rt)
qed


text \<open>A pipe whose counters are about to wrap, holding one byte.\<close>

definition pipe0 :: pipe where
  "pipe0 = \<lparr>p_data = replicate PIPESIZE 65, p_nread = 0xFFFFFFFF, p_nwrite = 0, p_readopen = True, p_writeopen = True\<rparr>"

definition file0 :: file_state where
  "file0 = fs_state.extend fs0 \<lparr>pipes = (\<lambda>_. pipe0), files = (\<lambda>_. \<lparr>f_type = FD_NONE, f_ref = 0, f_readable = False, f_writable = False,
     f_pipe = 0, f_ip = 0, f_off = 0\<rparr>), cur_ofile = (\<lambda>_. None)\<rparr>"

lemma pipe0_ok: "pipe_ok (pipes file0 p)" "queued (pipes file0 p) = [65]" "pipe_count (pipes file0 p) = 1"
proof -
  have c: "pipe_count pipe0 = Suc 0" by (simp add: pipe_count_def pipe0_def One_nat_def)
  then show "pipe_ok (pipes file0 p)" "queued (pipes file0 p) = [65]" "pipe_count (pipes file0 p) = 1"
    by (simp_all add: file0_def fs_state.defs pipe_ok_def queued_def ring_at_def One_nat_def) (simp_all add: pipe0_def PIPESIZE_def)
qed

text \<open>A reader that takes up to 300 bytes while a writer sleeps.\<close>

definition reader0 :: "file_state \<Rightarrow> file_state" where
  "reader0 s = (case piperead [] 0x80300000 0x9000 300 s of Ret _ t \<Rightarrow> t | _ \<Rightarrow> s)"

lemma reader0_takes: "takes 0x80300000 {a. unat (a - 0x2000) < 600} 300 reader0"
  unfolding takes_def
proof (intro conjI allI impI)
  fix s :: file_state assume ok: "pipe_ok (pipes s 0x80300000)"
  let ?p = "0x80300000 :: u32" and ?q = "queued (pipes s 0x80300000)"
  have "pipe_ok (pipes (reader0 s) ?p) \<and> queued (pipes (reader0 s) ?p) = drop 300 ?q
      \<and> (\<forall>a. 300 \<le> unat (a - 0x9000) \<longrightarrow> mem (reader0 s) a = mem s a)"
  proof (cases "piperead_wait [] ?p s = Ret True s")
    case True
    obtain i t where it: "piperead_copy ?p 0x9000 0 300 s = (i, t)" by fastforce
    have "reader0 s = wakeup_call (ch_nwrite ?p) t" using True it by (simp add: reader0_def piperead_def)
    then show ?thesis using piperead_copy_ok[OF ok _ it] by simp
  next
    case False
    then have w: "p_nread (pipes s ?p) = p_nwrite (pipes s ?p)" by (subst (asm) piperead_wait.simps) (auto split: if_splits)
    then have "?q = []" using pipe_empty[of "pipes s ?p"] by (metis length_0_conv length_queued)
    moreover have "reader0 s = s" using False by (subst (asm) piperead_wait.simps) (auto simp: reader0_def piperead_def piperead_wait.simps split: if_splits)
    ultimately show ?thesis using ok by simp
  qed
  moreover have "300 \<le> unat (a - 0x9000)" if "unat (a - 0x2000) < 600" for a :: u32
  proof -
    have "a - 0x9000 = (a - 0x2000) - 0x7000" by simp
    then have "unat (a - 0x9000) = (unat (a - 0x2000) + (2 ^ 32 - 0x7000)) mod 2 ^ 32"
      using unat_word_ariths(1)[of "a - 0x2000" "- 0x7000"] by (simp add: One_nat_def)
    then show ?thesis using that by simp
  qed
  ultimately show "pipe_ok (pipes (reader0 s) ?p)" "queued (pipes (reader0 s) ?p) = drop 300 ?q"
    "\<forall>a \<in> {a. unat (a - 0x2000) < 600}. mem (reader0 s) a = mem s a" by auto
qed (simp add: PIPESIZE_def)

lemma piperead_copy_can_write:
  "piperead_copy p addr i n s = (r, t) \<Longrightarrow> can_write p t = can_write p s"
  by (induction p addr i n s rule: piperead_copy.induct) (auto simp: Let_def can_write_def split: if_splits)

lemma reader0_lets_write: "lets_write 0x80300000 reader0"
  unfolding lets_write_def reader0_def piperead_def
  by (subst piperead_wait.simps) (auto dest: piperead_copy_can_write split: prod.splits)

theorem pipewrite_fifo_witness:
  "runs (pipewrite [reader0] 0x80300000 0x2000 (int 600) file0)
     (\<lambda>r t. r = 600 \<and> queued (pipes t 0x80300000) = drop 300 (65 # bytes_at (mem file0) 0x2000 600))"
proof -
  have 1: "list_all2 (takes 0x80300000 {a. unat (a - 0x2000) < 600}) [300] [reader0]" using reader0_takes by simp
  have 2: "\<forall>i < 600. 0x2000 + of_nat i \<in> {a :: u32. unat (a - 0x2000) < 600}" by (auto simp: unat_of_nat)
  have c: "can_write 0x80300000 file0" by (simp add: can_write_def file0_def fs_state.defs pipe0_def fs0_def log0_def bio0_def bio_state.defs vga_state.defs log_state.defs
      vga0_def console0_def console_state.defs)
  note f = pipewrite_fifo[OF 1 2 pipe0_ok(1)]
  show ?thesis
  proof (cases "pipewrite [reader0] 0x80300000 0x2000 (int 600) file0")
    case (Ret r t)
    have ok: "length (queued (pipes t 0x80300000)) \<le> PIPESIZE" using f Ret by (simp add: Let_def pipe_ok_def)
    from f Ret obtain w where w: "w \<le> 1" "r = 600" "queued (pipes t 0x80300000) = drop (sum_list (take w [300])) (65 # bytes_at (mem file0) 0x2000 600)"
      using c reader0_lets_write by (auto simp: Let_def pipe0_ok(2) One_nat_def dest: in_set_takeD)
    have "w \<noteq> 0" using w(3) ok by (intro notI) (simp add: PIPESIZE_def)
    then have "w = 1" using w(1) by simp
    then show ?thesis using Ret w(2,3) by (simp add: One_nat_def)
  qed (use f in \<open>auto simp: Let_def pipe0_ok(2) PIPESIZE_def\<close>)
qed

theorem piperead_fifo_witness:
  "runs (piperead [] 0x80300000 0x2000 (int 8) file0) (\<lambda>r t. r = 1 \<and> bytes_at (mem t) 0x2000 1 = [65] \<and> queued (pipes t 0x80300000) = [])"
proof -
  have n: "min 8 (length (queued (pipes file0 0x80300000))) = 1" "take 8 (queued (pipes file0 0x80300000)) = [65]"
      "drop 8 (queued (pipes file0 0x80300000)) = []" "queued (pipes file0 0x80300000) \<noteq> []" "(8 :: nat) \<le> 2 ^ 31"
    unfolding pipe0_ok by (simp_all add: One_nat_def)
  from piperead_fifo[where n = 8 and envs = "[]" and dst = "0x2000", OF pipe0_ok(1) disjI1[OF n(4)] n(5)]
  show ?thesis unfolding n(1-3) by (rule runs_mono) (simp only: of_nat_1 nat_1[folded One_nat_def] simp_thms, simp add: One_nat_def)
qed

end
