(* ===== verification/Sysfile.thy ===== *)
theory Sysfile
  imports File
begin

text \<open>
  The system calls on files, \<^verbatim>\<open>src/sysfile.c\<close>. A path argument is read from user memory when the call
  starts. A result \<open>Ret (-1)\<close> is the error return. \<open>kend\<close> is the linker's \<^verbatim>\<open>end\<close>; \<open>envs\<close> is what the rest of
  the system does while a call sleeps in a pipe or the console.
\<close>

unbundle bit_operations_syntax

section \<open>Descriptors\<close>

definition argfd :: "int \<Rightarrow> 's file_state_scheme \<Rightarrow> (nat \<times> nat) option" where
  "argfd n s =
     (case argint n s of
        None \<Rightarrow> None
      | Some fd \<Rightarrow>
          if fd < 0 \<or> int NOFILE \<le> fd then None
          else (case cur_ofile s (nat fd) of None \<Rightarrow> None | Some f \<Rightarrow> Some (nat fd, f)))"

definition fdalloc :: "nat \<Rightarrow> 's file_state_scheme \<Rightarrow> nat option \<times> 's file_state_scheme" where
  "fdalloc f s =
     (case find (\<lambda>fd. cur_ofile s fd = None) [0..<NOFILE] of
        None \<Rightarrow> (None, s)
      | Some fd \<Rightarrow> (Some fd, s\<lparr>cur_ofile := (cur_ofile s)(fd := Some f)\<rparr>))"

definition sys_dup :: "'s file_state_scheme \<Rightarrow> (int, 's file_state_scheme) outcome" where
  "sys_dup s =
     (case argfd 0 s of
        None \<Rightarrow> Ret (-1) s
      | Some (_, f) \<Rightarrow>
          (case fdalloc f s of
             (None, s) \<Rightarrow> Ret (-1) s
           | (Some fd, s) \<Rightarrow> bindO (filedup f s) (\<lambda>_ s. Ret (int fd) s)))"

definition arg_io :: "'s file_state_scheme \<Rightarrow> (nat \<times> u32 \<times> int) option" where
  "arg_io s =
     (case argfd 0 s of
        None \<Rightarrow> None
      | Some (_, f) \<Rightarrow>
          (case argint 2 s of
             None \<Rightarrow> None
           | Some n \<Rightarrow> (case argptr 1 n s of None \<Rightarrow> None | Some p \<Rightarrow> Some (f, p, n))))"

definition sys_read :: "('s file_state_scheme \<Rightarrow> 's file_state_scheme) list \<Rightarrow> 's file_state_scheme \<Rightarrow> (int, 's file_state_scheme) outcome" where
  "sys_read envs s = (case arg_io s of None \<Rightarrow> Ret (-1) s | Some (f, p, n) \<Rightarrow> fileread envs f p n s)"

definition sys_write :: "platform \<Rightarrow> ('s file_state_scheme \<Rightarrow> 's file_state_scheme) list \<Rightarrow> 's file_state_scheme \<Rightarrow>
    (int, 's file_state_scheme) outcome" where
  "sys_write P envs s = (case arg_io s of None \<Rightarrow> Ret (-1) s | Some (f, p, n) \<Rightarrow> filewrite P envs f p n s)"

definition sys_close :: "u32 \<Rightarrow> 's file_state_scheme \<Rightarrow> (int, 's file_state_scheme) outcome" where
  "sys_close kend s =
     (case argfd 0 s of
        None \<Rightarrow> Ret (-1) s
      | Some (fd, f) \<Rightarrow> bindO (fileclose kend f (s\<lparr>cur_ofile := (cur_ofile s)(fd := None)\<rparr>)) (\<lambda>_ s. Ret 0 s))"

definition sys_fstat :: "'s file_state_scheme \<Rightarrow> (int, 's file_state_scheme) outcome" where
  "sys_fstat s =
     (case argfd 0 s of
        None \<Rightarrow> Ret (-1) s
      | Some (_, f) \<Rightarrow> (case argptr 1 20 s of None \<Rightarrow> Ret (-1) s | Some st \<Rightarrow> filestat f st s))"

section \<open>Names\<close>

definition argpath :: "int \<Rightarrow> 's file_state_scheme \<Rightarrow> u8 list option" where
  "argpath n s = map_option (\<lambda>(p, len). bytes_at (mem s) p len) (argstr n s)"

text \<open>The two ways a call in a transaction ends: with a result, or by giving up.\<close>

definition end_with :: "int \<Rightarrow> 's file_state_scheme \<Rightarrow> (int, 's file_state_scheme) outcome" where
  "end_with r s = bindO (end_op s) (\<lambda>_ s. Ret r s)"

definition add_nlink :: "nat \<Rightarrow> u16 \<Rightarrow> 's file_state_scheme \<Rightarrow> (unit, 's file_state_scheme) outcome" where
  "add_nlink i d s = iupdate i (upd_inode i (\<lambda>ip. ip\<lparr>i_nlink := i_nlink ip + d\<rparr>) s)"

definition cleanupsyslink :: "nat \<Rightarrow> 's file_state_scheme \<Rightarrow> (unit, 's file_state_scheme) outcome" where
  "cleanupsyslink ip s =
     bindO (ilock ip s) (\<lambda>_ s.
     bindO (add_nlink ip (-1) s) (\<lambda>_ s.
     bindO (iunlockput ip s) (\<lambda>_ s.
       end_op s)))"

definition sys_link :: "'s file_state_scheme \<Rightarrow> (int, 's file_state_scheme) outcome" where
  "sys_link s =
     (case argpath 0 s of
        None \<Rightarrow> Ret (-1) s
      | Some old \<Rightarrow>
     (case argpath 1 s of
        None \<Rightarrow> Ret (-1) s
      | Some new \<Rightarrow>
     bindO (begin_op s) (\<lambda>_ s.
     bindO (namei old s) (\<lambda>r s.
     case r of
       None \<Rightarrow> end_with (-1) s
     | Some ip \<Rightarrow>
         bindO (ilock ip s) (\<lambda>_ s.
         if i_type (icache s ip) = T_DIR then bindO (iunlockput ip s) (\<lambda>_ s. end_with (-1) s)
         else
           bindO (add_nlink ip 1 s) (\<lambda>_ s.
           bindO (iunlock ip s) (\<lambda>_ s.
           bindO (nameiparent new s) (\<lambda>r s.
           case r of
             None \<Rightarrow> bindO (cleanupsyslink ip s) (\<lambda>_ s. Ret (-1) s)
           | Some (dp, name) \<Rightarrow>
               bindO (ilock dp s) (\<lambda>_ s.
               bindO (if i_dev (icache s dp) \<noteq> i_dev (icache s ip) then Ret (-1) s
                      else dirlink dp name (i_inum (icache s ip)) s) (\<lambda>r s.
               bindO (iunlockput dp s) (\<lambda>_ s.
                 if r < 0 then bindO (cleanupsyslink ip s) (\<lambda>_ s. Ret (-1) s)
                 else bindO (iput ip s) (\<lambda>_ s. end_with 0 s))))))))))))"

function isdirempty_loop :: "nat \<Rightarrow> nat \<Rightarrow> nat \<Rightarrow> 's fs_state_scheme \<Rightarrow> (bool, 's fs_state_scheme) outcome" where
  "isdirempty_loop dp sz off s =
     (if off < sz then
        bindO (readi_bytes dp (of_nat off) 16 s) (\<lambda>r s.
          case r of None \<Rightarrow> Panic ''isdirempty: readi''
          | Some de \<Rightarrow>
              if length de \<noteq> 16 then Panic ''isdirempty: readi''
              else if de_inum de \<noteq> 0 then Ret False s
              else isdirempty_loop dp sz (off + 16) s)
      else Ret True s)"
  by pat_completeness auto
termination by (relation "measure (\<lambda>(dp, sz, off, s). sz - off)") auto

declare isdirempty_loop.simps [simp del]

definition isdirempty :: "nat \<Rightarrow> 's fs_state_scheme \<Rightarrow> (bool, 's fs_state_scheme) outcome" where
  "isdirempty dp s = isdirempty_loop dp (unat (i_size (icache s dp))) 32 s"

definition dot :: "u8 list" where "dot = [46]"
definition dotdot :: "u8 list" where "dotdot = [46, 46]"

definition sys_unlink :: "'s file_state_scheme \<Rightarrow> (int, 's file_state_scheme) outcome" where
  "sys_unlink s =
     (case argpath 0 s of
        None \<Rightarrow> Ret (-1) s
      | Some path \<Rightarrow>
     bindO (begin_op s) (\<lambda>_ s.
     bindO (nameiparent path s) (\<lambda>r s.
     case r of
       None \<Rightarrow> end_with (-1) s
     | Some (dp, name) \<Rightarrow>
         bindO (ilock dp s) (\<lambda>_ s.
         if namecmp name dot = 0 \<or> namecmp name dotdot = 0 then bindO (iunlockput dp s) (\<lambda>_ s. end_with (-1) s)
         else
           bindO (dirlookup dp name s) (\<lambda>r s.
           case r of
             None \<Rightarrow> bindO (iunlockput dp s) (\<lambda>_ s. end_with (-1) s)
           | Some (ip, off) \<Rightarrow>
               bindO (ilock ip s) (\<lambda>_ s.
               if sint (i_nlink (icache s ip)) < 1 then Panic ''unlink: nlink < 1''
               else
                 bindO (if i_type (icache s ip) = T_DIR then isdirempty ip s else Ret True s) (\<lambda>empty s.
                 if \<not> empty then
                   bindO (iunlockput ip s) (\<lambda>_ s.
                   bindO (iunlockput dp s) (\<lambda>_ s. end_with (-1) s))
                 else
                   bindO (writei_bytes dp (replicate 16 0) (of_nat off) 16 s) (\<lambda>r s.
                   if r \<noteq> 16 then Panic ''unlink: writei''
                   else
                     bindO (if i_type (icache s ip) = T_DIR then add_nlink dp (-1) s else Ret () s) (\<lambda>_ s.
                     bindO (iunlockput dp s) (\<lambda>_ s.
                     bindO (add_nlink ip (-1) s) (\<lambda>_ s.
                     bindO (iunlockput ip s) (\<lambda>_ s.
                       end_with 0 s))))))))))))"

definition create :: "u8 list \<Rightarrow> u16 \<Rightarrow> u16 \<Rightarrow> u16 \<Rightarrow> 's file_state_scheme \<Rightarrow> (nat option, 's file_state_scheme) outcome" where
  "create path type major minor s =
     bindO (nameiparent path s) (\<lambda>r s.
     case r of
       None \<Rightarrow> Ret None s
     | Some (dp, name) \<Rightarrow>
         bindO (ilock dp s) (\<lambda>_ s.
         bindO (dirlookup dp name s) (\<lambda>r s.
         case r of
           Some (ip, _) \<Rightarrow>
             bindO (iunlockput dp s) (\<lambda>_ s.
             bindO (ilock ip s) (\<lambda>_ s.
               if type = T_FILE \<and> i_type (icache s ip) = T_FILE then Ret (Some ip) s
               else bindO (iunlockput ip s) (\<lambda>_ s. Ret None s)))
         | None \<Rightarrow>
             bindO (ialloc (i_dev (icache s dp)) type s) (\<lambda>ip s.
             bindO (ilock ip s) (\<lambda>_ s.
             bindO (iupdate ip (upd_inode ip (\<lambda>i. i\<lparr>i_major := major, i_minor := minor, i_nlink := 1\<rparr>) s)) (\<lambda>_ s.
             bindO (if type = T_DIR then
                      bindO (add_nlink dp 1 s) (\<lambda>_ s.
                      bindO (dirlink ip dot (i_inum (icache s ip)) s) (\<lambda>r s.
                      if r < 0 then Panic ''create dots''
                      else
                        bindO (dirlink ip dotdot (i_inum (icache s dp)) s) (\<lambda>r s.
                        if r < 0 then Panic ''create dots'' else Ret () s)))
                    else Ret () s) (\<lambda>_ s.
             bindO (dirlink dp name (i_inum (icache s ip)) s) (\<lambda>r s.
             if r < 0 then Panic ''create: dirlink''
             else bindO (iunlockput dp s) (\<lambda>_ s. Ret (Some ip) s)))))))))"

definition O_RDONLY :: u32 where "O_RDONLY = 0x000"
definition O_WRONLY :: u32 where "O_WRONLY = 0x001"
definition O_RDWR :: u32 where "O_RDWR = 0x002"
definition O_CREATE :: u32 where "O_CREATE = 0x200"

definition open_inode :: "u8 list \<Rightarrow> u32 \<Rightarrow> 's file_state_scheme \<Rightarrow> (nat option, 's file_state_scheme) outcome" where
  "open_inode path omode s =
     (if omode AND O_CREATE \<noteq> 0 then create path T_FILE 0 0 s
      else
        bindO (namei path s) (\<lambda>r s.
        case r of
          None \<Rightarrow> Ret None s
        | Some ip \<Rightarrow>
            bindO (ilock ip s) (\<lambda>_ s.
              if i_type (icache s ip) = T_DIR \<and> omode \<noteq> O_RDONLY
              then bindO (iunlockput ip s) (\<lambda>_ s. Ret None s)
              else Ret (Some ip) s)))"

definition sys_open :: "u32 \<Rightarrow> 's file_state_scheme \<Rightarrow> (int, 's file_state_scheme) outcome" where
  "sys_open kend s =
     (case argpath 0 s of
        None \<Rightarrow> Ret (-1) s
      | Some path \<Rightarrow>
     (case argint 1 s of
        None \<Rightarrow> Ret (-1) s
      | Some om \<Rightarrow>
     let omode = word_of_int om
     in bindO (begin_op s) (\<lambda>_ s.
        bindO (open_inode path omode s) (\<lambda>r s.
        case r of
          None \<Rightarrow> end_with (-1) s
        | Some ip \<Rightarrow>
            (case filealloc s of
               (None, s) \<Rightarrow> bindO (iunlockput ip s) (\<lambda>_ s. end_with (-1) s)
             | (Some f, s) \<Rightarrow>
                 (case fdalloc f s of
                    (None, s) \<Rightarrow>
                      bindO (fileclose kend f s) (\<lambda>_ s.
                      bindO (iunlockput ip s) (\<lambda>_ s. end_with (-1) s))
                  | (Some fd, s) \<Rightarrow>
                      bindO (iunlock ip s) (\<lambda>_ s.
                      bindO (end_op s) (\<lambda>_ s.
                        Ret (int fd) (upd_file f (\<lambda>g. g\<lparr>f_type := FD_INODE, f_readable := omode AND O_WRONLY = 0,
                          f_writable := omode AND O_WRONLY \<noteq> 0 \<or> omode AND O_RDWR \<noteq> 0, f_ip := ip, f_off := 0\<rparr>) s)))))))))"

definition finish_create :: "nat option \<Rightarrow> 's file_state_scheme \<Rightarrow> (int, 's file_state_scheme) outcome" where
  "finish_create r s =
     (case r of None \<Rightarrow> end_with (-1) s | Some ip \<Rightarrow> bindO (iunlockput ip s) (\<lambda>_ s. end_with 0 s))"

definition sys_mkdir :: "'s file_state_scheme \<Rightarrow> (int, 's file_state_scheme) outcome" where
  "sys_mkdir s =
     bindO (begin_op s) (\<lambda>_ s.
     case argpath 0 s of
       None \<Rightarrow> end_with (-1) s
     | Some path \<Rightarrow> bindO (create path T_DIR 0 0 s) (\<lambda>r s. finish_create r s))"

definition sys_mknod :: "'s file_state_scheme \<Rightarrow> (int, 's file_state_scheme) outcome" where
  "sys_mknod s =
     bindO (begin_op s) (\<lambda>_ s.
     case (argpath 0 s, argint 1 s, argint 2 s) of
       (Some path, Some major, Some minor) \<Rightarrow>
         bindO (create path T_DEV (word_of_int major) (word_of_int minor) s) (\<lambda>r s. finish_create r s)
     | _ \<Rightarrow> end_with (-1) s)"

definition sys_chdir :: "'s file_state_scheme \<Rightarrow> (int, 's file_state_scheme) outcome" where
  "sys_chdir s =
     bindO (begin_op s) (\<lambda>_ s.
     case argpath 0 s of
       None \<Rightarrow> end_with (-1) s
     | Some path \<Rightarrow>
         bindO (namei path s) (\<lambda>r s.
         case r of
           None \<Rightarrow> end_with (-1) s
         | Some ip \<Rightarrow>
             bindO (ilock ip s) (\<lambda>_ s.
             if i_type (icache s ip) \<noteq> T_DIR then bindO (iunlockput ip s) (\<lambda>_ s. end_with (-1) s)
             else
               bindO (iunlock ip s) (\<lambda>_ s.
               bindO (iput (cur_cwd s) s) (\<lambda>_ s.
               bindO (end_op s) (\<lambda>_ s.
                 Ret 0 (s\<lparr>cur_cwd := ip\<rparr>)))))))"

definition sys_pipe :: "u32 \<Rightarrow> 's file_state_scheme \<Rightarrow> (int, 's file_state_scheme) outcome" where
  "sys_pipe kend s =
     (case argptr 0 8 s of
        None \<Rightarrow> Ret (-1) s
      | Some fd \<Rightarrow>
          bindO (pipealloc kend s) (\<lambda>r s.
          case r of
            None \<Rightarrow> Ret (-1) s
          | Some (rfile, wfile) \<Rightarrow>
              (case fdalloc rfile s of
                 (None, s) \<Rightarrow>
                   bindO (fileclose kend rfile s) (\<lambda>_ s.
                   bindO (fileclose kend wfile s) (\<lambda>_ s. Ret (-1) s))
               | (Some fd0, s) \<Rightarrow>
                   (case fdalloc wfile s of
                      (None, s) \<Rightarrow>
                        bindO (fileclose kend rfile (s\<lparr>cur_ofile := (cur_ofile s)(fd0 := None)\<rparr>)) (\<lambda>_ s.
                        bindO (fileclose kend wfile s) (\<lambda>_ s. Ret (-1) s))
                    | (Some fd1, s) \<Rightarrow>
                        Ret 0 (s\<lparr>mem := store_int (store_int (mem s) fd (int fd0)) (fd + 4) (int fd1)\<rparr>)))))"

text \<open>The argument vector that \<^verbatim>\<open>sys_exec\<close> collects; \<open>None\<close> is the error return.\<close>

function exec_args :: "u32 \<Rightarrow> nat \<Rightarrow> 's uproc_state_scheme \<Rightarrow> u32 list option" where
  "exec_args uargv i s =
     (if MAXARG \<le> i then None
      else case fetchint (uargv + 4 * of_nat i) s of
        None \<Rightarrow> None
      | Some uarg \<Rightarrow>
          if uarg = 0 then Some []
          else (case fetchstr (word_of_int uarg) s of
                  None \<Rightarrow> None
                | Some (p, len) \<Rightarrow> map_option (Cons p) (exec_args uargv (Suc i) s)))"
  by pat_completeness auto
termination by (relation "measure (\<lambda>(uargv, i, s). MAXARG - i)") auto

declare exec_args.simps [simp del]


definition sys_getch :: "platform \<Rightarrow> 's console_state_scheme \<Rightarrow> (int, 's console_state_scheme) outcome option" where
  "sys_getch P s = consoleget P s"

section \<open>Descriptors and references\<close>

lemma find_first: "find P xs = Some x \<Longrightarrow> P x \<and> x \<in> set xs"
  by (auto simp: find_Some_iff)

text \<open>
  C24. \<^verbatim>\<open>dup\<close> of an open descriptor returns the lowest free descriptor, which then names the same open file, with one
  more reference to it; nothing else changes. With no descriptor free it returns -1 and changes nothing.
\<close>

theorem sys_dup_lowest:
  assumes "argfd 0 s = Some (fd, f)" "1 \<le> f_ref (files s f)"
  shows "if \<exists>d < NOFILE. cur_ofile s d = None
    then runs (sys_dup s) (\<lambda>r t. \<exists>d < NOFILE. r = int d \<and> cur_ofile s d = None \<and> (\<forall>e < d. cur_ofile s e \<noteq> None)
      \<and> t = s\<lparr>files := (files s)(f := (files s f)\<lparr>f_ref := f_ref (files s f) + 1\<rparr>), cur_ofile := (cur_ofile s)(d := Some f)\<rparr>)
    else sys_dup s = Ret (-1) s"
proof (cases "\<exists>d < NOFILE. cur_ofile s d = None")
  case True
  then obtain d where d: "d < NOFILE" "cur_ofile s d = None" "\<forall>e < d. cur_ofile s e \<noteq> None"
    using exists_least_iff[of "\<lambda>d. d < NOFILE \<and> cur_ofile s d = None"] by (metis less_trans)
  then have "find (\<lambda>fd. cur_ofile s fd = None) [0..<NOFILE] = Some d" by (intro find_least) auto
  then show ?thesis using True assms d by (auto simp: sys_dup_def fdalloc_def filedup_def upd_file_def)
next
  case False
  then have "find (\<lambda>fd. cur_ofile s fd = None) [0..<NOFILE] = None" by (auto simp: find_None_iff)
  then show ?thesis using False assms by (simp add: sys_dup_def fdalloc_def)
qed

lemma upd_file_simps [simp]: "files (upd_file i f s) = (files s)(i := f (files s i))" "mem (upd_file i f s) = mem s" "freelist (upd_file i f s) = freelist s"
  "pipes (upd_file i f s) = pipes s" "cur_ofile (upd_file i f s) = cur_ofile s" "cur_ofile (upd_pipe p g s) = cur_ofile s" "files (upd_pipe p g s) = files s"
  by (simp_all add: upd_file_def upd_pipe_def)

text \<open>The page at the head of the free list can be given back.\<close>

definition free_page :: "u32 \<Rightarrow> u32 \<Rightarrow> bool" where
  "free_page kend p \<longleftrightarrow> p \<noteq> 0 \<and> p mod PGSIZE = 0 \<and> kend \<le> p \<and> V2P p < PHYSTOP"

lemma fdalloc_cases:
  "fdalloc f s = (case find (\<lambda>fd. cur_ofile s fd = None) [0..<NOFILE] of None \<Rightarrow> (None, s)
     | Some fd \<Rightarrow> (Some fd, s\<lparr>cur_ofile := (cur_ofile s)(fd := Some f)\<rparr>))"
  by (simp add: fdalloc_def)

lemma close_both_ends:
  assumes "f0 \<noteq> f1" "free_page kend p" "p_writeopen (pipes s p)"
    "f_type (files s f0) = FD_PIPE" "f_ref (files s f0) = 1" "\<not> f_writable (files s f0)" "f_pipe (files s f0) = p"
    "f_type (files s f1) = FD_PIPE" "f_ref (files s f1) = 1" "f_writable (files s f1)" "f_pipe (files s f1) = p"
  shows "runs (fileclose kend f0 s) (\<lambda>_ t. runs (fileclose kend f1 t) (\<lambda>_ t. cur_ofile t = cur_ofile s \<and> freelist t = p
    \<and> (\<forall>i. f_ref (files t i) = (if i = f0 \<or> i = f1 then 0 else f_ref (files s i)))))"
proof -
  define t where "t = wakeup_call (ch_nwrite p) (upd_pipe p (\<lambda>q. q\<lparr>p_readopen := False\<rparr>) (upd_file f0 (\<lambda>f. f\<lparr>f_type := FD_NONE, f_ref := 0\<rparr>) s))"
  have e: "fileclose kend f0 s = Ret () t"
    using assms by (simp add: fileclose_def upd_file_def pipeclose_def upd_pipe_def Let_def wakeup_call_def t_def)
  have t: "files t = (files s)(f0 := (files s f0)\<lparr>f_type := FD_NONE, f_ref := 0\<rparr>)" "\<not> p_readopen (pipes t p)" "cur_ofile t = cur_ofile s"
    by (simp_all add: t_def upd_file_def wakeup_call_def upd_pipe_def)
  have k: "\<not> (p mod PGSIZE \<noteq> 0 \<or> p < kend \<or> PHYSTOP \<le> V2P p)" using assms(2) by (auto simp: free_page_def)
  have "runs (fileclose kend f1 t) (\<lambda>_ t. cur_ofile t = cur_ofile s \<and> freelist t = p
    \<and> (\<forall>i. f_ref (files t i) = (if i = f0 \<or> i = f1 then 0 else f_ref (files s i))))"
    using assms(1,8-11) t k by (simp add: fileclose_def upd_file_def pipeclose_def upd_pipe_def Let_def kfree_def wakeup_call_def)
  then show ?thesis using e by simp
qed

text \<open>
  C23. When \<^verbatim>\<open>pipe\<close> finds two free file structures and a free page but fewer than two free descriptors, it returns -1 and gives
  everything back: the page is at the head of the free list again, both file structures are free, and no
  descriptor has changed.
\<close>

theorem sys_pipe_gives_back:
  assumes "argptr 0 8 s = Some fd" "free_page kend (freelist s)" "card {d. d < NOFILE \<and> cur_ofile s d = None} < 2"
    "find (\<lambda>i. f_ref (files s i) = 0) [0..<NFILE] = Some f0" "find (\<lambda>i. i \<noteq> f0 \<and> f_ref (files s i) = 0) [0..<NFILE] = Some f1"
  shows "runs (sys_pipe kend s) (\<lambda>r t. r = -1 \<and> cur_ofile t = cur_ofile s \<and> freelist t = freelist s
    \<and> (\<forall>i. f_ref (files t i) = f_ref (files s i)))"
proof -
  let ?p = "freelist s"
  have f: "f_ref (files s f0) = 0" "f_ref (files s f1) = 0" "f1 \<noteq> f0" using find_first[OF assms(4)] find_first[OF assms(5)] by auto
  let ?s1 = "upd_file f0 (\<lambda>f. f\<lparr>f_ref := 1\<rparr>) s"
  have "find (\<lambda>i. f_ref (files ?s1 i) = 0) [0..<NFILE] = find (\<lambda>i. i \<noteq> f0 \<and> f_ref (files s i) = 0) [0..<NFILE]"
    by (rule arg_cong[of _ _ "\<lambda>P. find P [0..<NFILE]"]) (auto simp: upd_file_def)
  then have a: "filealloc s = (Some f0, ?s1)" "filealloc ?s1 = (Some f1, upd_file f1 (\<lambda>f. f\<lparr>f_ref := 1\<rparr>) ?s1)"
    using assms(4,5) by (simp_all add: filealloc_def)
  define u where "u = upd_file f1 (\<lambda>f. f\<lparr>f_type := FD_PIPE, f_readable := False, f_writable := True, f_pipe := ?p\<rparr>)
    (upd_file f0 (\<lambda>f. f\<lparr>f_type := FD_PIPE, f_readable := True, f_writable := False, f_pipe := ?p\<rparr>)
     (upd_pipe ?p (\<lambda>q. q\<lparr>p_nread := 0, p_nwrite := 0, p_readopen := True, p_writeopen := True\<rparr>)
      ((upd_file f1 (\<lambda>f. f\<lparr>f_ref := 1\<rparr>) ?s1)\<lparr>freelist := load32 (mem s) ?p\<rparr>)))"
  have pa: "pipealloc kend s = Ret (Some (f0, f1)) u"
    using assms(2) by (simp add: pipealloc_def a kalloc_def u_def Let_def free_page_def)
  have uo: "cur_ofile u = cur_ofile s" by (simp add: u_def upd_file_def upd_pipe_def)
  have close: "runs (fileclose kend f0 (u\<lparr>cur_ofile := cur_ofile s\<rparr>)) (\<lambda>_ t. runs (fileclose kend f1 t)
      (\<lambda>_ t. cur_ofile t = cur_ofile s \<and> freelist t = ?p \<and> (\<forall>i. f_ref (files t i) = f_ref (files s i))))"
    by (rule runs_mono[OF close_both_ends[OF f(3)[symmetric] assms(2)]])
      (use f in \<open>auto simp: u_def upd_file_def upd_pipe_def elim!: runs_mono\<close>)
  let ?c = "\<lambda>d. cur_ofile s d = None"
  consider "find ?c [0..<NOFILE] = None" | d where "find ?c [0..<NOFILE] = Some d" "find (\<lambda>e. ((cur_ofile s)(d := Some f0)) e = None) [0..<NOFILE] = None"
  proof (cases "find ?c [0..<NOFILE]")
    case (Some d)
    have "find (\<lambda>e. ((cur_ofile s)(d := Some f0)) e = None) [0..<NOFILE] = None"
    proof (rule ccontr)
      assume "find (\<lambda>e. ((cur_ofile s)(d := Some f0)) e = None) [0..<NOFILE] \<noteq> None"
      then obtain e where "find (\<lambda>e. ((cur_ofile s)(d := Some f0)) e = None) [0..<NOFILE] = Some e" by blast
      then have "{d, e} \<subseteq> {d. d < NOFILE \<and> cur_ofile s d = None}" "d \<noteq> e" using find_first[OF Some] find_first[of _ _ e] by (fastforce split: if_splits)+
      then have "card {d, e} \<le> card {d. d < NOFILE \<and> cur_ofile s d = None}" by (intro card_mono) auto
      then show False using assms(3) \<open>d \<noteq> e\<close> by simp
    qed
    then show ?thesis using that Some by blast
  qed (use that in blast)
  then show ?thesis
  proof cases
    case 1
    have e: "u\<lparr>cur_ofile := cur_ofile s\<rparr> = u" by (simp flip: uo)
    show ?thesis using 1 close unfolding e by (simp add: sys_pipe_def assms(1) pa fdalloc_def uo)
  next
    case 2
    have e: "u\<lparr>cur_ofile := (cur_ofile s)(d := None)\<rparr> = u\<lparr>cur_ofile := cur_ofile s\<rparr>" using find_first[OF 2(1)] by (auto simp: fun_upd_idem)
    show ?thesis using 2 close unfolding e[symmetric] by (simp add: sys_pipe_def assms(1) pa fdalloc_def uo)
  qed
qed


text \<open>A process with zeroed memory, so that every argument of its call is 0.\<close>

definition call0 :: file_state where
  "call0 = file0\<lparr>mem := (\<lambda>_. 0), freelist := 0x80400000, cur_sz := 0x4000, cur_esp := 0x1000,
     files := (files file0)(5 := (files file0 5)\<lparr>f_ref := 1\<rparr>), cur_ofile := (\<lambda>d. if d = 3 then None else Some 5)\<rparr>"

lemma call0_args: "argfd 0 call0 = Some (0, 5)" "argptr 0 8 call0 = Some 0" "f_ref (files call0 5) = 1"
  by (simp_all add: argfd_def argptr_def argint_def fetchint_def load_int_def load32_def call0_def NOFILE_def)

theorem sys_dup_lowest_witness: "runs (sys_dup call0) (\<lambda>r t. r = 3 \<and> cur_ofile t 3 = Some 5 \<and> f_ref (files t 5) = 2)"
proof -
  have n: "\<exists>d < NOFILE. cur_ofile call0 d = None" by (intro exI[of _ 3]) (simp add: call0_def NOFILE_def)
  from sys_dup_lowest[OF call0_args(1)] n call0_args(3) show ?thesis
    by (auto elim!: runs_mono) (auto simp: call0_def split: if_splits)
qed

theorem sys_pipe_gives_back_witness: "runs (sys_pipe 0x80200000 call0) (\<lambda>r t. r = -1 \<and> freelist t = 0x80400000 \<and> cur_ofile t 3 = None)"
proof -
  have p: "free_page 0x80200000 (freelist call0)" by (simp add: free_page_def call0_def PGSIZE_def V2P_def KERNBASE_def PHYSTOP_def One_nat_def)
  have "{d. d < NOFILE \<and> cur_ofile call0 d = None} = {3}" by (auto simp: call0_def NOFILE_def split: if_splits)
  then have c: "card {d. d < NOFILE \<and> cur_ofile call0 d = None} < 2" by simp
  have z: "f_ref (files call0 i) = (if i = 5 then 1 else 0)" for i by (simp add: call0_def file0_def fs_state.defs)
  have "find (\<lambda>i. f_ref (files call0 i) = 0) [0..<NFILE] = Some 0" "find (\<lambda>i. i \<noteq> 0 \<and> f_ref (files call0 i) = 0) [0..<NFILE] = Some 1"
    by (rule find_least; simp add: z NFILE_def)+
  from sys_pipe_gives_back[OF call0_args(2) p c this] show ?thesis by (rule runs_mono) (auto simp: call0_def)
qed

end
