(* ===== verification/Vm.thy ===== *)
theory Vm
  imports Sysfile
begin

text \<open>
  Page tables, \<^verbatim>\<open>src/vm.c\<close>. Page directories and page tables are words of memory at kernel addresses, and physical
  memory is seen through the kernel's direct map (\<open>P2V\<close>). \<open>kend\<close> and \<open>kdata\<close> are the linker's \<^verbatim>\<open>end\<close> and
  \<^verbatim>\<open>data\<close>. The null pointer is 0. Every size that reaches the loops is at most \<open>KERNBASE\<close>, so their
  counters, which are natural numbers here, do not wrap.
\<close>

unbundle bit_operations_syntax

section \<open>Entries\<close>

definition PDX :: "u32 \<Rightarrow> u32" where "PDX va = drop_bit 22 va AND 0x3FF"
definition PTX :: "u32 \<Rightarrow> u32" where "PTX va = drop_bit 12 va AND 0x3FF"
definition PGADDR :: "u32 \<Rightarrow> u32 \<Rightarrow> u32 \<Rightarrow> u32" where
  "PGADDR d t off = push_bit 22 d OR push_bit 12 t OR off"

definition NPDENTRIES :: nat where "NPDENTRIES = 1024"
definition NPTENTRIES :: nat where "NPTENTRIES = 1024"

definition PTE_P :: u32 where "PTE_P = 0x001"
definition PTE_W :: u32 where "PTE_W = 0x002"
definition PTE_U :: u32 where "PTE_U = 0x004"

definition PTE_ADDR :: "u32 \<Rightarrow> u32" where "PTE_ADDR pte = pte AND NOT 0xFFF"
definition PTE_FLAGS :: "u32 \<Rightarrow> u32" where "PTE_FLAGS pte = pte AND 0xFFF"

section \<open>Building page tables\<close>

definition walkpgdir :: "u32 \<Rightarrow> u32 \<Rightarrow> bool \<Rightarrow> 's kalloc_state_scheme \<Rightarrow> (u32, 's kalloc_state_scheme) outcome" where
  "walkpgdir pgdir va alloc s =
     (let pde = pgdir + 4 * PDX va
      in if load32 (mem s) pde AND PTE_P \<noteq> 0
         then Ret (P2V (PTE_ADDR (load32 (mem s) pde)) + 4 * PTX va) s
         else if \<not> alloc then Ret 0 s
         else
           bindO (kalloc s) (\<lambda>pgtab s.
             if pgtab = 0 then Ret 0 s
             else
               let m = memset (mem s) pgtab 0 PGSIZE
               in Ret (pgtab + 4 * PTX va) (s\<lparr>mem := store32 m pde (V2P pgtab OR PTE_P OR PTE_W OR PTE_U)\<rparr>)))"

text \<open>\<open>n\<close> counts the pages left after this one, so it is 0 exactly when \<open>a\<close> is the last page.\<close>

fun mappages_loop :: "u32 \<Rightarrow> nat \<Rightarrow> u32 \<Rightarrow> u32 \<Rightarrow> u32 \<Rightarrow> 's kalloc_state_scheme \<Rightarrow> (int, 's kalloc_state_scheme) outcome" where
  "mappages_loop pgdir n a pa perm s =
     bindO (walkpgdir pgdir a True s) (\<lambda>pte s.
       if pte = 0 then Ret (-1) s
       else if load32 (mem s) pte AND PTE_P \<noteq> 0 then Panic ''remap''
       else
         let s = s\<lparr>mem := store32 (mem s) pte (pa OR perm OR PTE_P)\<rparr>
         in case n of
              0 \<Rightarrow> Ret 0 s
            | Suc n \<Rightarrow> mappages_loop pgdir n (a + PGSIZE) (pa + PGSIZE) perm s)"

declare mappages_loop.simps [simp del]

definition mappages :: "u32 \<Rightarrow> u32 \<Rightarrow> u32 \<Rightarrow> u32 \<Rightarrow> u32 \<Rightarrow> 's kalloc_state_scheme \<Rightarrow> (int, 's kalloc_state_scheme) outcome" where
  "mappages pgdir va sz pa perm s =
     (let a = PGROUNDDOWN va; last = PGROUNDDOWN (va + sz - 1)
      in mappages_loop pgdir (unat (last - a) div unat PGSIZE) a pa perm s)"

record kmap_entry =
  k_virt :: u32
  k_phys_start :: u32
  k_phys_end :: u32
  k_perm :: u32

definition kmap :: "u32 \<Rightarrow> kmap_entry list" where
  "kmap kdata =
     [\<lparr>k_virt = KERNBASE, k_phys_start = 0, k_phys_end = EXTMEM, k_perm = PTE_W\<rparr>,
      \<lparr>k_virt = KERNLINK, k_phys_start = V2P KERNLINK, k_phys_end = V2P kdata, k_perm = 0\<rparr>,
      \<lparr>k_virt = kdata, k_phys_start = V2P kdata, k_phys_end = PHYSTOP, k_perm = PTE_W\<rparr>,
      \<lparr>k_virt = DEVSPACE, k_phys_start = DEVSPACE, k_phys_end = 0, k_perm = PTE_W\<rparr>]"

section \<open>Taking page tables apart\<close>

text \<open>A missing page table moves the loop to the first page of the next one.\<close>

function deallocuvm_loop :: "u32 \<Rightarrow> u32 \<Rightarrow> nat \<Rightarrow> nat \<Rightarrow> 's kalloc_state_scheme \<Rightarrow> (unit, 's kalloc_state_scheme) outcome" where
  "deallocuvm_loop kend pgdir oldsz a s =
     (if a < oldsz then
        bindO (walkpgdir pgdir (of_nat a) False s) (\<lambda>pte s.
          if pte = 0 then deallocuvm_loop kend pgdir oldsz ((a div 2 ^ 22 + 1) * 2 ^ 22) s
          else if load32 (mem s) pte AND PTE_P \<noteq> 0 then
            (let pa = PTE_ADDR (load32 (mem s) pte)
             in if pa = 0 then Panic ''kfree''
                else
                  bindO (kfree kend (P2V pa) s) (\<lambda>_ s.
                    deallocuvm_loop kend pgdir oldsz (a + 4096) (s\<lparr>mem := store32 (mem s) pte 0\<rparr>)))
          else deallocuvm_loop kend pgdir oldsz (a + 4096) s)
      else Ret () s)"
  by pat_completeness auto
termination
proof (relation "measure (\<lambda>(kend, pgdir, oldsz, a, s). oldsz - a)", goal_cases)
  case (2 kend pgdir oldsz a s pte t)
  have "a < (a div 2 ^ 22 + 1) * 2 ^ 22" using dividend_less_div_times[of "2 ^ 22" a] by simp
  then show ?case using 2 by (auto intro: diff_less_mono2)
qed auto

declare deallocuvm_loop.simps [simp del]

definition deallocuvm :: "u32 \<Rightarrow> u32 \<Rightarrow> u32 \<Rightarrow> u32 \<Rightarrow> 's kalloc_state_scheme \<Rightarrow> (u32, 's kalloc_state_scheme) outcome" where
  "deallocuvm kend pgdir oldsz newsz s =
     (if oldsz \<le> newsz then Ret oldsz s
      else bindO (deallocuvm_loop kend pgdir (unat oldsz) (unat (PGROUNDUP newsz)) s) (\<lambda>_ s. Ret newsz s))"

fun freevm_loop :: "u32 \<Rightarrow> u32 \<Rightarrow> nat list \<Rightarrow> 's kalloc_state_scheme \<Rightarrow> (unit, 's kalloc_state_scheme) outcome" where
  "freevm_loop kend pgdir [] s = Ret () s"
| "freevm_loop kend pgdir (i # is) s =
     (let pde = load32 (mem s) (pgdir + 4 * of_nat i)
      in bindO (if pde AND PTE_P \<noteq> 0 then kfree kend (P2V (PTE_ADDR pde)) s else Ret () s) (\<lambda>_ s.
           freevm_loop kend pgdir is s))"

definition freevm :: "u32 \<Rightarrow> u32 \<Rightarrow> 's kalloc_state_scheme \<Rightarrow> (unit, 's kalloc_state_scheme) outcome" where
  "freevm kend pgdir s =
     (if pgdir = 0 then Panic ''freevm: no pgdir''
      else
        bindO (deallocuvm kend pgdir KERNBASE 0 s) (\<lambda>_ s.
        bindO (freevm_loop kend pgdir [0..<NPDENTRIES] s) (\<lambda>_ s.
          kfree kend pgdir s)))"

section \<open>Address spaces\<close>

fun setupkvm_loop :: "u32 \<Rightarrow> u32 \<Rightarrow> kmap_entry list \<Rightarrow> 's kalloc_state_scheme \<Rightarrow> (u32, 's kalloc_state_scheme) outcome" where
  "setupkvm_loop kend pgdir [] s = Ret pgdir s"
| "setupkvm_loop kend pgdir (k # ks) s =
     bindO (mappages pgdir (k_virt k) (k_phys_end k - k_phys_start k) (k_phys_start k) (k_perm k) s) (\<lambda>r s.
       if r < 0 then bindO (freevm kend pgdir s) (\<lambda>_ s. Ret 0 s)
       else setupkvm_loop kend pgdir ks s)"

definition setupkvm :: "u32 \<Rightarrow> u32 \<Rightarrow> 's kalloc_state_scheme \<Rightarrow> (u32, 's kalloc_state_scheme) outcome" where
  "setupkvm kend kdata s =
     bindO (kalloc s) (\<lambda>pgdir s.
       if pgdir = 0 then Ret 0 s
       else
         let s = s\<lparr>mem := memset (mem s) pgdir 0 PGSIZE\<rparr>
         in if DEVSPACE < P2V PHYSTOP then Panic ''PHYSTOP too high''
            else setupkvm_loop kend pgdir (kmap kdata) s)"

text \<open>The result of \<^verbatim>\<open>kalloc\<close> is not checked here.\<close>

definition inituvm :: "u32 \<Rightarrow> u32 \<Rightarrow> u32 \<Rightarrow> 's kalloc_state_scheme \<Rightarrow> (unit, 's kalloc_state_scheme) outcome" where
  "inituvm pgdir init sz s =
     (if PGSIZE \<le> sz then Panic ''inituvm: more than a page''
      else
        bindO (kalloc s) (\<lambda>pg s.
        bindO (mappages pgdir 0 PGSIZE (V2P pg) (PTE_W OR PTE_U) (s\<lparr>mem := memset (mem s) pg 0 PGSIZE\<rparr>)) (\<lambda>_ s.
          Ret () (s\<lparr>mem := memmove (mem s) pg init sz\<rparr>))))"

function loaduvm_loop :: "('s fs_state_scheme \<Rightarrow> 's fs_state_scheme) list \<Rightarrow> u32 \<Rightarrow> u32 \<Rightarrow> nat \<Rightarrow> u32 \<Rightarrow> nat \<Rightarrow> nat \<Rightarrow> 's fs_state_scheme \<Rightarrow>
    (int, 's fs_state_scheme) outcome" where
  "loaduvm_loop envs pgdir addr ip offset sz i s =
     (if i < sz then
        bindO (walkpgdir pgdir (addr + of_nat i) False s) (\<lambda>pte s.
          if pte = 0 then Panic ''loaduvm: address should exist''
          else
            let pa = PTE_ADDR (load32 (mem s) pte); n = min (sz - i) 4096
            in bindO (readi envs ip (P2V pa) (offset + of_nat i) (of_nat n) s) (\<lambda>r s.
                 if r \<noteq> int n then Ret (-1) s
                 else loaduvm_loop envs pgdir addr ip offset sz (i + 4096) s))
      else Ret 0 s)"
  by pat_completeness auto
termination by (relation "measure (\<lambda>(envs, pgdir, addr, ip, offset, sz, i, s). sz - i)") auto

declare loaduvm_loop.simps [simp del]

definition loaduvm :: "('s fs_state_scheme \<Rightarrow> 's fs_state_scheme) list \<Rightarrow> u32 \<Rightarrow> u32 \<Rightarrow> nat \<Rightarrow> u32 \<Rightarrow> u32 \<Rightarrow> 's fs_state_scheme \<Rightarrow>
    (int, 's fs_state_scheme) outcome" where
  "loaduvm envs pgdir addr ip offset sz s =
     (if addr mod PGSIZE \<noteq> 0 then Panic ''loaduvm: addr must be page aligned''
      else loaduvm_loop envs pgdir addr ip offset (unat sz) 0 s)"

function allocuvm_loop :: "platform \<Rightarrow> u32 \<Rightarrow> u32 \<Rightarrow> u32 \<Rightarrow> u32 \<Rightarrow> nat \<Rightarrow> 's console_state_scheme \<Rightarrow> (u32, 's console_state_scheme) outcome" where
  "allocuvm_loop P kend pgdir oldsz newsz a s =
     (if a < unat newsz then
        bindO (kalloc s) (\<lambda>pg s.
          if pg = 0 then
            bindO (cprintf P ''allocuvm out of memory\<newline>'' [] s) (\<lambda>_ s.
            bindO (deallocuvm kend pgdir newsz oldsz s) (\<lambda>_ s. Ret 0 s))
          else
            bindO (mappages pgdir (of_nat a) PGSIZE (V2P pg) (PTE_W OR PTE_U) (s\<lparr>mem := memset (mem s) pg 0 PGSIZE\<rparr>)) (\<lambda>r s.
              if r < 0 then
                bindO (cprintf P ''allocuvm out of memory (2)\<newline>'' [] s) (\<lambda>_ s.
                bindO (deallocuvm kend pgdir newsz oldsz s) (\<lambda>_ s.
                bindO (kfree kend pg s) (\<lambda>_ s. Ret 0 s)))
              else allocuvm_loop P kend pgdir oldsz newsz (a + 4096) s))
      else Ret newsz s)"
  by pat_completeness auto
termination by (relation "measure (\<lambda>(P, kend, pgdir, oldsz, newsz, a, s). unat newsz - a)") auto

declare allocuvm_loop.simps [simp del]

definition allocuvm :: "platform \<Rightarrow> u32 \<Rightarrow> u32 \<Rightarrow> u32 \<Rightarrow> u32 \<Rightarrow> 's console_state_scheme \<Rightarrow> (u32, 's console_state_scheme) outcome" where
  "allocuvm P kend pgdir oldsz newsz s =
     (if KERNBASE \<le> newsz then Ret 0 s
      else if newsz < oldsz then Ret oldsz s
      else allocuvm_loop P kend pgdir oldsz newsz (unat (PGROUNDUP oldsz)) s)"

definition clearpteu :: "u32 \<Rightarrow> u32 \<Rightarrow> 's kalloc_state_scheme \<Rightarrow> (unit, 's kalloc_state_scheme) outcome" where
  "clearpteu pgdir uva s =
     bindO (walkpgdir pgdir uva False s) (\<lambda>pte s.
       if pte = 0 then Panic ''clearpteu''
       else Ret () (s\<lparr>mem := store32 (mem s) pte (load32 (mem s) pte AND NOT PTE_U)\<rparr>))"

function copyuvm_loop :: "u32 \<Rightarrow> u32 \<Rightarrow> u32 \<Rightarrow> nat \<Rightarrow> nat \<Rightarrow> 's kalloc_state_scheme \<Rightarrow> (u32, 's kalloc_state_scheme) outcome" where
  "copyuvm_loop kend pgdir d sz i s =
     (if i < sz then
        bindO (walkpgdir pgdir (of_nat i) False s) (\<lambda>pte s.
          if pte = 0 then Panic ''copyuvm: pte should exist''
          else if load32 (mem s) pte AND PTE_P = 0 then Panic ''copyuvm: page not present''
          else
            let pa = PTE_ADDR (load32 (mem s) pte); flags = PTE_FLAGS (load32 (mem s) pte)
            in bindO (kalloc s) (\<lambda>pg s.
                 if pg = 0 then bindO (freevm kend d s) (\<lambda>_ s. Ret 0 s)
                 else
                   bindO (mappages d (of_nat i) PGSIZE (V2P pg) flags (s\<lparr>mem := memmove (mem s) pg (P2V pa) PGSIZE\<rparr>)) (\<lambda>r s.
                     if r < 0 then
                       bindO (kfree kend pg s) (\<lambda>_ s.
                       bindO (freevm kend d s) (\<lambda>_ s. Ret 0 s))
                     else copyuvm_loop kend pgdir d sz (i + 4096) s)))
      else Ret d s)"
  by pat_completeness auto
termination by (relation "measure (\<lambda>(kend, pgdir, d, sz, i, s). sz - i)") auto

declare copyuvm_loop.simps [simp del]

definition copyuvm :: "u32 \<Rightarrow> u32 \<Rightarrow> u32 \<Rightarrow> u32 \<Rightarrow> 's kalloc_state_scheme \<Rightarrow> (u32, 's kalloc_state_scheme) outcome" where
  "copyuvm kend kdata pgdir sz s =
     bindO (setupkvm kend kdata s) (\<lambda>d s.
       if d = 0 then Ret 0 s else copyuvm_loop kend pgdir d (unat sz) 0 s)"

text \<open>The entry is read without a test that there is one: with no page table the read is through a null pointer.\<close>

definition uva2ka :: "u32 \<Rightarrow> u32 \<Rightarrow> 's kalloc_state_scheme \<Rightarrow> (u32, 's kalloc_state_scheme) outcome" where
  "uva2ka pgdir uva s =
     bindO (walkpgdir pgdir uva False s) (\<lambda>pte s.
       if pte = 0 then Fault ''uva2ka: null entry''
       else if load32 (mem s) pte AND PTE_P = 0 then Ret 0 s
       else if load32 (mem s) pte AND PTE_U = 0 then Ret 0 s
       else Ret (P2V (PTE_ADDR (load32 (mem s) pte))) s)"

lemma page_offset: "unat (va - PGROUNDDOWN va) = unat va mod 4096"
proof -
  have "PGROUNDDOWN va \<le> va" by (simp add: word_le_nat_alt unat_PGROUNDDOWN)
  then show ?thesis by (simp add: unat_sub unat_PGROUNDDOWN minus_div_mult_eq_mod)
qed

function copyout :: "u32 \<Rightarrow> u32 \<Rightarrow> u32 \<Rightarrow> u32 \<Rightarrow> 's kalloc_state_scheme \<Rightarrow> (int, 's kalloc_state_scheme) outcome" where
  "copyout pgdir va buf len s =
     (if len = 0 then Ret 0 s
      else
        let va0 = PGROUNDDOWN va
        in bindO (uva2ka pgdir va0 s) (\<lambda>pa0 s.
             if pa0 = 0 then Ret (-1) s
             else
               let n = min (PGSIZE - (va - va0)) len
               in copyout pgdir (va0 + PGSIZE) (buf + n) (len - n) (s\<lparr>mem := memmove (mem s) (pa0 + (va - va0)) buf n\<rparr>)))"
  by pat_completeness auto
termination
proof (relation "measure (\<lambda>(pgdir, va, buf, len, s). unat len)", goal_cases)
  case (2 pgdir va buf len s va0 pa0 t n)
  have "unat (PGSIZE - (va - va0)) = 4096 - unat va mod 4096"
    using 2 page_offset[of va] by (simp add: unat_sub_if' PGSIZE_def)
  then have "n \<noteq> 0" using 2 by (auto simp: min_def)
  moreover have "n \<le> len" using 2 by (simp add: min_def)
  ultimately show ?case by (simp add: word_less_nat_alt unat_sub unat_gt_0)
    (metis diff_less unat_gt_0 word_gt_0 word_le_nat_alt le_zero_eq unat_0 not_gr_zero)
qed auto

declare copyout.simps [simp del]

end
