(* ===== verification/Vm_Maps.thy ===== *)
theory Vm_Maps
  imports Vm
begin

text \<open>
  What the routines of \<^verbatim>\<open>src/vm.c\<close> do to a page table, seen as the function \<open>pte_of\<close> from addresses to
  entries. \<open>pt_ok\<close> says that the page directory and its page tables are different pages outside the free list,
  and \<open>vm_step\<close> that an operation has only taken pages from the free list for the table.
\<close>

unbundle bit_operations_syntax

section \<open>Entries of page-sized tables\<close>

definition ent :: "memory \<Rightarrow> u32 \<Rightarrow> u32 \<Rightarrow> u32" where
  "ent m pg i = load32 m (pg + 4 * i)"

lemma ent_offset: "i < 1024 \<Longrightarrow> j < 4 \<Longrightarrow> unat (pg + 4 * i + of_nat j - pg :: u32) = 4 * unat i + j"
  by (simp add: word_less_nat_alt unat_word_ariths unat_of_nat)

lemma ent_in_page: "i < 1024 \<Longrightarrow> j < 4 \<Longrightarrow> unat (pg + 4 * i + of_nat j - pg :: u32) < 4096"
  using ent_offset[of i j pg] by (simp add: word_less_nat_alt)

lemma ent_in_page0: "i < 1024 \<Longrightarrow> unat (pg + 4 * i - pg :: u32) < 4096"
  using ent_in_page[of i 0 pg] by simp

lemma ent_aligned: "pg mod PGSIZE = 0 \<Longrightarrow> (pg + 4 * i) mod 4 = (0 :: u32)"
proof -
  assume "pg mod PGSIZE = 0"
  then have "unat pg mod 4 = 0" using aligned_page_mod4[of pg] by (simp add: word_unat_eq_iff unat_mod_distrib)
  then have "(unat pg + 4 * unat i) mod 2 ^ 32 mod 4 = 0" by (subst mod_mod_cancel) auto
  then show ?thesis by (simp add: word_unat_eq_iff unat_mod_distrib unat_word_ariths mod_add_right_eq)
qed

lemma ent_eq_iff:
  assumes "a mod PGSIZE = 0" "b mod PGSIZE = 0" "i < 1024" "j < 1024"
  shows "a + 4 * i = b + 4 * j \<longleftrightarrow> a = b \<and> i = (j :: u32)"
proof
  assume e: "a + 4 * i = b + 4 * j"
  then have ab: "a = b" using pages_disjoint[OF assms(1,2)] ent_in_page0[OF assms(3), of a] ent_in_page0[OF assms(4), of b] by metis
  then have "unat (4 * i) = unat (4 * j)" using e by simp
  then show "a = b \<and> i = j" using ab assms(3,4) by (simp add: word_less_nat_alt unat_word_ariths word_unat_eq_iff)
qed auto

lemma ent_store32:
  assumes "a mod PGSIZE = 0" "b mod PGSIZE = 0" "i < 1024" "j < 1024"
  shows "ent (store32 m (a + 4 * i) v) b j = (if a = b \<and> i = j then v else ent m b j)"
  using load32_store32_other[OF ent_aligned[OF assms(1)] ent_aligned[OF assms(2)], of i j] ent_eq_iff[OF assms]
  by (auto simp: ent_def)

lemma load32_cong:
  assumes "\<And>j. j < 4 \<Longrightarrow> m (a + of_nat j) = m' (a + of_nat j)"
  shows "load32 m a = load32 m' a"
  using assms[of 0] assms[of 1] assms[of 2] assms[of 3] by (simp add: load32_def)

lemma ent_cong:
  assumes "\<forall>x. unat (x - pg) < 4096 \<longrightarrow> m' x = m x" "i < 1024"
  shows "ent m' pg i = ent m pg i"
  unfolding ent_def by (rule load32_cong) (use assms ent_in_page in blast)

lemma ent_memset:
  assumes "a mod PGSIZE = 0" "b mod PGSIZE = 0" "i < 1024"
  shows "ent (memset m a 0 PGSIZE) b i = (if a = b then 0 else ent m b i)"
proof (cases "a = b")
  case True
  have "ent (memset m a 0 PGSIZE) a i = ent (\<lambda>_. 0) a i"
    unfolding ent_def by (rule load32_cong) (use ent_in_page[OF assms(3)] in \<open>simp add: memset_apply PGSIZE_def del: add_diff_cancel_left' add_diff_eq\<close>)
  then show ?thesis using True by (simp add: ent_def load32_def)
next
  case False
  have "ent (memset m a 0 PGSIZE) b i = ent m b i"
    by (rule ent_cong[OF _ assms(3)]) (use False pages_disjoint[OF assms(1,2)] in \<open>auto simp: memset_apply PGSIZE_def\<close>)
  then show ?thesis using False by simp
qed

lemma unat_PDX: "unat (PDX va) = unat va div 2 ^ 22"
proof -
  have "unat va div 2 ^ 22 < 2 ^ 10" using unat_u32_lt[of va] by (simp add: less_mult_imp_div_less)
  moreover have "PDX va = take_bit 10 (drop_bit 22 va)" by (simp add: PDX_def take_bit_eq_mask mask_eq_exp_minus_1)
  ultimately show ?thesis by (simp add: drop_bit_eq_div take_bit_eq_mod unat_mod_distrib unat_div_distrib)
qed

lemma unat_PTX: "unat (PTX va) = unat va div 4096 mod 1024"
proof -
  have "PTX va = take_bit 10 (drop_bit 12 va)" by (simp add: PTX_def take_bit_eq_mask mask_eq_exp_minus_1)
  then show ?thesis by (simp add: drop_bit_eq_div take_bit_eq_mod unat_mod_distrib unat_div_distrib)
qed

lemma PDX_less [simp]: "PDX va < 1024" and PTX_less [simp]: "PTX va < 1024"
  using unat_u32_lt[of va] by (auto simp: word_less_nat_alt unat_PDX unat_PTX)

lemma same_page_iff: "PDX v = PDX w \<and> PTX v = PTX w \<longleftrightarrow> unat v div 4096 = unat w div 4096"
proof -
  have "n div 2 ^ 22 = n div 4096 div (1024 :: nat)" for n by (simp add: div_mult2_eq[symmetric])
  then show ?thesis unfolding word_unat_eq_iff unat_PDX unat_PTX
    using div_mult_mod_eq[of "unat v div 4096" 1024] div_mult_mod_eq[of "unat w div 4096" 1024] by metis
qed

lemma aligned_low_bits: "pa mod PGSIZE = 0 \<Longrightarrow> bit (pa :: u32) n \<Longrightarrow> 12 \<le> n"
proof -
  assume "pa mod PGSIZE = 0" "bit pa n"
  moreover from this(1) have "take_bit 12 pa = 0" by (simp add: take_bit_eq_mod PGSIZE_def)
  ultimately show ?thesis using bit_take_bit_iff[of 12 pa n] by (cases "n < 12") auto
qed

lemma low_mask: "(0xFFF :: u32) = mask 12"
  by (simp add: mask_eq_exp_minus_1)

lemma flag_bits: "(f :: u32) AND NOT 0xFFF = 0 \<Longrightarrow> bit f n \<Longrightarrow> n < 12"
proof -
  assume "f AND NOT 0xFFF = 0" "bit f n"
  moreover from this(1) have "\<not> bit (f AND NOT (mask 12)) n" by (simp add: low_mask)
  ultimately show ?thesis using bit_imp_possible_bit[of f n] by (auto simp: bit_and_iff bit_not_iff bit_mask_iff)
qed

lemma PTE_ADDR_OR: "pa mod PGSIZE = 0 \<Longrightarrow> f AND NOT 0xFFF = 0 \<Longrightarrow> PTE_ADDR (pa OR f) = pa"
proof (rule bit_eqI)
  fix n
  assume "pa mod PGSIZE = 0" "f AND NOT 0xFFF = 0" "possible_bit TYPE(u32) n"
  then show "bit (PTE_ADDR (pa OR f)) n = bit pa n" using aligned_low_bits[of pa n] flag_bits[of f n]
    by (auto simp: PTE_ADDR_def low_mask bit_and_iff bit_or_iff bit_not_iff bit_mask_iff)
qed

lemma PTE_FLAGS_OR: "pa mod PGSIZE = 0 \<Longrightarrow> f AND NOT 0xFFF = 0 \<Longrightarrow> PTE_FLAGS (pa OR f) = f"
proof (rule bit_eqI)
  fix n
  assume "pa mod PGSIZE = 0" "f AND NOT 0xFFF = 0" "possible_bit TYPE(u32) n"
  then show "bit (PTE_FLAGS (pa OR f)) n = bit f n" using aligned_low_bits[of pa n] flag_bits[of f n]
    by (auto simp: PTE_FLAGS_def low_mask bit_and_iff bit_or_iff bit_mask_iff)
qed

lemma PTE_ADDR_aligned [simp]: "PTE_ADDR e mod PGSIZE = 0"
proof -
  have "PTE_ADDR e = PGROUNDDOWN e" by (simp add: PTE_ADDR_def PGROUNDDOWN_def PGSIZE_def)
  then show ?thesis by (simp only: mod_PGSIZE_iff unat_PGROUNDDOWN mod_mult_self2_is_0)
qed

section \<open>What a page table maps\<close>

abbreviation present :: "u32 \<Rightarrow> bool" where "present e \<equiv> e AND PTE_P \<noteq> 0"

definition tab :: "u32 \<Rightarrow> u32" where "tab e = P2V (PTE_ADDR e)"

text \<open>The entry for an address, 0 when there is no page table for it.\<close>

definition pte_of :: "memory \<Rightarrow> u32 \<Rightarrow> u32 \<Rightarrow> u32" where
  "pte_of m pgdir va = (if present (ent m pgdir (PDX va)) then ent m (tab (ent m pgdir (PDX va))) (PTX va) else 0)"

text \<open>The page directory and its page tables are different pages, and none of them is free.\<close>

definition own :: "memory \<Rightarrow> u32 \<Rightarrow> u32 set" where
  "own m pgdir = insert pgdir {tab (ent m pgdir i) | i. i < 1024 \<and> present (ent m pgdir i)}"

definition pt_ok :: "u32 \<Rightarrow> u32 \<Rightarrow> u32 list \<Rightarrow> 's kalloc_state_scheme \<Rightarrow> bool" where
  "pt_ok kend pgdir xs s \<longleftrightarrow> kmem_inv kend s xs \<and> (\<forall>p \<in> own (mem s) pgdir. page_ok kend p \<and> p \<notin> set xs) \<and>
     (\<forall>i < 1024. present (ent (mem s) pgdir i) \<longrightarrow> tab (ent (mem s) pgdir i) \<noteq> pgdir) \<and>
     (\<forall>i < 1024. \<forall>j < 1024. present (ent (mem s) pgdir i) \<and> present (ent (mem s) pgdir j) \<and>
        tab (ent (mem s) pgdir i) = tab (ent (mem s) pgdir j) \<longrightarrow> i = j)"

definition off_page :: "u32 \<Rightarrow> u32 \<Rightarrow> bool" where
  "off_page p x \<longleftrightarrow> 4096 \<le> unat (x - p)"

text \<open>One step on a page table takes pages from the front of the free list and writes only to them and to its own pages.\<close>

definition vm_step :: "u32 \<Rightarrow> u32 \<Rightarrow> u32 list \<Rightarrow> 's kalloc_state_scheme \<Rightarrow> u32 list \<Rightarrow> 's kalloc_state_scheme \<Rightarrow> bool" where
  "vm_step kend pgdir xs s ys t \<longleftrightarrow> pt_ok kend pgdir ys t \<and> (\<exists>zs. xs = zs @ ys \<and> own (mem t) pgdir = own (mem s) pgdir \<union> set zs) \<and>
     (\<forall>x. (\<forall>p \<in> own (mem s) pgdir \<union> set xs. off_page p x) \<longrightarrow> mem t x = mem s x) \<and>
     (\<forall>i < 1024. present (ent (mem s) pgdir i) \<longrightarrow> ent (mem t) pgdir i = ent (mem s) pgdir i) \<and>
     t = s\<lparr>mem := mem t, freelist := freelist t\<rparr>"

lemma pt_okD:
  assumes "pt_ok kend pgdir xs s"
  shows "kmem_inv kend s xs" "page_ok kend pgdir" "pgdir \<notin> set xs" "pgdir mod PGSIZE = 0"
    "i < 1024 \<Longrightarrow> present (ent (mem s) pgdir i) \<Longrightarrow> page_ok kend (tab (ent (mem s) pgdir i))"
    "i < 1024 \<Longrightarrow> present (ent (mem s) pgdir i) \<Longrightarrow> tab (ent (mem s) pgdir i) \<notin> set xs"
    "i < 1024 \<Longrightarrow> present (ent (mem s) pgdir i) \<Longrightarrow> tab (ent (mem s) pgdir i) \<noteq> pgdir"
    "i < 1024 \<Longrightarrow> present (ent (mem s) pgdir i) \<Longrightarrow> tab (ent (mem s) pgdir i) mod PGSIZE = 0"
    "i < 1024 \<Longrightarrow> present (ent (mem s) pgdir i) \<Longrightarrow> j < 1024 \<Longrightarrow> present (ent (mem s) pgdir j) \<Longrightarrow>
       tab (ent (mem s) pgdir i) = tab (ent (mem s) pgdir j) \<Longrightarrow> i = j"
  using assms by (auto simp: pt_ok_def own_def page_ok_def)

lemma free_page_ok: "kmem_inv kend s xs \<Longrightarrow> x \<in> set xs \<Longrightarrow> page_ok kend x \<and> x mod PGSIZE = 0"
  by (simp add: kmem_inv_def page_ok_def)

lemma vm_step_ok: "vm_step kend pgdir xs s ys t \<Longrightarrow> pt_ok kend pgdir ys t"
  by (simp add: vm_step_def)

lemma vm_step_refl: "pt_ok kend pgdir xs s \<Longrightarrow> vm_step kend pgdir xs s xs s"
  by (simp add: vm_step_def)

lemma vm_step_trans:
  assumes "vm_step kend pgdir xs s ys t" "vm_step kend pgdir ys t zs u"
  shows "vm_step kend pgdir xs s zs u"
proof -
  obtain as where a: "xs = as @ ys" "own (mem t) pgdir = own (mem s) pgdir \<union> set as" using assms(1) by (auto simp: vm_step_def)
  obtain bs where b: "ys = bs @ zs" "own (mem u) pgdir = own (mem t) pgdir \<union> set bs" using assms(2) by (auto simp: vm_step_def)
  have 1: "\<exists>cs. xs = cs @ zs \<and> own (mem u) pgdir = own (mem s) pgdir \<union> set cs" using a b by (intro exI[of _ "as @ bs"]) auto
  have 2: "mem u x = mem s x" if "\<forall>p \<in> own (mem s) pgdir \<union> set xs. off_page p x" for x
  proof -
    have "mem t x = mem s x" using that assms(1) by (simp add: vm_step_def)
    moreover have "\<forall>p \<in> own (mem t) pgdir \<union> set ys. off_page p x" using that a by auto
    then have "mem u x = mem t x" using assms(2) by (simp add: vm_step_def)
    ultimately show ?thesis by simp
  qed
  have t: "t = s\<lparr>mem := mem t, freelist := freelist t\<rparr>" and u: "u = t\<lparr>mem := mem u, freelist := freelist u\<rparr>"
    using assms by (simp_all add: vm_step_def)
  have 3: "u = s\<lparr>mem := mem u, freelist := freelist u\<rparr>" by (subst u, subst t) simp
  have 4: "\<forall>i < 1024. present (ent (mem s) pgdir i) \<longrightarrow> ent (mem u) pgdir i = ent (mem s) pgdir i" using assms by (simp add: vm_step_def)
  show ?thesis using 1 2 3 4 assms(2) by (simp add: vm_step_def)
qed

text \<open>A store to an entry of a page that is not free leaves the free list alone.\<close>

lemma kmem_inv_store:
  assumes "kmem_inv kend s xs" "pg mod PGSIZE = 0" "pg \<notin> set xs" "i < 1024"
  shows "kmem_inv kend (s\<lparr>mem := store32 (mem s) (pg + 4 * i) v\<rparr>) xs"
proof (rule kmem_inv_mem_cong[OF assms(1)])
  fix x
  assume "x \<in> set xs"
  then show "load32 (store32 (mem s) (pg + 4 * i) v) x = load32 (mem s) x"
    using ent_store32[OF assms(2) _ assms(4), of x 0 "mem s" v] free_page_ok[OF assms(1), of x] assms(3) by (auto simp: ent_def)
qed

lemma store32_off:
  assumes "off_page pg x" "i < 1024"
  shows "store32 m (pg + 4 * i) v x = m x"
proof -
  have "x \<noteq> pg + 4 * i + of_nat j" if "j < 4" for j using ent_in_page[OF assms(2) that, of pg] assms(1) by (auto simp: off_page_def)
  from this[of 0] this[of 1] this[of 2] this[of 3] show ?thesis by (simp add: store32_def)
qed

lemma own_tab: "i < 1024 \<Longrightarrow> present (ent m pgdir i) \<Longrightarrow> tab (ent m pgdir i) \<in> own m pgdir"
  unfolding own_def by blast

lemma own_pgdir: "pgdir \<in> own m pgdir"
  by (simp add: own_def)

lemma own_cong:
  assumes "\<And>i. i < 1024 \<Longrightarrow> ent m' pgdir i = ent m pgdir i"
  shows "own m' pgdir = own m pgdir"
proof -
  have "{tab (ent m' pgdir i) | i. i < 1024 \<and> present (ent m' pgdir i)} = {tab (ent m pgdir i) | i. i < 1024 \<and> present (ent m pgdir i)}"
    using assms by (intro Collect_cong) metis
  then show ?thesis by (simp only: own_def)
qed

lemma set_pte:
  fixes s :: "'s kalloc_state_scheme" and v :: u32
  assumes "pt_ok kend pgdir xs s" "present (ent (mem s) pgdir (PDX va))"
  defines "u \<equiv> s\<lparr>mem := store32 (mem s) (tab (ent (mem s) pgdir (PDX va)) + 4 * PTX va) v\<rparr>"
  shows "vm_step kend pgdir xs s xs u"
    "pte_of (mem u) pgdir w = (if unat w div 4096 = unat va div 4096 then v else pte_of (mem s) pgdir w)"
proof -
  note D = pt_okD[OF assms(1)]
  let ?e = "ent (mem s) pgdir (PDX va)"
  have t: "tab ?e mod PGSIZE = 0" "tab ?e \<noteq> pgdir" "tab ?e \<notin> set xs" using D(6-8)[OF _ assms(2)] by auto
  have d: "ent (mem u) pgdir i = ent (mem s) pgdir i" if "i < 1024" for i
    using t ent_store32[OF t(1) D(4) PTX_less that] by (simp add: u_def)
  have o: "own (mem u) pgdir = own (mem s) pgdir" using d by (rule own_cong)
  have k: "kmem_inv kend u xs" unfolding u_def by (rule kmem_inv_store[OF D(1) t(1,3) PTX_less])
  have "pt_ok kend pgdir xs u" using assms(1) k o d by (simp add: pt_ok_def)
  moreover have "mem u x = mem s x" if "\<forall>p \<in> own (mem s) pgdir \<union> set xs. off_page p x" for x
  proof -
    have "off_page (tab ?e) x" using that own_tab[OF PDX_less assms(2)] by blast
    then show ?thesis by (simp add: u_def store32_off)
  qed
  ultimately show "vm_step kend pgdir xs s xs u" using o d by (simp add: vm_step_def) (simp add: u_def)
  have "tab ?e = tab (ent (mem s) pgdir (PDX w)) \<longleftrightarrow> PDX va = PDX w" if "present (ent (mem s) pgdir (PDX w))"
    using D(9)[OF _ assms(2) _ that] by auto
  then have "pte_of (mem u) pgdir w = (if PDX w = PDX va \<and> PTX w = PTX va then v else pte_of (mem s) pgdir w)"
    using d[OF PDX_less] assms(2) D(8)[OF PDX_less, of w] ent_store32[OF t(1) _ PTX_less PTX_less, of "tab (ent (mem s) pgdir (PDX w))" "mem s" va v w]
    by (auto simp: pte_of_def) (auto simp: u_def)
  then show "pte_of (mem u) pgdir w = (if unat w div 4096 = unat va div 4096 then v else pte_of (mem s) pgdir w)"
    by (simp only: same_page_iff)
qed


section \<open>Walking and mapping\<close>

lemma page_ok_mod: "page_ok kend x \<Longrightarrow> x mod PGSIZE = 0"
  by (simp add: page_ok_def)

lemma V2P_aligned: "x mod PGSIZE = 0 \<Longrightarrow> V2P x mod PGSIZE = 0"
proof -
  assume a: "x mod PGSIZE = 0"
  have "unat (x - KERNBASE) mod 4096 = 0"
    using a unat_u32_lt[of x] by (auto simp: mod_PGSIZE_iff unat_sub_if' KERNBASE_def One_nat_def mod_eq_0_iff_dvd intro: dvd_diff_nat dvd_add)
  then show ?thesis by (simp add: V2P_def mod_PGSIZE_iff)
qed

lemma new_table_entry:
  assumes "x mod PGSIZE = 0"
  defines "e \<equiv> V2P x OR PTE_P OR PTE_W OR PTE_U"
  shows "tab e = x" "present e"
proof -
  have "e = V2P x OR 7" by (simp add: e_def PTE_P_def PTE_W_def PTE_U_def or.assoc)
  moreover have "PTE_ADDR (V2P x OR 7) = V2P x" by (rule PTE_ADDR_OR[OF V2P_aligned[OF assms(1)]]) simp
  ultimately show "tab e = x" by (simp add: tab_def P2V_def V2P_def)
  have "bit (e AND PTE_P) 0" by (simp add: e_def PTE_P_def bit_and_iff bit_or_iff)
  then show "present e" by force
qed

lemma new_table:
  fixes s :: "'s kalloc_state_scheme"
  assumes "pt_ok kend pgdir (x # xs) s" "\<not> present (ent (mem s) pgdir (PDX va))"
  defines "u \<equiv> s\<lparr>freelist := load32 (mem s) x,
    mem := store32 (memset (mem s) x 0 PGSIZE) (pgdir + 4 * PDX va) (V2P x OR PTE_P OR PTE_W OR PTE_U)\<rparr>"
  shows "vm_step kend pgdir (x # xs) s xs u" "pte_of (mem u) pgdir w = pte_of (mem s) pgdir w"
    "present (ent (mem u) pgdir (PDX va))" "tab (ent (mem u) pgdir (PDX va)) = x"
proof -
  note D = pt_okD[OF assms(1)]
  note K = kalloc_cons[OF D(1)]
  let ?e = "V2P x OR PTE_P OR PTE_W OR PTE_U"
  have x: "x mod PGSIZE = 0" "x \<noteq> pgdir" "page_ok kend x" "x \<notin> set xs" using K D(3) by (auto simp: page_ok_def)
  note E = new_table_entry[OF x(1)]
  have d: "ent (mem u) pgdir i = (if i = PDX va then ?e else ent (mem s) pgdir i)" if "i < 1024" for i
    using x(2) that by (auto simp: u_def ent_store32[OF D(4) D(4)] ent_memset[OF x(1) D(4)])
  have o: "ent (mem u) p i = ent (mem s) p i" if "i < 1024" "p mod PGSIZE = 0" "p \<noteq> pgdir" "p \<noteq> x" for i p
    using that by (simp add: u_def ent_store32[OF D(4)] ent_memset[OF x(1)])
  have z: "ent (mem u) x i = 0" if "i < 1024" for i using that x by (simp add: u_def ent_store32[OF D(4)] ent_memset[OF x(1)])
  show p: "present (ent (mem u) pgdir (PDX va))" "tab (ent (mem u) pgdir (PDX va)) = x" using d E by simp_all
  show "pte_of (mem u) pgdir w = pte_of (mem s) pgdir w"
  proof (cases "PDX w = PDX va")
    case True
    then show ?thesis using p z assms(2) by (simp add: pte_of_def)
  next
    case False
    then show ?thesis using d[of "PDX w"] D(6-8)[of "PDX w"] by (auto simp: pte_of_def intro!: o)
  qed
  have own: "own (mem u) pgdir = own (mem s) pgdir \<union> {x}"
  proof -
    have "{tab (ent (mem u) pgdir i) | i. i < 1024 \<and> present (ent (mem u) pgdir i)} =
      insert x {tab (ent (mem s) pgdir i) | i. i < 1024 \<and> present (ent (mem s) pgdir i)}" (is "?A = insert x ?B")
    proof (intro equalityI subsetI)
      fix p
      assume "p \<in> ?A"
      then show "p \<in> insert x ?B" using d E by (auto split: if_splits)
    next
      fix p
      assume "p \<in> insert x ?B"
      then consider "p = x" | i where "p = tab (ent (mem s) pgdir i)" "i < 1024" "present (ent (mem s) pgdir i)" "i \<noteq> PDX va"
        using assms(2) by auto
      then show "p \<in> ?A"
      proof cases
        case 1
        then show ?thesis using p PDX_less[of va] by blast
      next
        case 2
        then show ?thesis using d[of i] by (intro CollectI exI[of _ i]) simp
      qed
    qed
    then show ?thesis by (auto simp: own_def)
  qed
  have "kmem_inv kend (s\<lparr>freelist := load32 (mem s) x\<rparr>) xs" using K by simp
  moreover have "load32 (mem u) y = load32 (mem s) y" if "y \<in> set xs" for y
    using o[of 0 y] that x free_page_ok[OF D(1), of y] D(3) by (auto simp: ent_def)
  ultimately have k: "kmem_inv kend u xs" using kmem_inv_mem_cong[of kend "s\<lparr>freelist := load32 (mem s) x\<rparr>" xs "mem u"] by (simp add: u_def)
  have f: "mem u y = mem s y" if "\<forall>p \<in> own (mem s) pgdir \<union> set (x # xs). off_page p y" for y
  proof -
    have "off_page x y" "off_page pgdir y" using that by (auto simp: own_def)
    then show ?thesis by (simp add: u_def store32_off memset_apply off_page_def PGSIZE_def)
  qed
  have "pt_ok kend pgdir xs u"
    unfolding pt_ok_def
  proof (intro conjI allI impI k)
    show "\<forall>p \<in> own (mem u) pgdir. page_ok kend p \<and> p \<notin> set xs" using own assms(1) x by (auto simp: pt_ok_def)
    show "tab (ent (mem u) pgdir i) \<noteq> pgdir" if "i < 1024" "present (ent (mem u) pgdir i)" for i
      using that d[of i] D(7)[of i] E x(2) by (auto split: if_splits)
    show "i = j" if "i < 1024" "j < 1024" "present (ent (mem u) pgdir i) \<and> present (ent (mem u) pgdir j) \<and> tab (ent (mem u) pgdir i) = tab (ent (mem u) pgdir j)" for i j
      using that d[of i] d[of j] D(6)[of i] D(6)[of j] D(9)[of i j] E(1) by (auto split: if_splits)
  qed
  moreover have "u = s\<lparr>mem := mem u, freelist := freelist u\<rparr>" by (simp add: u_def)
  moreover have "\<forall>i < 1024. present (ent (mem s) pgdir i) \<longrightarrow> ent (mem u) pgdir i = ent (mem s) pgdir i" using d assms(2) by auto
  ultimately show "vm_step kend pgdir (x # xs) s xs u" unfolding vm_step_def using own f by auto
qed

lemma slot_nonzero: "page_ok kend x \<Longrightarrow> i < 1024 \<Longrightarrow> x + 4 * i \<noteq> 0"
proof
  assume a: "page_ok kend x" "i < 1024" and e: "x + 4 * i = 0"
  have "0x80000000 \<le> unat x" "unat x < 0x8E000000" using a(1) by (simp_all add: page_ok_def V2P_less_PHYSTOP)
  moreover have "unat (x + 4 * i) = unat x + 4 * unat i"
    using a(2) \<open>unat x < 0x8E000000\<close> by (simp add: unat_word_ariths word_less_nat_alt)
  ultimately show False using e by simp
qed

lemma walkpgdir_alloc:
  assumes "pt_ok kend pgdir xs s"
  shows "runs (walkpgdir pgdir va True s) (\<lambda>r t. \<exists>ys. vm_step kend pgdir xs s ys t \<and>
    (\<forall>w. pte_of (mem t) pgdir w = pte_of (mem s) pgdir w) \<and>
    (if r = 0 then ys = [] \<and> \<not> present (ent (mem t) pgdir (PDX va)) else present (ent (mem t) pgdir (PDX va)) \<and> r = tab (ent (mem t) pgdir (PDX va)) + 4 * PTX va))"
proof (cases "present (ent (mem s) pgdir (PDX va))")
  case True
  then have "page_ok kend (tab (ent (mem s) pgdir (PDX va)))" using pt_okD(5)[OF assms] by simp
  then have "tab (ent (mem s) pgdir (PDX va)) + 4 * PTX va \<noteq> 0" by (rule slot_nonzero) simp
  moreover have "walkpgdir pgdir va True s = Ret (tab (ent (mem s) pgdir (PDX va)) + 4 * PTX va) s"
    using True by (simp add: walkpgdir_def ent_def tab_def)
  ultimately show ?thesis using True vm_step_refl[OF assms] by auto
next
  case False
  show ?thesis
  proof (cases xs)
    case Nil
    then have "kalloc s = Ret 0 s" using pt_okD(1)[OF assms] kalloc_nil by blast
    then have "walkpgdir pgdir va True s = Ret 0 s" using False by (simp add: walkpgdir_def ent_def)
    then show ?thesis using vm_step_refl[OF assms] Nil False by auto
  next
    case (Cons x ys)
    note K = kalloc_cons[of kend s x ys] and N = new_table[OF assms[unfolded Cons] False]
    let ?u = "s\<lparr>freelist := load32 (mem s) x, mem := store32 (memset (mem s) x 0 PGSIZE) (pgdir + 4 * PDX va) (V2P x OR PTE_P OR PTE_W OR PTE_U)\<rparr>"
    have x: "page_ok kend x" "kalloc s = Ret x (s\<lparr>freelist := load32 (mem s) x\<rparr>)" using K pt_okD(1)[OF assms] Cons by auto
    have "x + 4 * PTX va \<noteq> 0" by (rule slot_nonzero[OF x(1)]) simp
    moreover have "walkpgdir pgdir va True s = Ret (x + 4 * PTX va) ?u"
      using False x page_ok_nonzero[OF x(1)] by (simp add: walkpgdir_def ent_def Let_def)
    ultimately show ?thesis using N Cons by auto
  qed
qed

lemma present_mk: "present (pa OR perm OR PTE_P)"
proof -
  have "bit ((pa OR perm OR PTE_P) AND PTE_P) 0" by (simp add: PTE_P_def bit_and_iff bit_or_iff)
  then show ?thesis by force
qed

text \<open>The page of the range from \<open>a\<close> that holds an address, counted from 0; addresses go round at the top of memory.\<close>

definition page_no :: "u32 \<Rightarrow> u32 \<Rightarrow> nat" where
  "page_no a w = unat (w - a) div 4096"

text \<open>The entries after the first \<open>k\<close> pages from \<open>a\<close> have been mapped to consecutive physical pages from \<open>pa\<close>.\<close>

definition mapped_from :: "u32 \<Rightarrow> u32 \<Rightarrow> u32 \<Rightarrow> u32 \<Rightarrow> nat \<Rightarrow> memory \<Rightarrow> memory \<Rightarrow> bool" where
  "mapped_from pgdir a pa perm k m m' \<longleftrightarrow>
     (\<forall>w. pte_of m' pgdir w = (if page_no a w < k then (pa + of_nat (page_no a w) * PGSIZE) OR perm OR PTE_P else pte_of m pgdir w))"

lemma page_no_eq:
  assumes "a mod PGSIZE = 0"
  shows "page_no a w = (if unat a div 4096 \<le> unat w div 4096 then unat w div 4096 - unat a div 4096
     else unat w div 4096 + 2 ^ 20 - unat a div 4096)"
proof -
  obtain q where q: "unat a = 4096 * q" using assms by (auto simp: mod_PGSIZE_iff elim: dvdE simp: mod_eq_0_iff_dvd)
  have w: "unat w = 4096 * (unat w div 4096) + unat w mod 4096" by simp
  let ?p = "unat w div 4096" and ?r = "unat w mod 4096"
  have qa: "unat a div 4096 = q" using q by simp
  have ql: "q < 2 ^ 20" using unat_u32_lt[of a] q by simp
  show ?thesis
  proof (cases "q \<le> ?p")
    case True
    then have "unat (w - a) = 4096 * (?p - q) + ?r" using q w by (subst unat_sub_if') (auto simp: algebra_simps)
    then show ?thesis using True qa by (simp add: page_no_def)
  next
    case False
    then have "4096 * (?p + 1) \<le> 4096 * q" by (intro mult_le_mono2) simp
    moreover have "unat w < 4096 + ?p * 4096" by (rule dividend_less_div_times) simp
    ultimately have "unat w < unat a" using q by (simp add: mult.commute)
    then have "unat (w - a) = 4096 * (?p + 2 ^ 20 - q) + ?r" using q w ql by (subst unat_sub_if') (auto simp: algebra_simps)
    then show ?thesis using False qa by (simp add: page_no_def)
  qed
qed

lemma page_lt: "unat (x :: u32) div 4096 < 2 ^ 20"
  using unat_u32_lt[of x] by simp

lemma next_page:
  assumes "a mod PGSIZE = 0"
  shows "(a + PGSIZE) mod PGSIZE = 0" "unat (a + PGSIZE) div 4096 = (if unat a div 4096 + 1 = 2 ^ 20 then 0 else unat a div 4096 + 1)"
proof -
  obtain q where q: "unat a = 4096 * q" using assms by (auto simp: mod_PGSIZE_iff elim: dvdE simp: mod_eq_0_iff_dvd)
  have "unat (a + PGSIZE) = (4096 * (q + 1)) mod (4096 * 2 ^ 20)" using q by (simp add: unat_word_ariths PGSIZE_def)
  also have "\<dots> = 4096 * ((q + 1) mod 2 ^ 20)" by (simp only: mult_mod_right)
  finally have e: "unat (a + PGSIZE) = 4096 * ((q + 1) mod 2 ^ 20)" .
  then show "(a + PGSIZE) mod PGSIZE = 0" by (simp add: mod_PGSIZE_iff)
  show "unat (a + PGSIZE) div 4096 = (if unat a div 4096 + 1 = 2 ^ 20 then 0 else unat a div 4096 + 1)"
    using e q page_lt[of a] by (auto simp: mod_Suc)
qed

lemma page_no_0: "a mod PGSIZE = 0 \<Longrightarrow> page_no a w = 0 \<longleftrightarrow> unat w div 4096 = unat a div 4096"
  using page_lt[of a] page_lt[of w] by (auto simp: page_no_eq)

lemma page_step_arith:
  fixes p q :: nat
  assumes "q < N" "p < N" "p \<noteq> q"
  shows "(if q \<le> p then p - q else p + N - q) = Suc (if (if q + 1 = N then 0 else q + 1) \<le> p then p - (if q + 1 = N then 0 else q + 1)
    else p + N - (if q + 1 = N then 0 else q + 1))"
  using assms by auto

lemma page_no_step:
  assumes "a mod PGSIZE = 0" "page_no a w \<noteq> 0"
  shows "page_no a w = Suc (page_no (a + PGSIZE) w)"
  using assms(2) page_step_arith[OF page_lt[of a] page_lt[of w]] page_no_0[OF assms(1), of w]
  unfolding page_no_eq[OF assms(1)] page_no_eq[OF next_page(1)[OF assms(1)]] next_page(2)[OF assms(1)] by auto

lemma page_no_next: "a mod PGSIZE = 0 \<Longrightarrow> page_no a w = 0 \<Longrightarrow> page_no (a + PGSIZE) w = 2 ^ 20 - 1"
  using next_page[of a] page_lt[of a] page_lt[of w] page_no_eq[of a w] page_no_eq[OF next_page(1), of a w]
  by (auto split: if_splits)

lemma mapped_from_cons:
  assumes "a mod PGSIZE = 0" "k < 2 ^ 20"
    "\<forall>w. pte_of m1 pgdir w = (if unat w div 4096 = unat a div 4096 then pa OR perm OR PTE_P else pte_of m pgdir w)"
    "mapped_from pgdir (a + PGSIZE) (pa + PGSIZE) perm k m1 m2"
  shows "mapped_from pgdir a pa perm (Suc k) m m2"
  unfolding mapped_from_def
proof
  fix w
  show "pte_of m2 pgdir w = (if page_no a w < Suc k then (pa + of_nat (page_no a w) * PGSIZE) OR perm OR PTE_P else pte_of m pgdir w)"
  proof (cases "page_no a w = 0")
    case True
    then have "\<not> page_no (a + PGSIZE) w < k" using page_no_next[OF assms(1) True] assms(2) by simp
    then show ?thesis using True assms(3,4) page_no_0[OF assms(1), of w] by (simp add: mapped_from_def)
  next
    case False
    then show ?thesis using assms(3,4) page_no_0[OF assms(1), of w] page_no_step[OF assms(1) False]
      by (simp add: mapped_from_def algebra_simps)
  qed
qed

lemma mapped_from_0: "(\<forall>w. pte_of m' pgdir w = pte_of m pgdir w) \<Longrightarrow> mapped_from pgdir a pa perm 0 m m'"
  by (simp add: mapped_from_def)

text \<open>One turn of the loop: the page is mapped, or memory has run out and nothing is mapped.\<close>

lemma map_one:
  assumes "pt_ok kend pgdir xs s" "\<not> present (pte_of (mem s) pgdir a)"
  shows "runs (walkpgdir pgdir a True s) (\<lambda>pte t. if pte = 0 then vm_step kend pgdir xs s [] t \<and> \<not> present (ent (mem t) pgdir (PDX a)) \<and> (\<forall>w. pte_of (mem t) pgdir w = pte_of (mem s) pgdir w)
    else load32 (mem t) pte AND PTE_P = 0 \<and> (\<exists>ys. vm_step kend pgdir xs s ys (t\<lparr>mem := store32 (mem t) pte v\<rparr>)) \<and>
      (\<forall>w. pte_of (store32 (mem t) pte v) pgdir w = (if unat w div 4096 = unat a div 4096 then v else pte_of (mem s) pgdir w)))"
proof (rule runs_mono[OF walkpgdir_alloc[OF assms(1), of a]], elim exE conjE, goal_cases)
  case (1 r t ys)
  then have pt: "pt_ok kend pgdir ys t" by (simp add: vm_step_def)
  show ?case
  proof (cases "r = 0")
    case True
    then show ?thesis using 1 by auto
  next
    case False
    then have p: "present (ent (mem t) pgdir (PDX a))" and r: "r = tab (ent (mem t) pgdir (PDX a)) + 4 * PTX a" using 1 by auto
    note S = set_pte[OF pt p, of v]
    have "pte_of (mem t) pgdir a = load32 (mem t) r" by (simp add: r p pte_of_def) (simp add: ent_def)
    then have "load32 (mem t) r = pte_of (mem s) pgdir a" using 1(2) by simp
    then have "load32 (mem t) r AND PTE_P = 0" using assms(2) by simp
    moreover have "vm_step kend pgdir xs s ys (t\<lparr>mem := store32 (mem t) r v\<rparr>)" unfolding r by (rule vm_step_trans[OF 1(1) S(1)])
    moreover have "pte_of (store32 (mem t) r v) pgdir w = (if unat w div 4096 = unat a div 4096 then v else pte_of (mem s) pgdir w)" for w
      using S(2)[of w] 1(2) by (simp add: r)
    ultimately show ?thesis using False by auto
  qed
qed

lemma rest_free:
  assumes "a mod PGSIZE = 0" "Suc n < 2 ^ 20" "\<forall>w. page_no a w \<le> Suc n \<longrightarrow> \<not> present (pte_of m pgdir w)"
    "\<forall>w. pte_of m1 pgdir w = (if unat w div 4096 = unat a div 4096 then v else pte_of m pgdir w)"
  shows "\<forall>w. page_no (a + PGSIZE) w \<le> n \<longrightarrow> \<not> present (pte_of m1 pgdir w)"
proof (intro allI impI)
  fix w
  assume l: "page_no (a + PGSIZE) w \<le> n"
  then have "page_no a w \<noteq> 0" using page_no_next[OF assms(1), of w] assms(2) by auto
  then show "\<not> present (pte_of m1 pgdir w)"
    using page_no_0[OF assms(1), of w] page_no_step[OF assms(1), of w] l assms(3,4) by simp
qed

lemma mappages_loop_ok:
  assumes "pt_ok kend pgdir xs s" "a mod PGSIZE = 0" "n < 2 ^ 20" "\<forall>w. page_no a w \<le> n \<longrightarrow> \<not> present (pte_of (mem s) pgdir w)"
  shows "runs (mappages_loop pgdir n a pa perm s) (\<lambda>r t. \<exists>ys k. vm_step kend pgdir xs s ys t \<and>
    mapped_from pgdir a pa perm k (mem s) (mem t) \<and> (if r = 0 then k = Suc n else r = -1 \<and> ys = [] \<and> k \<le> n \<and> \<not> present (ent (mem t) pgdir (PDX (a + of_nat k * PGSIZE)))))"
  using assms
proof (induction n arbitrary: a pa xs s)
  case 0
  then have n: "\<not> present (pte_of (mem s) pgdir a)" by (simp add: page_no_def)
  show ?case unfolding mappages_loop.simps[of _ 0] runs_bindO
  proof (rule runs_mono[OF map_one[OF "0.prems"(1) n, of "pa OR perm OR PTE_P"]], goal_cases)
    case (1 pte t)
    show ?case
    proof (cases "pte = 0")
      case True
      then show ?thesis using 1 by (auto intro!: exI[of _ 0] mapped_from_0)
    next
      case False
      let ?m = "store32 (mem t) pte (pa OR perm OR PTE_P)"
      have w: "pte_of ?m pgdir w = (if unat w div 4096 = unat a div 4096 then pa OR perm OR PTE_P else pte_of (mem s) pgdir w)" for w
        using 1 False by simp
      have "mapped_from pgdir a pa perm (Suc 0) (mem s) ?m" by (rule mapped_from_cons[OF "0.prems"(2) _ _ mapped_from_0[of ?m pgdir ?m]]) (use w in auto)
      then show ?thesis using 1 False by (auto intro!: exI[of _ "Suc 0"])
    qed
  qed
next
  case (Suc n)
  then have np: "\<not> present (pte_of (mem s) pgdir a)" by (simp add: page_no_def)
  show ?case unfolding mappages_loop.simps[of _ "Suc n"] runs_bindO
  proof (rule runs_mono[OF map_one[OF Suc.prems(1) np, of "pa OR perm OR PTE_P"]], goal_cases)
    case (1 pte t)
    show ?case
    proof (cases "pte = 0")
      case True
      then show ?thesis using 1 by (auto intro!: exI[of _ 0] mapped_from_0)
    next
      case False
      let ?u = "t\<lparr>mem := store32 (mem t) pte (pa OR perm OR PTE_P)\<rparr>"
      obtain ys where ys: "vm_step kend pgdir xs s ys ?u" using 1 False by auto
      then have pt: "pt_ok kend pgdir ys ?u" by (rule vm_step_ok)
      have w: "\<forall>w. pte_of (mem ?u) pgdir w = (if unat w div 4096 = unat a div 4096 then pa OR perm OR PTE_P else pte_of (mem s) pgdir w)"
        using 1 False by simp
      note free = rest_free[OF Suc.prems(2-4) w]
      note IH = Suc.IH[OF pt next_page(1)[OF Suc.prems(2)] _ free, of "pa + PGSIZE"]
      have "runs (mappages_loop pgdir n (a + PGSIZE) (pa + PGSIZE) perm ?u) (\<lambda>r v. \<exists>zs k. vm_step kend pgdir xs s zs v \<and>
        mapped_from pgdir a pa perm k (mem s) (mem v) \<and> (if r = 0 then k = Suc (Suc n) else r = -1 \<and> zs = [] \<and> k \<le> Suc n \<and> \<not> present (ent (mem v) pgdir (PDX (a + of_nat k * PGSIZE)))))"
      proof (rule runs_mono[OF IH], use Suc.prems(3) in simp, elim exE conjE, goal_cases)
        case (1 r v zs k)
        have "k < 2 ^ 20" using 1(3) Suc.prems(3) by (auto split: if_splits)
        note mapped_from_cons[OF Suc.prems(2) this w 1(2)]
        moreover have "a + of_nat (Suc k) * PGSIZE = a + PGSIZE + of_nat k * PGSIZE" by (simp add: algebra_simps)
        ultimately show ?case
          using vm_step_trans[OF ys 1(1)] 1(3) by (intro exI[of _ zs] exI[of _ "Suc k"]) (auto simp: add.assoc split: if_splits)
      qed
      then show ?thesis using 1 False by simp
    qed
  qed
qed


text \<open>
  C6. \<^verbatim>\<open>mappages\<close> of a range none of whose pages is mapped either returns 0, and then the page table maps every page
  of the range to the next physical page with the given permissions and maps every other address as before; or
  it returns -1 with a prefix of the range mapped, and then no page is free and the next page has no page table. It never
  panics, takes pages only from the front of the free list, writes to no page but those and the pages of
  the table itself, and keeps the table's pages distinct.
\<close>

theorem mappages_maps:
  assumes "pt_ok kend pgdir xs s" "n = page_no (PGROUNDDOWN va) (va + sz - 1)"
    "\<forall>w. page_no (PGROUNDDOWN va) w \<le> n \<longrightarrow> \<not> present (pte_of (mem s) pgdir w)"
  shows "runs (mappages pgdir va sz pa perm s) (\<lambda>r t. \<exists>ys k. vm_step kend pgdir xs s ys t \<and>
    mapped_from pgdir (PGROUNDDOWN va) pa perm k (mem s) (mem t) \<and> (if r = 0 then k = Suc n else r = -1 \<and> ys = [] \<and> k \<le> n \<and> \<not> present (ent (mem t) pgdir (PDX (PGROUNDDOWN va + of_nat k * PGSIZE)))))"
proof -
  have al: "PGROUNDDOWN x mod PGSIZE = 0" for x by (simp add: mod_PGSIZE_iff unat_PGROUNDDOWN)
  have "page_no (PGROUNDDOWN va) (PGROUNDDOWN w) = page_no (PGROUNDDOWN va) w" for w
    unfolding page_no_eq[OF al] by (simp add: unat_PGROUNDDOWN)
  then have n: "unat (PGROUNDDOWN (va + sz - 1) - PGROUNDDOWN va) div unat PGSIZE = n"
    using assms(2) by (simp add: page_no_def PGSIZE_def)
  have "n < 2 ^ 20" using assms(2) page_lt[of "va + sz - 1 - PGROUNDDOWN va"] by (simp add: page_no_def)
  from mappages_loop_ok[OF assms(1) al this assms(3)] show ?thesis by (simp add: mappages_def n Let_def)
qed

text \<open>A page directory with one page table, and no free page.\<close>

definition vm0 :: kalloc_state where
  "vm0 = \<lparr>mem = store32 (\<lambda>_. 0) 0x80103000 0x104007, io = [], wakeups = [], freelist = 0, use_lock = True\<rparr>"

lemma vm0_ent: "i < 1024 \<Longrightarrow> ent (mem vm0) 0x80103000 i = (if i = 0 then 0x104007 else 0)"
  using ent_store32[where a = "0x80103000" and b = "0x80103000" and i = 0 and j = i and m = "\<lambda>_. 0" and v = "0x104007"] by (auto simp: vm0_def PGSIZE_def) (simp_all add: ent_def load32_def)

lemma vm0_tab: "tab 0x104007 = 0x80104000"
  by (simp add: tab_def PTE_ADDR_def P2V_def KERNBASE_def)

lemma vm0_ok: "pt_ok 0x80100000 0x80103000 [] vm0"
  using vm0_ent vm0_tab unfolding pt_ok_def own_def
  by (auto simp: kmem_inv_def page_ok_def V2P_def layout_defs vm0_def split: if_splits)

theorem mappages_maps_witness:
  "runs (mappages 0x80103000 0x3FE800 0x1000 0x200000 PTE_W vm0) (\<lambda>r t.
     r = 0 \<and> pte_of (mem t) 0x80103000 0x3FE123 = 0x200003 \<and> pte_of (mem t) 0x80103000 0x3FF000 = 0x201003 \<and> pte_of (mem t) 0x80103000 0 = 0)"
proof -
  have z: "pte_of (mem vm0) 0x80103000 w = 0" for w
  proof (cases "PDX w = 0")
    case True
    have "ent (mem vm0) 0x80104000 (PTX w) = 0"
      using ent_store32[where a = "0x80103000" and b = "0x80104000" and i = 0 and j = "PTX w" and m = "\<lambda>_. 0" and v = "0x104007"]
      by (simp add: vm0_def PGSIZE_def) (simp add: ent_def load32_def)
    then show ?thesis using True vm0_ent[of 0] vm0_tab by (simp add: pte_of_def)
  next
    case False
    then show ?thesis using vm0_ent[OF PDX_less] by (simp add: pte_of_def)
  qed
  have n: "1 = page_no (PGROUNDDOWN 0x3FE800) (0x3FE800 + 0x1000 - 1)" by (simp add: page_no_def PGROUNDDOWN_def PGSIZE_def One_nat_def)
  have p: "PDX (PGROUNDDOWN 0x3FE800 + of_nat k * PGSIZE) = 0" if "k \<le> 1" for k
    using that by (cases k) (auto simp: PDX_def PGROUNDDOWN_def PGSIZE_def One_nat_def)
  have e: "present (ent (mem vm0) 0x80103000 0)" by (simp add: vm0_ent PTE_P_def)
  show ?thesis
  proof (rule runs_mono[OF mappages_maps[OF vm0_ok n, of "0x200000" PTE_W]], use z in simp, elim exE conjE, goal_cases)
    case (1 r t ys k)
    have "r = 0" using 1(1,3) p[of k] e by (auto simp: vm_step_def split: if_splits)
    then have "k = 2" using 1(3) by simp
    then show ?case using 1(2) \<open>r = 0\<close> z unfolding mapped_from_def
      by (simp add: page_no_def PGROUNDDOWN_def PGSIZE_def PTE_P_def PTE_W_def One_nat_def)
  qed
qed

end
