(* ===== verification/Ptable.thy ===== *)
theory Ptable
  imports Vm
begin

text \<open>
  The process table of \<^verbatim>\<open>src/proc.c\<close>. The functions here are the critical sections under \<^verbatim>\<open>ptable.lock\<close> as functions on
  the table; \<open>Proc\<close> builds the kernel calls from them. A pointer to a process is an index of the table. \<open>psys_step\<close>
  interleaves the critical sections on any number of processors.
\<close>

section \<open>The table\<close>

datatype procstate = UNUSED | EMBRYO | SLEEPING | RUNNABLE | RUNNING | ZOMBIE

record trapframe =
  tf_edi :: u32
  tf_esi :: u32
  tf_ebp :: u32
  tf_oesp :: u32
  tf_ebx :: u32
  tf_edx :: u32
  tf_ecx :: u32
  tf_eax :: u32
  tf_gs :: u16
  tf_fs :: u16
  tf_es :: u16
  tf_ds :: u16
  tf_trapno :: u32
  tf_err :: u32
  tf_eip :: u32
  tf_cs :: u16
  tf_eflags :: u32
  tf_esp :: u32
  tf_ss :: u16

record kcontext =
  c_edi :: u32
  c_esi :: u32
  c_ebx :: u32
  c_ebp :: u32
  c_eip :: u32

text \<open>
  The trap frame, the return address and the context that the kernel keeps at the top of a process's kernel stack
  are fields.
\<close>

record proc =
  p_sz :: u32
  p_pgdir :: u32
  p_kstack :: u32
  p_state :: procstate
  p_pid :: int
  p_parent :: "nat option"
  p_tf :: trapframe
  p_retaddr :: u32
  p_context :: kcontext
  p_chan :: "chan option"
  p_killed :: bool
  p_ofile :: "nat \<Rightarrow> nat option"
  p_cwd :: "nat option"
  p_name :: string

record ptable =
  procs :: "nat \<Rightarrow> proc"
  initproc :: "nat option"
  nextpid :: int

definition set_proc :: "nat \<Rightarrow> (proc \<Rightarrow> proc) \<Rightarrow> ptable \<Rightarrow> ptable" where
  "set_proc p f t = t\<lparr>procs := (procs t)(p := f (procs t p))\<rparr>"

abbreviation state_of :: "ptable \<Rightarrow> nat \<Rightarrow> procstate" where "state_of t p \<equiv> p_state (procs t p)"

section \<open>Critical sections\<close>

definition alloc_slot :: "ptable \<Rightarrow> (nat \<times> ptable) option" where
  "alloc_slot t =
     map_option (\<lambda>p. (p, (set_proc p (\<lambda>q. q\<lparr>p_state := EMBRYO, p_pid := nextpid t\<rparr>) t)\<lparr>nextpid := i32 (nextpid t + 1)\<rparr>))
       (find (\<lambda>p. state_of t p = UNUSED) [0..<NPROC])"

definition wake_one :: "chan option \<Rightarrow> nat \<Rightarrow> ptable \<Rightarrow> ptable" where
  "wake_one ch p t =
     (if state_of t p = SLEEPING \<and> p_chan (procs t p) = ch then set_proc p (\<lambda>q. q\<lparr>p_state := RUNNABLE\<rparr>) t else t)"

definition wakeup1 :: "chan option \<Rightarrow> ptable \<Rightarrow> ptable" where
  "wakeup1 ch t = fold (wake_one ch) [0..<NPROC] t"

definition kill_in :: "int \<Rightarrow> ptable \<Rightarrow> (nat \<times> ptable) option" where
  "kill_in pid t =
     map_option (\<lambda>p. (p, set_proc p (\<lambda>q. q\<lparr>p_killed := True, p_state := (if p_state q = SLEEPING then RUNNABLE else p_state q)\<rparr>) t))
       (find (\<lambda>p. p_pid (procs t p) = pid) [0..<NPROC])"

definition pass_child :: "nat \<Rightarrow> nat \<Rightarrow> ptable \<Rightarrow> ptable" where
  "pass_child me p t =
     (if p_parent (procs t p) = Some me then
        let t = set_proc p (\<lambda>q. q\<lparr>p_parent := initproc t\<rparr>) t
        in if state_of t p = ZOMBIE then wakeup1 (map_option ChProc (initproc t)) t else t
      else t)"

definition exit_in :: "nat \<Rightarrow> ptable \<Rightarrow> ptable" where
  "exit_in me t =
     set_proc me (\<lambda>q. q\<lparr>p_state := ZOMBIE\<rparr>)
       (fold (pass_child me) [0..<NPROC] (wakeup1 (map_option ChProc (p_parent (procs t me))) t))"

text \<open>The scan of \<^verbatim>\<open>wait\<close>: the first child that has exited, and whether there was any child up to it.\<close>

fun wait_scan :: "nat \<Rightarrow> ptable \<Rightarrow> nat list \<Rightarrow> bool \<Rightarrow> nat option \<times> bool" where
  "wait_scan me t [] havekids = (None, havekids)"
| "wait_scan me t (p # ps) havekids =
     (if p_parent (procs t p) \<noteq> Some me then wait_scan me t ps havekids
      else if state_of t p = ZOMBIE then (Some p, True)
      else wait_scan me t ps True)"

definition reap :: "nat \<Rightarrow> ptable \<Rightarrow> ptable" where
  "reap p t = set_proc p (\<lambda>q. q\<lparr>p_pid := 0, p_parent := None, p_name := '''', p_killed := False, p_state := UNUSED\<rparr>) t"

definition sleep_in :: "nat \<Rightarrow> chan \<Rightarrow> ptable \<Rightarrow> ptable" where
  "sleep_in p ch t = set_proc p (\<lambda>q. q\<lparr>p_chan := Some ch, p_state := SLEEPING\<rparr>) t"

definition set_state :: "procstate \<Rightarrow> nat \<Rightarrow> ptable \<Rightarrow> ptable" where
  "set_state st p t = set_proc p (\<lambda>q. q\<lparr>p_state := st\<rparr>) t"

section \<open>Interleaving on several processors\<close>

text \<open>
  \<open>on_cpu\<close> gives the process a processor runs, \<open>embryo\<close> the table entry that a process in \<^verbatim>\<open>fork\<close> is filling in.
  \<open>made\<close> counts the entries taken since the start; no step reads it.
\<close>

record psys =
  tbl :: ptable
  on_cpu :: "nat \<Rightarrow> nat option"
  embryo :: "nat \<Rightarrow> nat option"
  made :: nat

inductive psys_step :: "psys \<Rightarrow> psys \<Rightarrow> bool" where
  schedule: "on_cpu S c = None \<Longrightarrow> p < NPROC \<Longrightarrow> state_of (tbl S) p = RUNNABLE \<Longrightarrow>
    psys_step S (S\<lparr>tbl := set_state RUNNING p (tbl S), on_cpu := (on_cpu S)(c := Some p)\<rparr>)"
| yield: "on_cpu S c = Some p \<Longrightarrow>
    psys_step S (S\<lparr>tbl := set_state RUNNABLE p (tbl S), on_cpu := (on_cpu S)(c := None)\<rparr>)"
| sleep: "on_cpu S c = Some p \<Longrightarrow> embryo S p = None \<Longrightarrow> (\<forall>r. ch \<noteq> ChProc r) \<Longrightarrow>
    psys_step S (S\<lparr>tbl := sleep_in p ch (tbl S), on_cpu := (on_cpu S)(c := None)\<rparr>)"
| wakeup: "psys_step S (S\<lparr>tbl := wakeup1 (Some ch) (tbl S)\<rparr>)"
| kill: "kill_in pid (tbl S) = Some (q, t) \<Longrightarrow> psys_step S (S\<lparr>tbl := t\<rparr>)"
| fork_alloc: "on_cpu S c = Some p \<Longrightarrow> embryo S p = None \<Longrightarrow> alloc_slot (tbl S) = Some (q, t) \<Longrightarrow>
    psys_step S (S\<lparr>tbl := t, embryo := (embryo S)(p := Some q), made := Suc (made S)\<rparr>)"
| fork_fail: "on_cpu S c = Some p \<Longrightarrow> embryo S p = Some q \<Longrightarrow>
    psys_step S (S\<lparr>tbl := set_state UNUSED q (tbl S), embryo := (embryo S)(p := None)\<rparr>)"
| fork_done: "on_cpu S c = Some p \<Longrightarrow> embryo S p = Some q \<Longrightarrow>
    psys_step S (S\<lparr>tbl := set_state RUNNABLE q (set_proc q (\<lambda>r. r\<lparr>p_parent := Some p\<rparr>) (tbl S)), embryo := (embryo S)(p := None)\<rparr>)"
| exit: "on_cpu S c = Some p \<Longrightarrow> embryo S p = None \<Longrightarrow> initproc (tbl S) \<noteq> Some p \<Longrightarrow>
    psys_step S (S\<lparr>tbl := exit_in p (tbl S), on_cpu := (on_cpu S)(c := None)\<rparr>)"
| wait_reap: "on_cpu S c = Some p \<Longrightarrow> wait_scan p (tbl S) [0..<NPROC] False = (Some q, h) \<Longrightarrow>
    psys_step S (S\<lparr>tbl := reap q (tbl S)\<rparr>)"
| wait_sleep: "on_cpu S c = Some p \<Longrightarrow> embryo S p = None \<Longrightarrow> wait_scan p (tbl S) [0..<NPROC] False = (None, True) \<Longrightarrow>
    psys_step S (S\<lparr>tbl := sleep_in p (ChProc p) (tbl S), on_cpu := (on_cpu S)(c := None)\<rparr>)"

section \<open>What the critical sections do\<close>

lemma set_proc_simps [simp]:
  "procs (set_proc p f t) q = (if q = p then f (procs t p) else procs t q)"
  "initproc (set_proc p f t) = initproc t" "nextpid (set_proc p f t) = nextpid t"
  by (simp_all add: set_proc_def)

definition woken :: "chan option \<Rightarrow> proc \<Rightarrow> proc" where
  "woken ch q = (if p_state q = SLEEPING \<and> p_chan q = ch then q\<lparr>p_state := RUNNABLE\<rparr> else q)"

lemma wakeup1_fold:
  assumes "distinct ps"
  shows "procs (fold (wake_one ch) ps t) q = (if q \<in> set ps then woken ch (procs t q) else procs t q)"
    "initproc (fold (wake_one ch) ps t) = initproc t" "nextpid (fold (wake_one ch) ps t) = nextpid t"
  using assms by (induction ps arbitrary: t) (auto simp: wake_one_def woken_def)

lemma wakeup1_procs [simp]:
  "procs (wakeup1 ch t) q = (if q < NPROC then woken ch (procs t q) else procs t q)"
  "initproc (wakeup1 ch t) = initproc t" "nextpid (wakeup1 ch t) = nextpid t"
  unfolding wakeup1_def by (simp_all add: wakeup1_fold)

lemma wait_scan_Some:
  "wait_scan c t ps h = (Some q, h') \<Longrightarrow> q \<in> set ps \<and> p_parent (procs t q) = Some c \<and> state_of t q = ZOMBIE"
  by (induction ps arbitrary: h) (auto split: if_splits)

lemma wait_scan_None:
  "wait_scan c t ps h = (None, h') \<Longrightarrow> (\<forall>q \<in> set ps. p_parent (procs t q) = Some c \<longrightarrow> state_of t q \<noteq> ZOMBIE) \<and>
     (h' \<longleftrightarrow> h \<or> (\<exists>q \<in> set ps. p_parent (procs t q) = Some c))"
  by (induction ps arbitrary: h) (auto split: if_splits)

definition adopted :: "nat \<Rightarrow> nat option \<Rightarrow> proc \<Rightarrow> proc" where
  "adopted c i q = (if p_parent q = Some c then q\<lparr>p_parent := i\<rparr> else q)"

lemma woken_fields [simp]:
  "p_parent (woken ch q) = p_parent q" "p_pid (woken ch q) = p_pid q" "p_chan (woken ch q) = p_chan q"
  "p_killed (woken ch q) = p_killed q" "p_state (woken ch q) = ZOMBIE \<longleftrightarrow> p_state q = ZOMBIE"
  by (auto simp: woken_def)

lemma woken_state: "p_state (woken ch q) = (if p_state q = SLEEPING \<and> p_chan q = ch then RUNNABLE else p_state q)"
  by (simp add: woken_def)

lemma adopted_fields [simp]:
  "p_parent (adopted c i q) = (if p_parent q = Some c then i else p_parent q)" "p_pid (adopted c i q) = p_pid q"
  "p_chan (adopted c i q) = p_chan q" "p_state (adopted c i q) = p_state q"
  by (auto simp: adopted_def)

lemma pass_child_simps [simp]: "initproc (pass_child c p t) = initproc t" "nextpid (pass_child c p t) = nextpid t"
  by (simp_all add: pass_child_def Let_def)

lemma fold_pass_fields: "initproc (fold (pass_child c) ps t) = initproc t" "nextpid (fold (pass_child c) ps t) = nextpid t"
  by (induction ps arbitrary: t) simp_all

lemma fold_pass_keeps:
  fixes t :: ptable and c :: nat
  assumes "distinct ps" "set ps \<subseteq> {..<NPROC}"
  defines "u \<equiv> fold (pass_child c) ps t"
  shows "p_parent (procs u q) = (if q \<in> set ps \<and> p_parent (procs t q) = Some c then initproc t else p_parent (procs t q))"
    "p_pid (procs u q) = p_pid (procs t q)" "p_chan (procs u q) = p_chan (procs t q)"
    "state_of u q = (if state_of t q = SLEEPING \<and> q < NPROC \<and> p_chan (procs t q) = map_option ChProc (initproc t) \<and>
        (\<exists>p \<in> set ps. p_parent (procs t p) = Some c \<and> state_of t p = ZOMBIE) then RUNNABLE else state_of t q)"
  using assms(1,2) unfolding u_def
  by (induction ps arbitrary: t) (auto simp: pass_child_def Let_def woken_state split: if_splits)

lemma exit_in_fields:
  assumes "q < NPROC" "c < NPROC"
  shows "p_parent (procs (exit_in c t) q) = (if p_parent (procs t q) = Some c then initproc t else p_parent (procs t q))"
    "p_pid (procs (exit_in c t) q) = p_pid (procs t q)" "p_chan (procs (exit_in c t) q) = p_chan (procs t q)"
    "state_of (exit_in c t) q = (if q = c then ZOMBIE
      else if state_of t q = SLEEPING \<and> (p_chan (procs t q) = map_option ChProc (p_parent (procs t c)) \<or>
        p_chan (procs t q) = map_option ChProc (initproc t) \<and> (\<exists>p < NPROC. p_parent (procs t p) = Some c \<and> state_of t p = ZOMBIE))
      then RUNNABLE else state_of t q)"
    "initproc (exit_in c t) = initproc t" "nextpid (exit_in c t) = nextpid t"
proof -
  have s: "set [0..<NPROC] \<subseteq> {..<NPROC}" by auto
  note F = fold_pass_keeps[OF distinct_upt s]
  show "p_parent (procs (exit_in c t) q) = (if p_parent (procs t q) = Some c then initproc t else p_parent (procs t q))"
    "p_pid (procs (exit_in c t) q) = p_pid (procs t q)" "p_chan (procs (exit_in c t) q) = p_chan (procs t q)"
    "initproc (exit_in c t) = initproc t" "nextpid (exit_in c t) = nextpid t"
    using assms by (simp_all add: exit_in_def F fold_pass_fields)
  have z: "(\<exists>p \<in> set [0..<NPROC]. p_parent (procs (wakeup1 ch t) p) = Some c \<and> state_of (wakeup1 ch t) p = ZOMBIE) \<longleftrightarrow>
    (\<exists>p < NPROC. p_parent (procs t p) = Some c \<and> state_of t p = ZOMBIE)" for ch by auto
  show "state_of (exit_in c t) q = (if q = c then ZOMBIE
      else if state_of t q = SLEEPING \<and> (p_chan (procs t q) = map_option ChProc (p_parent (procs t c)) \<or>
        p_chan (procs t q) = map_option ChProc (initproc t) \<and> (\<exists>p < NPROC. p_parent (procs t p) = Some c \<and> state_of t p = ZOMBIE))
      then RUNNABLE else state_of t q)"
    unfolding exit_in_def using assms F(4)[of c "wakeup1 (map_option ChProc (p_parent (procs t c))) t" q, unfolded z]
    by (auto simp: woken_state split: if_splits)
qed

section \<open>The invariant\<close>

definition live :: "procstate \<Rightarrow> bool" where
  "live st \<longleftrightarrow> st = SLEEPING \<or> st = RUNNABLE \<or> st = RUNNING"

text \<open>A processor runs a running process, and every running process runs on exactly one processor.\<close>

definition cpu_inv :: "psys \<Rightarrow> bool" where
  "cpu_inv S \<longleftrightarrow> (\<forall>c p. on_cpu S c = Some p \<longrightarrow> p < NPROC \<and> state_of (tbl S) p = RUNNING) \<and>
     (\<forall>p < NPROC. state_of (tbl S) p = RUNNING \<longrightarrow> (\<exists>c. on_cpu S c = Some p)) \<and>
     (\<forall>c d p. on_cpu S c = Some p \<and> on_cpu S d = Some p \<longrightarrow> c = d)"

text \<open>An entry that is being filled in belongs to exactly one process in \<^verbatim>\<open>fork\<close>.\<close>

definition emb_inv :: "psys \<Rightarrow> bool" where
  "emb_inv S \<longleftrightarrow> (\<forall>p q. embryo S p = Some q \<longrightarrow> p < NPROC \<and> q < NPROC \<and> state_of (tbl S) q = EMBRYO \<and>
       (state_of (tbl S) p = RUNNING \<or> state_of (tbl S) p = RUNNABLE)) \<and>
     (\<forall>p r q. embryo S p = Some q \<and> embryo S r = Some q \<longrightarrow> p = r) \<and>
     (\<forall>q < NPROC. state_of (tbl S) q = EMBRYO \<longrightarrow> (\<exists>p. embryo S p = Some q))"

text \<open>Process ids are positive, below the next one to be given out, and different.\<close>

definition pids_ok :: "ptable \<Rightarrow> bool" where
  "pids_ok t \<longleftrightarrow> (\<forall>p < NPROC. state_of t p \<noteq> UNUSED \<longrightarrow> 0 < p_pid (procs t p) \<and> p_pid (procs t p) < nextpid t) \<and>
     (\<forall>p < NPROC. \<forall>q < NPROC. state_of t p \<noteq> UNUSED \<and> state_of t q \<noteq> UNUSED \<and> p_pid (procs t p) = p_pid (procs t q) \<longrightarrow> p = q)"

text \<open>
  The counter \<^verbatim>\<open>nextpid\<close> is a C \<^verbatim>\<open>int\<close> that wraps around, so this holds as long as it has not.
\<close>

definition no_wrap :: "psys \<Rightarrow> bool" where
  "no_wrap S \<longleftrightarrow> int (made S) + 2 < 2 ^ 31"

definition pid_inv :: "psys \<Rightarrow> bool" where
  "pid_inv S \<longleftrightarrow> (no_wrap S \<longrightarrow> nextpid (tbl S) = int (made S) + 2 \<and> pids_ok (tbl S))"

text \<open>
  The first process lives for ever, and every other process that is alive or waits to be reaped has a live
  parent.
\<close>

definition tree_ok :: "ptable \<Rightarrow> nat \<Rightarrow> bool" where
  "tree_ok t i \<longleftrightarrow> i < NPROC \<and> initproc t = Some i \<and> live (state_of t i) \<and> p_parent (procs t i) = None \<and>
     (\<forall>p < NPROC. \<forall>q. p_parent (procs t p) = Some q \<longrightarrow>
        q < NPROC \<and> q \<noteq> p \<and> live (state_of t q) \<and> (live (state_of t p) \<or> state_of t p = ZOMBIE)) \<and>
     (\<forall>p < NPROC. p_parent (procs t p) = None \<longrightarrow> state_of t p = UNUSED \<or> state_of t p = EMBRYO \<or> p = i)"

definition tree_inv :: "ptable \<Rightarrow> bool" where
  "tree_inv t \<longleftrightarrow> (\<exists>i. tree_ok t i)"

text \<open>A process asleep in \<^verbatim>\<open>wait\<close> has a child, and none of its children has exited.\<close>

definition may_wait :: "ptable \<Rightarrow> nat \<Rightarrow> bool" where
  "may_wait t p \<longleftrightarrow> (\<exists>q < NPROC. p_parent (procs t q) = Some p) \<and> (\<forall>q < NPROC. p_parent (procs t q) = Some p \<longrightarrow> state_of t q \<noteq> ZOMBIE)"

definition wait_inv :: "ptable \<Rightarrow> bool" where
  "wait_inv t \<longleftrightarrow> (\<forall>p < NPROC. state_of t p = SLEEPING \<longrightarrow> p_chan (procs t p) \<noteq> None \<and>
     (\<forall>r. p_chan (procs t p) = Some (ChProc r) \<longrightarrow> r = p \<and> may_wait t p))"

definition psys_inv :: "psys \<Rightarrow> bool" where
  "psys_inv S \<longleftrightarrow> cpu_inv S \<and> emb_inv S \<and> pid_inv S \<and> tree_inv (tbl S) \<and> wait_inv (tbl S)"

lemma alloc_slotD:
  assumes "alloc_slot t = Some (q, u)"
  shows "q < NPROC" "state_of t q = UNUSED"
    "u = (set_proc q (\<lambda>r. r\<lparr>p_state := EMBRYO, p_pid := nextpid t\<rparr>) t)\<lparr>nextpid := i32 (nextpid t + 1)\<rparr>"
  using assms find_first[of "\<lambda>p. state_of t p = UNUSED" "[0..<NPROC]" q] by (auto simp: alloc_slot_def)

lemma kill_inD:
  assumes "kill_in pid t = Some (q, u)"
  shows "q < NPROC" "p_pid (procs t q) = pid"
    "u = set_proc q (\<lambda>r. r\<lparr>p_killed := True, p_state := (if p_state r = SLEEPING then RUNNABLE else p_state r)\<rparr>) t"
  using assms find_first[of "\<lambda>p. p_pid (procs t p) = pid" "[0..<NPROC]" q] by (auto simp: kill_in_def)

lemma scan_table: "wait_scan p t [0..<NPROC] False = (Some q, h) \<Longrightarrow> q < NPROC \<and> p_parent (procs t q) = Some p \<and> state_of t q = ZOMBIE"
  using wait_scan_Some[of p t "[0..<NPROC]" False q h] by auto

lemma scan_table_none:
  "wait_scan p t [0..<NPROC] False = (None, True) \<Longrightarrow> (\<forall>q < NPROC. p_parent (procs t q) = Some p \<longrightarrow> state_of t q \<noteq> ZOMBIE) \<and>
     (\<exists>q < NPROC. p_parent (procs t q) = Some p)"
  using wait_scan_None[of p t "[0..<NPROC]" False True] by auto

lemmas table_defs = set_state_def sleep_in_def reap_def

subsection \<open>What keeps each part\<close>

lemma cpu_inv_same:
  assumes "cpu_inv S" "on_cpu T = on_cpu S" "\<forall>p < NPROC. state_of (tbl T) p = RUNNING \<longleftrightarrow> state_of (tbl S) p = RUNNING"
  shows "cpu_inv T"
  using assms by (simp add: cpu_inv_def)

lemma cpu_inv_release:
  assumes "cpu_inv S" "on_cpu S c = Some p" "on_cpu T = (on_cpu S)(c := None)"
    "\<forall>q < NPROC. state_of (tbl T) q = RUNNING \<longleftrightarrow> q \<noteq> p \<and> state_of (tbl S) q = RUNNING"
  shows "cpu_inv T"
proof -
  have only: "d = c" if "on_cpu S d = Some p" for d using assms(1,2) that unfolding cpu_inv_def by blast
  have "\<exists>d. on_cpu T d = Some q" if q: "q < NPROC" "state_of (tbl T) q = RUNNING" for q
  proof -
    obtain d where "on_cpu S d = Some q" "q \<noteq> p" using q assms(1,4) unfolding cpu_inv_def by blast
    then show ?thesis using assms(2,3) by (intro exI[of _ d]) auto
  qed
  moreover have "q < NPROC \<and> state_of (tbl T) q = RUNNING" if "on_cpu T d = Some q" for d q
    using that assms only[of d] unfolding cpu_inv_def by (auto split: if_splits)
  moreover have "d = e" if "on_cpu T d = Some q" "on_cpu T e = Some q" for d e q
    using that assms(1,3) unfolding cpu_inv_def by (auto split: if_splits)
  ultimately show ?thesis unfolding cpu_inv_def by blast
qed

lemma cpu_inv_take:
  assumes "cpu_inv S" "on_cpu S c = None" "p < NPROC" "state_of (tbl S) p = RUNNABLE" "on_cpu T = (on_cpu S)(c := Some p)"
    "\<forall>q < NPROC. state_of (tbl T) q = RUNNING \<longleftrightarrow> q = p \<or> state_of (tbl S) q = RUNNING"
  shows "cpu_inv T"
proof -
  have none: "on_cpu S d \<noteq> Some p" for d using assms(1,4) unfolding cpu_inv_def by fastforce
  have "\<exists>d. on_cpu T d = Some q" if q: "q < NPROC" "state_of (tbl T) q = RUNNING" for q
  proof (cases "q = p")
    case False
    then obtain d where "on_cpu S d = Some q" using q assms(1,6) unfolding cpu_inv_def by blast
    then show ?thesis using assms(2,5) by (intro exI[of _ d]) auto
  qed (use assms(5) in auto)
  moreover have "q < NPROC \<and> state_of (tbl T) q = RUNNING" if "on_cpu T d = Some q" for d q
    using that assms unfolding cpu_inv_def by (auto split: if_splits)
  moreover have "d = e" if "on_cpu T d = Some q" "on_cpu T e = Some q" for d e q
    using that assms(1,5) none unfolding cpu_inv_def by (auto split: if_splits)
  ultimately show ?thesis unfolding cpu_inv_def by blast
qed

lemma emb_inv_same:
  assumes "emb_inv S" "embryo T = embryo S" "\<forall>p < NPROC. state_of (tbl T) p = EMBRYO \<longleftrightarrow> state_of (tbl S) p = EMBRYO"
    "\<forall>p < NPROC. embryo S p \<noteq> None \<longrightarrow> state_of (tbl S) p = RUNNING \<or> state_of (tbl S) p = RUNNABLE \<longrightarrow>
       state_of (tbl T) p = RUNNING \<or> state_of (tbl T) p = RUNNABLE"
  shows "emb_inv T"
proof -
  have "p < NPROC \<and> q < NPROC \<and> state_of (tbl T) q = EMBRYO \<and> (state_of (tbl T) p = RUNNING \<or> state_of (tbl T) p = RUNNABLE)"
    if "embryo S p = Some q" for p q using that assms(1,3,4) unfolding emb_inv_def by blast
  moreover have "\<exists>p. embryo S p = Some q" if "q < NPROC" "state_of (tbl T) q = EMBRYO" for q using that assms(1,3) unfolding emb_inv_def by blast
  moreover have "p = r" if "embryo S p = Some q" "embryo S r = Some q" for p r q using that assms(1) unfolding emb_inv_def by blast
  ultimately show ?thesis using assms(2) unfolding emb_inv_def by simp
qed

lemma emb_inv_drop:
  assumes "emb_inv S" "embryo S p = Some q" "embryo T = (embryo S)(p := None)"
    "\<forall>r < NPROC. r \<noteq> q \<longrightarrow> state_of (tbl T) r = state_of (tbl S) r" "state_of (tbl T) q \<noteq> EMBRYO"
  shows "emb_inv T"
proof -
  have emb: "state_of (tbl S) q = EMBRYO" using assms(1,2) unfolding emb_inv_def by blast
  have *: "r < NPROC \<and> e < NPROC \<and> state_of (tbl T) e = EMBRYO \<and> (state_of (tbl T) r = RUNNING \<or> state_of (tbl T) r = RUNNABLE)"
    if "embryo T r = Some e" for r e
  proof -
    have "r \<noteq> p" "embryo S r = Some e" using that assms(3) by (auto split: if_splits)
    then have "e \<noteq> q" "r < NPROC" "e < NPROC" "state_of (tbl S) e = EMBRYO" "state_of (tbl S) r = RUNNING \<or> state_of (tbl S) r = RUNNABLE"
      using assms(1,2) unfolding emb_inv_def by blast+
    moreover from this emb have "r \<noteq> q" by auto
    ultimately show ?thesis using assms(4) by auto
  qed
  moreover have "\<exists>r. embryo T r = Some e" if e: "e < NPROC" "state_of (tbl T) e = EMBRYO" for e
  proof -
    have "e \<noteq> q" using e assms(5) by auto
    then obtain r where "embryo S r = Some e" using e assms(1,4) unfolding emb_inv_def by force
    then show ?thesis using assms(2,3) \<open>e \<noteq> q\<close> by (intro exI[of _ r]) auto
  qed
  moreover have "r = r'" if "embryo T r = Some e" "embryo T r' = Some e" for r r' e
    using that assms(1,3) unfolding emb_inv_def by (auto split: if_splits)
  ultimately show ?thesis unfolding emb_inv_def by blast
qed

lemma pid_inv_same:
  assumes "pid_inv S" "made T = made S" "nextpid (tbl T) = nextpid (tbl S)"
    "\<forall>p < NPROC. state_of (tbl T) p \<noteq> UNUSED \<longrightarrow>
       state_of (tbl S) p \<noteq> UNUSED \<and> p_pid (procs (tbl T) p) = p_pid (procs (tbl S) p)"
  shows "pid_inv T"
proof -
  have "pids_ok (tbl T)" if "pids_ok (tbl S)" using that assms(3,4) unfolding pids_ok_def by metis
  then show ?thesis using assms(1-3) by (simp add: pid_inv_def no_wrap_def)
qed

lemma tree_okI:
  assumes "i < NPROC" "initproc t = Some i" "live (state_of t i)" "p_parent (procs t i) = None"
    "\<And>p q. p < NPROC \<Longrightarrow> p_parent (procs t p) = Some q \<Longrightarrow> q < NPROC \<and> q \<noteq> p \<and> live (state_of t q) \<and> (live (state_of t p) \<or> state_of t p = ZOMBIE)"
    "\<And>p. p < NPROC \<Longrightarrow> p_parent (procs t p) = None \<Longrightarrow> state_of t p = UNUSED \<or> state_of t p = EMBRYO \<or> p = i"
  shows "tree_ok t i"
  unfolding tree_ok_def using assms by blast

lemma tree_okD:
  assumes "tree_ok t i"
  shows "i < NPROC" "initproc t = Some i" "live (state_of t i)" "p_parent (procs t i) = None"
    "p < NPROC \<Longrightarrow> p_parent (procs t p) = Some q \<Longrightarrow> q < NPROC \<and> q \<noteq> p \<and> live (state_of t q) \<and> (live (state_of t p) \<or> state_of t p = ZOMBIE)"
    "p < NPROC \<Longrightarrow> p_parent (procs t p) = None \<Longrightarrow> state_of t p = UNUSED \<or> state_of t p = EMBRYO \<or> p = i"
  using assms unfolding tree_ok_def by blast+

lemma tree_inv_same:
  assumes "tree_inv t" "initproc u = initproc t"
    "\<forall>p < NPROC. p_parent (procs u p) = p_parent (procs t p) \<and> (live (state_of u p) \<longleftrightarrow> live (state_of t p)) \<and>
       (state_of u p = ZOMBIE \<longleftrightarrow> state_of t p = ZOMBIE)"
  shows "tree_inv u"
proof -
  have c: "st = UNUSED \<or> st = EMBRYO \<longleftrightarrow> \<not> live st \<and> st \<noteq> ZOMBIE" for st by (cases st) (auto simp: live_def)
  obtain i where i: "tree_ok t i" using assms(1) unfolding tree_inv_def by blast
  have N: "state_of u p = UNUSED \<or> state_of u p = EMBRYO \<or> p = i" if "p < NPROC" "p_parent (procs u p) = None" for p
    using tree_okD(6)[OF i, of p] that assms(3) c[of "state_of u p"] c[of "state_of t p"] by auto
  have S: "q < NPROC \<and> q \<noteq> p \<and> live (state_of u q) \<and> (live (state_of u p) \<or> state_of u p = ZOMBIE)"
    if "p < NPROC" "p_parent (procs u p) = Some q" for p q using tree_okD(5)[OF i, of p q] that assms(3) by auto
  have "tree_ok u i" by (rule tree_okI[OF _ _ _ _ S N]) (use tree_okD(1-4)[OF i] assms(2,3) in simp_all)
  then show ?thesis unfolding tree_inv_def by blast
qed

lemma may_wait_same:
  assumes "may_wait t p" "\<forall>q < NPROC. p_parent (procs u q) = p_parent (procs t q) \<and> (state_of u q = ZOMBIE \<longrightarrow> state_of t q = ZOMBIE)"
  shows "may_wait u p"
  using assms unfolding may_wait_def by auto

lemma wait_inv_same:
  assumes "wait_inv t" "\<forall>p < NPROC. p_parent (procs u p) = p_parent (procs t p) \<and> (state_of u p = ZOMBIE \<longrightarrow> state_of t p = ZOMBIE)"
    "\<forall>p < NPROC. state_of u p = SLEEPING \<longrightarrow> state_of t p = SLEEPING \<and> p_chan (procs u p) = p_chan (procs t p)"
  shows "wait_inv u"
  using assms(1,3) may_wait_same[OF _ assms(2)] unfolding wait_inv_def by metis

subsection \<open>Every step keeps it\<close>

lemma psys_invD:
  assumes "psys_inv S"
  shows "cpu_inv S" "emb_inv S" "pid_inv S" "tree_inv (tbl S)" "wait_inv (tbl S)"
  using assms by (simp_all add: psys_inv_def)

lemma on_cpuD: "psys_inv S \<Longrightarrow> on_cpu S c = Some p \<Longrightarrow> p < NPROC \<and> state_of (tbl S) p = RUNNING"
  by (simp add: psys_inv_def cpu_inv_def)

lemma embryoD: "psys_inv S \<Longrightarrow> embryo S p = Some q \<Longrightarrow> p < NPROC \<and> q < NPROC \<and> state_of (tbl S) q = EMBRYO"
  by (simp add: psys_inv_def emb_inv_def)

lemma cpu_inv_step:
  assumes "psys_step S T" "psys_inv S"
  shows "cpu_inv T"
  using assms(1)
proof cases
  case (schedule c p)
  then show ?thesis using psys_invD(1)[OF assms(2)] by - (rule cpu_inv_take[of S c p], (auto simp: table_defs))
next
  case (yield c p)
  then show ?thesis using psys_invD(1)[OF assms(2)] by - (rule cpu_inv_release[of S c p], (auto simp: table_defs))
next
  case (sleep c p ch)
  then show ?thesis using psys_invD(1)[OF assms(2)] by - (rule cpu_inv_release[of S c p], (auto simp: table_defs))
next
  case (wakeup ch)
  then show ?thesis using psys_invD(1)[OF assms(2)] by - (rule cpu_inv_same[of S], (auto simp: woken_state))
next
  case (kill pid q t)
  then show ?thesis using psys_invD(1)[OF assms(2)] kill_inD[OF kill(2)] by - (rule cpu_inv_same[of S], auto)
next
  case (fork_alloc c p q t)
  then show ?thesis using psys_invD(1)[OF assms(2)] alloc_slotD[OF fork_alloc(4)] by - (rule cpu_inv_same[of S], auto)
next
  case (fork_fail c p q)
  then show ?thesis using psys_invD(1)[OF assms(2)] embryoD[OF assms(2) fork_fail(3)] by - (rule cpu_inv_same[of S], (auto simp: table_defs))
next
  case (fork_done c p q)
  then show ?thesis using psys_invD(1)[OF assms(2)] embryoD[OF assms(2) fork_done(3)] by - (rule cpu_inv_same[of S], (auto simp: table_defs))
next
  case (exit c p)
  then show ?thesis using psys_invD(1)[OF assms(2)] on_cpuD[OF assms(2) exit(2)] by - (rule cpu_inv_release[of S c p], (auto simp: exit_in_fields))
next
  case (wait_reap c p q h)
  then show ?thesis using psys_invD(1)[OF assms(2)] scan_table[OF wait_reap(3)] by - (rule cpu_inv_same[of S], (auto simp: table_defs))
next
  case (wait_sleep c p)
  then show ?thesis using psys_invD(1)[OF assms(2)] by - (rule cpu_inv_release[of S c p], (auto simp: table_defs))
qed


lemma emb_inv_step:
  assumes "psys_step S T" "psys_inv S"
  shows "emb_inv T"
  using assms(1)
proof cases
  case (schedule c p)
  then show ?thesis using psys_invD(2)[OF assms(2)] by - (rule emb_inv_same[of S], auto simp: table_defs)
next
  case (yield c p)
  then show ?thesis using psys_invD(2)[OF assms(2)] on_cpuD[OF assms(2) yield(2)] by - (rule emb_inv_same[of S], auto simp: table_defs)
next
  case (sleep c p ch)
  then show ?thesis using psys_invD(2)[OF assms(2)] on_cpuD[OF assms(2) sleep(2)] by - (rule emb_inv_same[of S], auto simp: table_defs)
next
  case (wakeup ch)
  then show ?thesis using psys_invD(2)[OF assms(2)] by - (rule emb_inv_same[of S], auto simp: woken_state)
next
  case (kill pid q t)
  then show ?thesis using psys_invD(2)[OF assms(2)] kill_inD[OF kill(2)] by - (rule emb_inv_same[of S], auto)
next
  case (fork_alloc c p q t)
  note A = alloc_slotD[OF fork_alloc(4)] and E = psys_invD(2)[OF assms(2)]
  have T: "embryo T = (embryo S)(p := Some q)" "\<forall>r. state_of (tbl T) r = (if r = q then EMBRYO else state_of (tbl S) r)"
    using fork_alloc A by auto
  have old: "embryo S r = Some e \<Longrightarrow> r < NPROC \<and> e < NPROC \<and> e \<noteq> q \<and> r \<noteq> q \<and> state_of (tbl S) e = EMBRYO \<and>
      (state_of (tbl S) r = RUNNING \<or> state_of (tbl S) r = RUNNABLE)" for r e using E A(2) unfolding emb_inv_def by fastforce
  have p: "p < NPROC" "state_of (tbl S) p = RUNNING" "p \<noteq> q" using on_cpuD[OF assms(2) fork_alloc(2)] A(2) by auto
  have "\<exists>r. embryo T r = Some e" if "e < NPROC" "state_of (tbl T) e = EMBRYO" for e
  proof (cases "e = q")
    case False
    then have "state_of (tbl S) e = EMBRYO" using that T(2) by simp
    then obtain r where "embryo S r = Some e" using E \<open>e < NPROC\<close> unfolding emb_inv_def by blast
    then show ?thesis using T(1) fork_alloc(3) by (intro exI[of _ r]) auto
  qed (use T(1) in auto)
  moreover have "r = r'" if "embryo T r = Some e" "embryo T r' = Some e" for r r' e
    using that T(1) old E unfolding emb_inv_def by (auto split: if_splits)
  moreover have "r < NPROC \<and> e < NPROC \<and> state_of (tbl T) e = EMBRYO \<and> (state_of (tbl T) r = RUNNING \<or> state_of (tbl T) r = RUNNABLE)"
    if "embryo T r = Some e" for r e using that T old[of r e] p A(1) by (auto split: if_splits)
  ultimately show ?thesis unfolding emb_inv_def by blast
next
  case (fork_fail c p q)
  then show ?thesis using psys_invD(2)[OF assms(2)] by - (rule emb_inv_drop[of S p q], auto simp: table_defs)
next
  case (fork_done c p q)
  then show ?thesis using psys_invD(2)[OF assms(2)] by - (rule emb_inv_drop[of S p q], auto simp: table_defs)
next
  case (exit c p)
  then show ?thesis using psys_invD(2)[OF assms(2)] on_cpuD[OF assms(2) exit(2)] by - (rule emb_inv_same[of S], auto simp: exit_in_fields)
next
  case (wait_reap c p q h)
  then show ?thesis using psys_invD(2)[OF assms(2)] scan_table[OF wait_reap(3)] by - (rule emb_inv_same[of S], auto simp: table_defs)
next
  case (wait_sleep c p)
  then show ?thesis using psys_invD(2)[OF assms(2)] on_cpuD[OF assms(2) wait_sleep(2)] by - (rule emb_inv_same[of S], auto simp: table_defs)
qed

lemma pid_inv_alloc:
  assumes "pid_inv S" "alloc_slot (tbl S) = Some (q, tbl T)" "made T = Suc (made S)"
  shows "pid_inv T"
  unfolding pid_inv_def
proof
  assume n: "no_wrap T"
  then have "no_wrap S" using assms(3) by (simp add: no_wrap_def)
  then have S: "nextpid (tbl S) = int (made S) + 2" "pids_ok (tbl S)" using assms(1) by (simp_all add: pid_inv_def)
  note A = alloc_slotD[OF assms(2)]
  have "in_i32 (nextpid (tbl S) + 1)" using n assms(3) S(1) by (simp add: no_wrap_def in_i32_def)
  then have nx: "nextpid (tbl T) = nextpid (tbl S) + 1" using A(3) by simp
  have "p_pid (procs (tbl T) p) = (if p = q then nextpid (tbl S) else p_pid (procs (tbl S) p))"
    "state_of (tbl T) p = (if p = q then EMBRYO else state_of (tbl S) p)" for p
    using A(3) by auto
  then have "pids_ok (tbl T)" using S nx unfolding pids_ok_def by (auto split: if_splits)
  then show "nextpid (tbl T) = int (made T) + 2 \<and> pids_ok (tbl T)" using nx S(1) assms(3) by simp
qed

lemma pid_inv_step:
  assumes "psys_step S T" "psys_inv S"
  shows "pid_inv T"
  using assms(1)
proof cases
  case (fork_alloc c p q t)
  then show ?thesis using pid_inv_alloc[OF psys_invD(3)[OF assms(2)], of q T] by simp
next
  case (kill pid q t)
  then show ?thesis using psys_invD(3)[OF assms(2)] kill_inD[OF kill(2)] by - (rule pid_inv_same[of S], auto)
next
  case (fork_fail c p q)
  then show ?thesis using psys_invD(3)[OF assms(2)] by - (rule pid_inv_same[of S], auto simp: table_defs)
next
  case (fork_done c p q)
  then show ?thesis using psys_invD(3)[OF assms(2)] embryoD[OF assms(2) fork_done(3)] by - (rule pid_inv_same[of S], auto simp: table_defs)
next
  case (exit c p)
  then show ?thesis using psys_invD(3)[OF assms(2)] on_cpuD[OF assms(2) exit(2)]
    by - (rule pid_inv_same[of S], auto simp: exit_in_fields split: if_splits)
next
  case (wait_reap c p q h)
  then show ?thesis using psys_invD(3)[OF assms(2)] by - (rule pid_inv_same[of S], auto simp: table_defs)
next
  case (schedule c p)
  then show ?thesis using psys_invD(3)[OF assms(2)] by - (rule pid_inv_same[of S], auto simp: table_defs)
next
  case (yield c p)
  then show ?thesis using psys_invD(3)[OF assms(2)] on_cpuD[OF assms(2) yield(2)] by - (rule pid_inv_same[of S], auto simp: table_defs)
next
  case (sleep c p ch)
  then show ?thesis using psys_invD(3)[OF assms(2)] on_cpuD[OF assms(2) sleep(2)] by - (rule pid_inv_same[of S], auto simp: table_defs)
next
  case (wakeup ch)
  then show ?thesis using psys_invD(3)[OF assms(2)] by - (rule pid_inv_same[of S], auto simp: woken_state split: if_splits)
next
  case (wait_sleep c p)
  then show ?thesis using psys_invD(3)[OF assms(2)] on_cpuD[OF assms(2) wait_sleep(2)] by - (rule pid_inv_same[of S], auto simp: table_defs)
qed

lemma live_simps [simp]: "live SLEEPING" "live RUNNABLE" "live RUNNING" "\<not> live UNUSED" "\<not> live EMBRYO" "\<not> live ZOMBIE"
  by (simp_all add: live_def)

lemma tree_inv_fork:
  assumes "tree_inv t" "p < NPROC" "state_of t p = RUNNING" "q < NPROC" "state_of t q = EMBRYO"
  shows "tree_inv (set_state RUNNABLE q (set_proc q (\<lambda>r. r\<lparr>p_parent := Some p\<rparr>) t))" (is "tree_inv ?u")
proof -
  obtain i where i: "tree_ok t i" using assms(1) unfolding tree_inv_def by blast
  have st: "state_of ?u r = (if r = q then RUNNABLE else state_of t r)" for r by (simp add: table_defs)
  have pa: "p_parent (procs ?u r) = (if r = q then Some p else p_parent (procs t r))" for r by (simp add: table_defs)
  have iq: "i \<noteq> q" using tree_okD(3)[OF i] assms(5) by auto
  have "tree_ok ?u i"
  proof (rule tree_okI)
    show "r' < NPROC \<and> r' \<noteq> r \<and> live (state_of ?u r') \<and> (live (state_of ?u r) \<or> state_of ?u r = ZOMBIE)"
      if "r < NPROC" "p_parent (procs ?u r) = Some r'" for r r'
      using that tree_okD(5)[OF i, of r r'] assms(2-) by (auto simp: st pa split: if_splits)
    show "state_of ?u r = UNUSED \<or> state_of ?u r = EMBRYO \<or> r = i" if "r < NPROC" "p_parent (procs ?u r) = None" for r
      using that tree_okD(6)[OF i, of r] assms(2-) by (auto simp: st pa split: if_splits)
  qed (use tree_okD(1-4)[OF i] iq in \<open>simp_all add: st pa table_defs\<close>)
  then show ?thesis unfolding tree_inv_def by blast
qed

lemma tree_inv_reap:
  assumes "tree_inv t" "q < NPROC" "state_of t q = ZOMBIE"
  shows "tree_inv (reap q t)"
proof -
  obtain i where i: "tree_ok t i" using assms(1) unfolding tree_inv_def by blast
  have st: "state_of (reap q t) r = (if r = q then UNUSED else state_of t r)" for r by (simp add: table_defs)
  have pa: "p_parent (procs (reap q t) r) = (if r = q then None else p_parent (procs t r))" for r by (simp add: table_defs)
  have iq: "i \<noteq> q" using tree_okD(3)[OF i] assms(3) by auto
  have "tree_ok (reap q t) i"
  proof (rule tree_okI)
    show "r' < NPROC \<and> r' \<noteq> r \<and> live (state_of (reap q t) r') \<and> (live (state_of (reap q t) r) \<or> state_of (reap q t) r = ZOMBIE)"
      if "r < NPROC" "p_parent (procs (reap q t) r) = Some r'" for r r'
      using that tree_okD(5)[OF i, of r r'] assms(2-) by (auto simp: st pa split: if_splits)
    show "state_of (reap q t) r = UNUSED \<or> state_of (reap q t) r = EMBRYO \<or> r = i" if "r < NPROC" "p_parent (procs (reap q t) r) = None" for r
      using that tree_okD(6)[OF i, of r] assms(2-) by (auto simp: st pa split: if_splits)
  qed (use tree_okD(1-4)[OF i] iq in \<open>simp_all add: st pa table_defs\<close>)
  then show ?thesis unfolding tree_inv_def by blast
qed

lemma exit_in_live: "q < NPROC \<Longrightarrow> c < NPROC \<Longrightarrow> q \<noteq> c \<Longrightarrow> live (state_of (exit_in c t) q) \<longleftrightarrow> live (state_of t q)"
  by (auto simp: exit_in_fields live_def split: if_splits)

lemma exit_in_other: "q < NPROC \<Longrightarrow> c < NPROC \<Longrightarrow> q \<noteq> c \<Longrightarrow> st \<noteq> SLEEPING \<Longrightarrow> st \<noteq> RUNNABLE \<Longrightarrow>
    state_of (exit_in c t) q = st \<longleftrightarrow> state_of t q = st"
  by (auto simp: exit_in_fields split: if_splits)

lemma tree_ok_exit:
  assumes T: "tree_ok t i" and c: "c < NPROC" "state_of t c = RUNNING" "i \<noteq> c"
  shows "tree_ok (exit_in c t) i"
proof -
  let ?u = "exit_in c t"
  have i: "i < NPROC" "initproc t = Some i" "live (state_of t i)" "p_parent (procs t i) = None" using tree_okD(1-4)[OF T] .
  have S: "q < NPROC \<and> q \<noteq> p \<and> live (state_of ?u q) \<and> (live (state_of ?u p) \<or> state_of ?u p = ZOMBIE)"
    if p: "p < NPROC" and e: "p_parent (procs ?u p) = Some q" for p q
  proof -
    have own: "live (state_of ?u p) \<or> state_of ?u p = ZOMBIE" if "live (state_of t p) \<or> state_of t p = ZOMBIE"
      using that exit_in_live[OF p c(1)] exit_in_other[OF p c(1), of ZOMBIE] p c(1) by (cases "p = c") (auto simp: exit_in_fields)
    show ?thesis
    proof (cases "p_parent (procs t p) = Some c")
      case True
      then have "q = i" using e i(2) p c(1) by (simp add: exit_in_fields)
      then show ?thesis using tree_okD(5)[OF T p True] True p own i exit_in_live[OF i(1) c(1,3)] by auto
    next
      case False
      then have e': "p_parent (procs t p) = Some q" "q \<noteq> c" using e p c(1) by (auto simp: exit_in_fields)
      then have "q < NPROC \<and> q \<noteq> p \<and> live (state_of t q) \<and> (live (state_of t p) \<or> state_of t p = ZOMBIE)" using tree_okD(5)[OF T p] by simp
      then show ?thesis using own exit_in_live[OF _ c(1) e'(2)] by auto
    qed
  qed
  have N: "state_of ?u p = UNUSED \<or> state_of ?u p = EMBRYO \<or> p = i" if p: "p < NPROC" and e: "p_parent (procs ?u p) = None" for p
  proof -
    have "p_parent (procs t p) = None" using e p i(2) c(1) by (auto simp: exit_in_fields split: if_splits)
    then have "state_of t p = UNUSED \<or> state_of t p = EMBRYO \<or> p = i" using tree_okD(6)[OF T p] by simp
    then show ?thesis using c(2) exit_in_other[OF p c(1), of UNUSED t] exit_in_other[OF p c(1), of EMBRYO t] by (cases "p = c") auto
  qed
  show ?thesis by (rule tree_okI[OF i(1) _ _ _ S N]) (use i c exit_in_live[OF i(1) c(1,3)] in \<open>simp_all add: exit_in_fields\<close>)
qed

lemma tree_inv_exit:
  assumes "tree_inv t" "c < NPROC" "state_of t c = RUNNING" "initproc t \<noteq> Some c"
  shows "tree_inv (exit_in c t)"
proof -
  obtain i where i: "tree_ok t i" using assms(1) unfolding tree_inv_def by blast
  then have "i \<noteq> c" using assms(4) by (auto simp: tree_ok_def)
  then show ?thesis using tree_ok_exit[OF i assms(2,3)] unfolding tree_inv_def by blast
qed

lemma tree_inv_step:
  assumes "psys_step S T" "psys_inv S"
  shows "tree_inv (tbl T)"
  using assms(1)
proof cases
  case (fork_done c p q)
  then show ?thesis using tree_inv_fork[OF psys_invD(4)[OF assms(2)]] on_cpuD[OF assms(2) fork_done(2)] embryoD[OF assms(2) fork_done(3)] by simp
next
  case (exit c p)
  then show ?thesis using tree_inv_exit[OF psys_invD(4)[OF assms(2)]] on_cpuD[OF assms(2) exit(2)] by simp
next
  case (wait_reap c p q h)
  then show ?thesis using tree_inv_reap[OF psys_invD(4)[OF assms(2)]] scan_table[OF wait_reap(3)] by simp
next
  case (schedule c p)
  then show ?thesis using psys_invD(4)[OF assms(2)] by - (rule tree_inv_same[of "tbl S"], auto simp: table_defs)
next
  case (yield c p)
  then show ?thesis using psys_invD(4)[OF assms(2)] on_cpuD[OF assms(2) yield(2)] by - (rule tree_inv_same[of "tbl S"], auto simp: table_defs)
next
  case (sleep c p ch)
  then show ?thesis using psys_invD(4)[OF assms(2)] on_cpuD[OF assms(2) sleep(2)] by - (rule tree_inv_same[of "tbl S"], auto simp: table_defs)
next
  case (wakeup ch)
  then show ?thesis using psys_invD(4)[OF assms(2)] by - (rule tree_inv_same[of "tbl S"], auto simp: woken_state)
next
  case (kill pid q t)
  then show ?thesis using psys_invD(4)[OF assms(2)] kill_inD[OF kill(2)] by - (rule tree_inv_same[of "tbl S"], auto)
next
  case (fork_alloc c p q t)
  then show ?thesis using psys_invD(4)[OF assms(2)] alloc_slotD[OF fork_alloc(4)] by - (rule tree_inv_same[of "tbl S"], auto)
next
  case (fork_fail c p q)
  then show ?thesis using psys_invD(4)[OF assms(2)] embryoD[OF assms(2) fork_fail(3)] by - (rule tree_inv_same[of "tbl S"], auto simp: table_defs)
next
  case (wait_sleep c p)
  then show ?thesis using psys_invD(4)[OF assms(2)] on_cpuD[OF assms(2) wait_sleep(2)] by - (rule tree_inv_same[of "tbl S"], auto simp: table_defs)
qed


lemma wait_invI:
  assumes "\<And>p. p < NPROC \<Longrightarrow> state_of t p = SLEEPING \<Longrightarrow> p_chan (procs t p) \<noteq> None"
    "\<And>p r. p < NPROC \<Longrightarrow> state_of t p = SLEEPING \<Longrightarrow> p_chan (procs t p) = Some (ChProc r) \<Longrightarrow> r = p \<and> may_wait t p"
  shows "wait_inv t"
  unfolding wait_inv_def using assms by blast

lemma wait_invD:
  assumes "wait_inv t" "p < NPROC" "state_of t p = SLEEPING"
  shows "p_chan (procs t p) \<noteq> None" "p_chan (procs t p) = Some (ChProc r) \<Longrightarrow> r = p \<and> may_wait t p"
  using assms unfolding wait_inv_def by blast+

lemma wait_inv_sleep:
  assumes "wait_inv t" "state_of t p = RUNNING" "\<And>r. ch = ChProc r \<Longrightarrow> r = p \<and> may_wait t p"
  shows "wait_inv (sleep_in p ch t)"
proof (rule wait_invI)
  fix q r
  assume q: "q < NPROC" "state_of (sleep_in p ch t) q = SLEEPING" "p_chan (procs (sleep_in p ch t) q) = Some (ChProc r)"
  have "r = q \<and> may_wait t q"
  proof (cases "q = p")
    case True
    then show ?thesis using q(3) assms(3)[of r] by (simp add: sleep_in_def)
  next
    case False
    then show ?thesis using wait_invD(2)[OF assms(1) q(1)] q(2,3) by (simp add: sleep_in_def)
  qed
  moreover have "may_wait (sleep_in p ch t) q" if "may_wait t q"
    using may_wait_same[OF that] by (simp add: sleep_in_def)
  ultimately show "r = q \<and> may_wait (sleep_in p ch t) q" by blast
next
  fix q
  assume q: "q < NPROC" "state_of (sleep_in p ch t) q = SLEEPING"
  then show "p_chan (procs (sleep_in p ch t) q) \<noteq> None"
    using wait_invD(1)[OF assms(1) q(1)] by (cases "q = p") (simp_all add: sleep_in_def)
qed

lemma may_wait_fork:
  assumes "may_wait t r" "p_parent (procs t q) = None" "r \<noteq> p"
  shows "may_wait (set_state RUNNABLE q (set_proc q (\<lambda>r. r\<lparr>p_parent := Some p\<rparr>) t)) r"
proof -
  obtain k where k: "k < NPROC" "p_parent (procs t k) = Some r" using assms(1) unfolding may_wait_def by blast
  then have "k \<noteq> q" using assms(2) by auto
  then show ?thesis using assms k unfolding may_wait_def by (auto simp: table_defs split: if_splits)
qed

lemma may_wait_reap:
  assumes "may_wait t r" "p_parent (procs t q) \<noteq> Some r"
  shows "may_wait (reap q t) r"
proof -
  obtain k where k: "k < NPROC" "p_parent (procs t k) = Some r" using assms(1) unfolding may_wait_def by blast
  then have "k \<noteq> q" using assms(2) by auto
  then show ?thesis using assms k unfolding may_wait_def by (auto simp: table_defs split: if_splits)
qed

lemma may_wait_exit:
  assumes "may_wait t r" "r < NPROC" "c < NPROC" "r \<noteq> c" "state_of t r = SLEEPING" "p_chan (procs t r) = Some (ChProc r)"
    "state_of (exit_in c t) r = SLEEPING" "p_parent (procs t c) \<noteq> Some c"
  shows "may_wait (exit_in c t) r"
proof -
  have nz: "p_parent (procs t c) \<noteq> Some r" "initproc t = Some r \<Longrightarrow> p < NPROC \<Longrightarrow> p_parent (procs t p) = Some c \<Longrightarrow> state_of t p \<noteq> ZOMBIE" for p
    using assms(2-7) by (auto simp: exit_in_fields split: if_splits)
  obtain k where k: "k < NPROC" "p_parent (procs t k) = Some r" using assms(1) unfolding may_wait_def by blast
  then have "p_parent (procs (exit_in c t) k) = Some r" using assms(3,4) by (simp add: exit_in_fields)
  moreover have "state_of (exit_in c t) p \<noteq> ZOMBIE" if p: "p < NPROC" "p_parent (procs (exit_in c t) p) = Some r" for p
  proof -
    have pa: "if p_parent (procs t p) = Some c then initproc t = Some r else p_parent (procs t p) = Some r"
      using p assms(3) by (simp add: exit_in_fields split: if_splits)
    have "p \<noteq> c" using pa nz(1) assms(8) by (auto split: if_splits)
    moreover have "state_of t p \<noteq> ZOMBIE" using pa nz(2) p(1) assms(1) unfolding may_wait_def by (auto split: if_splits)
    ultimately show ?thesis using exit_in_other[OF p(1) assms(3), of ZOMBIE t] by simp
  qed
  ultimately show ?thesis using k(1) unfolding may_wait_def by blast
qed

lemma wait_inv_exit:
  assumes "wait_inv t" "tree_inv t" "c < NPROC" "state_of t c = RUNNING"
  shows "wait_inv (exit_in c t)"
proof (rule wait_invI)
  have cc: "p_parent (procs t c) \<noteq> Some c"
  proof -
    obtain i where "tree_ok t i" using assms(2) unfolding tree_inv_def by blast
    then show ?thesis using tree_okD(5)[of t i c c] assms(3) by blast
  qed
  fix p
  assume p: "p < NPROC" and s: "state_of (exit_in c t) p = SLEEPING"
  then have old: "state_of t p = SLEEPING" "p \<noteq> c" "p_chan (procs (exit_in c t) p) = p_chan (procs t p)"
    using assms(3) by (auto simp: exit_in_fields split: if_splits)
  show "p_chan (procs (exit_in c t) p) \<noteq> None" using wait_invD(1)[OF assms(1) p old(1)] old(3) by simp
  show "r = p \<and> may_wait (exit_in c t) p" if "p_chan (procs (exit_in c t) p) = Some (ChProc r)" for r
  proof -
    have "r = p" "may_wait t p" using wait_invD(2)[OF assms(1) p old(1)] that old(3) by auto
    then show ?thesis using may_wait_exit[OF _ p assms(3) old(2,1) _ s cc] that old(3) by simp
  qed
qed

lemma wait_inv_step:
  assumes "psys_step S T" "psys_inv S"
  shows "wait_inv (tbl T)"
proof -
  note W = psys_invD(5)[OF assms(2)]
  obtain i where i: "tree_ok (tbl S) i" using psys_invD(4)[OF assms(2)] unfolding tree_inv_def by blast
  show ?thesis using assms(1)
  proof cases
    case (sleep c p ch)
    have "wait_inv (sleep_in p ch (tbl S))"
      by (rule wait_inv_sleep[OF W]) (use sleep(4) on_cpuD[OF assms(2) sleep(2)] in auto)
    then show ?thesis using sleep(1) by simp
  next
    case (wait_sleep c p)
    then have "may_wait (tbl S) p" using scan_table_none[OF wait_sleep(4)] unfolding may_wait_def by blast
    then have "wait_inv (sleep_in p (ChProc p) (tbl S))"
      by (intro wait_inv_sleep[OF W]) (use on_cpuD[OF assms(2) wait_sleep(2)] in auto)
    then show ?thesis using wait_sleep(1) by simp
  next
    case (exit c p)
    then show ?thesis using wait_inv_exit[OF W psys_invD(4)[OF assms(2)]] on_cpuD[OF assms(2) exit(2)] by simp
  next
    case (fork_done c p q)
    let ?t = "set_state RUNNABLE q (set_proc q (\<lambda>r. r\<lparr>p_parent := Some p\<rparr>) (tbl S))"
    have q: "q < NPROC" "state_of (tbl S) q = EMBRYO" using embryoD[OF assms(2) fork_done(3)] by auto
    then have none: "p_parent (procs (tbl S) q) = None" using tree_okD(5)[OF i q(1)] by (cases "p_parent (procs (tbl S) q)") auto
    have "wait_inv ?t"
    proof (rule wait_invI)
      fix r
      assume r: "r < NPROC" "state_of ?t r = SLEEPING"
      then have old: "state_of (tbl S) r = SLEEPING" "procs ?t r = procs (tbl S) r" by (auto simp: table_defs split: if_splits)
      then have "r \<noteq> p" using on_cpuD[OF assms(2) fork_done(2)] by auto
      then show "p_chan (procs ?t r) \<noteq> None" "p_chan (procs ?t r) = Some (ChProc k) \<Longrightarrow> k = r \<and> may_wait ?t r" for k
        using wait_invD[OF W r(1) old(1)] old(2) may_wait_fork[OF _ none] by auto
    qed
    then show ?thesis using fork_done by simp
  next
    case (wait_reap c p q h)
    have q: "q < NPROC" "p_parent (procs (tbl S) q) = Some p" using scan_table[OF wait_reap(3)] by auto
    have "wait_inv (reap q (tbl S))"
    proof (rule wait_invI)
      fix r
      assume r: "r < NPROC" "state_of (reap q (tbl S)) r = SLEEPING"
      then have old: "state_of (tbl S) r = SLEEPING" "procs (reap q (tbl S)) r = procs (tbl S) r" by (auto simp: table_defs split: if_splits)
      then have "r \<noteq> p" using on_cpuD[OF assms(2) wait_reap(2)] by auto
      then show "p_chan (procs (reap q (tbl S)) r) \<noteq> None"
        "p_chan (procs (reap q (tbl S)) r) = Some (ChProc k) \<Longrightarrow> k = r \<and> may_wait (reap q (tbl S)) r" for k
        using wait_invD[OF W r(1) old(1)] old(2) may_wait_reap[of "tbl S" r q] q(2) by auto
    qed
    then show ?thesis using wait_reap by simp
  next
    case (schedule c p)
    then show ?thesis using W by - (rule wait_inv_same[of "tbl S"], auto simp: table_defs)
  next
    case (yield c p)
    then show ?thesis using W by - (rule wait_inv_same[of "tbl S"], auto simp: table_defs)
  next
    case (wakeup ch)
    then show ?thesis using W by - (rule wait_inv_same[of "tbl S"], auto simp: woken_state split: if_splits)
  next
    case (kill pid q t)
    then show ?thesis using W kill_inD[OF kill(2)] by - (rule wait_inv_same[of "tbl S"], auto)
  next
    case (fork_alloc c p q t)
    then show ?thesis using W alloc_slotD[OF fork_alloc(4)] by - (rule wait_inv_same[of "tbl S"], auto)
  next
    case (fork_fail c p q)
    then show ?thesis using W by - (rule wait_inv_same[of "tbl S"], auto simp: table_defs)
  qed
qed

subsection \<open>Reachable tables\<close>

text \<open>
  The table after \<^verbatim>\<open>userinit\<close>: the first process in the first entry, every other entry unused. \<open>d\<close> is
  what the unused fields of the table hold.
\<close>

definition boot_table :: "proc \<Rightarrow> ptable" where
  "boot_table d =
     (let e = d\<lparr>p_state := UNUSED, p_pid := 0, p_parent := None, p_chan := None, p_killed := False\<rparr>;
          t = \<lparr>procs = (\<lambda>_. e), initproc = None, nextpid = 1\<rparr>
      in case alloc_slot t of
           None \<Rightarrow> t
         | Some (p, t) \<Rightarrow> set_state RUNNABLE p (t\<lparr>initproc := Some p\<rparr>))"

definition boot_psys :: "proc \<Rightarrow> psys" where
  "boot_psys d = \<lparr>tbl = boot_table d, on_cpu = (\<lambda>_. None), embryo = (\<lambda>_. None), made = 0\<rparr>"

inductive psys_reach :: "psys \<Rightarrow> bool" where
  boot: "psys_reach (boot_psys d)"
| step: "psys_reach S \<Longrightarrow> psys_step S T \<Longrightarrow> psys_reach T"

lemma boot_table_eq:
  defines "e d \<equiv> d\<lparr>p_state := UNUSED, p_pid := 0, p_parent := None, p_chan := None, p_killed := False\<rparr>"
  shows "boot_table d = \<lparr>procs = (\<lambda>_. e d)(0 := (e d)\<lparr>p_pid := 1, p_state := RUNNABLE\<rparr>), initproc = Some 0, nextpid = 2\<rparr>"
proof -
  have "find (\<lambda>p. True) [0..<NPROC] = Some 0" by (simp add: NPROC_def upt_conv_Cons)
  then show ?thesis by (simp add: boot_table_def alloc_slot_def set_state_def set_proc_def e_def Let_def in_i32_def)
qed

lemma boot_psys_inv: "psys_inv (boot_psys d)"
proof -
  have "tree_ok (boot_table d) 0" by (rule tree_okI) (auto simp: boot_table_eq NPROC_def split: if_splits)
  then show ?thesis
    by (auto simp: psys_inv_def cpu_inv_def emb_inv_def pid_inv_def pids_ok_def no_wrap_def tree_inv_def wait_inv_def boot_psys_def boot_table_eq split: if_splits)
qed

lemma reach_inv: "psys_reach S \<Longrightarrow> psys_inv S"
proof (induction rule: psys_reach.induct)
  case (step S T)
  then show ?case unfolding psys_inv_def[of T]
    using cpu_inv_step emb_inv_step pid_inv_step tree_inv_step wait_inv_step by blast
qed (rule boot_psys_inv)


text \<open>
  C5. In every interleaving of the critical sections of \<^verbatim>\<open>proc.c\<close> on any number of processors: a processor runs only a process
  marked as running, and every such process runs on exactly one processor; every half-made process belongs to exactly one
  process in \<^verbatim>\<open>fork\<close>; process ids in use are positive and different until the counter of process ids, a 32-bit \<^verbatim>\<open>int\<close>, has
  wrapped around; and the first process never exits, while
  every other live or exited process has a live parent that can reap it.
\<close>

theorem process_table_invariant:
  assumes "psys_reach S"
  shows "(\<forall>c p. on_cpu S c = Some p \<longrightarrow> p < NPROC \<and> state_of (tbl S) p = RUNNING) \<and>
    (\<forall>p < NPROC. state_of (tbl S) p = RUNNING \<longrightarrow> (\<exists>!c. on_cpu S c = Some p)) \<and>
    (\<forall>q < NPROC. state_of (tbl S) q = EMBRYO \<longrightarrow> (\<exists>!p. embryo S p = Some q)) \<and>
    (no_wrap S \<longrightarrow> (\<forall>p < NPROC. \<forall>q < NPROC. p \<noteq> q \<and> state_of (tbl S) p \<noteq> UNUSED \<and> state_of (tbl S) q \<noteq> UNUSED \<longrightarrow>
      0 < p_pid (procs (tbl S) p) \<and> p_pid (procs (tbl S) p) \<noteq> p_pid (procs (tbl S) q))) \<and>
    (\<exists>i < NPROC. initproc (tbl S) = Some i \<and> live (state_of (tbl S) i) \<and>
      (\<forall>p < NPROC. p \<noteq> i \<and> (live (state_of (tbl S) p) \<or> state_of (tbl S) p = ZOMBIE) \<longrightarrow>
        (\<exists>q < NPROC. p_parent (procs (tbl S) p) = Some q \<and> live (state_of (tbl S) q))))"
proof (intro conjI)
  note I = psys_invD[OF reach_inv[OF assms]]
  show "\<forall>c p. on_cpu S c = Some p \<longrightarrow> p < NPROC \<and> state_of (tbl S) p = RUNNING"
    "\<forall>p < NPROC. state_of (tbl S) p = RUNNING \<longrightarrow> (\<exists>!c. on_cpu S c = Some p)" using I(1) unfolding cpu_inv_def by blast+
  show "\<forall>q < NPROC. state_of (tbl S) q = EMBRYO \<longrightarrow> (\<exists>!p. embryo S p = Some q)" using I(2) unfolding emb_inv_def by blast
  show "no_wrap S \<longrightarrow> (\<forall>p < NPROC. \<forall>q < NPROC. p \<noteq> q \<and> state_of (tbl S) p \<noteq> UNUSED \<and> state_of (tbl S) q \<noteq> UNUSED \<longrightarrow>
      0 < p_pid (procs (tbl S) p) \<and> p_pid (procs (tbl S) p) \<noteq> p_pid (procs (tbl S) q))" using I(3) unfolding pid_inv_def pids_ok_def by blast
  obtain i where i: "tree_ok (tbl S) i" using I(4) unfolding tree_inv_def by blast
  have "\<exists>q < NPROC. p_parent (procs (tbl S) p) = Some q \<and> live (state_of (tbl S) q)"
    if "p < NPROC" "p \<noteq> i" "live (state_of (tbl S) p) \<or> state_of (tbl S) p = ZOMBIE" for p
    using that tree_okD(6)[OF i that(1)] tree_okD(5)[OF i that(1)] by (cases "p_parent (procs (tbl S) p)") auto
  then show "\<exists>i < NPROC. initproc (tbl S) = Some i \<and> live (state_of (tbl S) i) \<and>
      (\<forall>p < NPROC. p \<noteq> i \<and> (live (state_of (tbl S) p) \<or> state_of (tbl S) p = ZOMBIE) \<longrightarrow>
        (\<exists>q < NPROC. p_parent (procs (tbl S) p) = Some q \<and> live (state_of (tbl S) q)))"
    using tree_okD(1-3)[OF i] by blast
qed

text \<open>
  C4. No exit is missed by \<^verbatim>\<open>wait\<close>: whenever a process is asleep in \<^verbatim>\<open>wait\<close>, it has a child and none of its children has exited,
  and when one of them exits the process is made runnable in the same critical section.
\<close>

theorem wait_no_lost_exit:
  assumes "psys_reach S" "p < NPROC" "state_of (tbl S) p = SLEEPING" "p_chan (procs (tbl S) p) = Some (ChProc r)"
  shows "r = p \<and> (\<exists>q < NPROC. p_parent (procs (tbl S) q) = Some p) \<and>
    (\<forall>q < NPROC. p_parent (procs (tbl S) q) = Some p \<longrightarrow> state_of (tbl S) q \<noteq> ZOMBIE \<and> state_of (exit_in q (tbl S)) p = RUNNABLE)"
proof -
  note I = psys_invD[OF reach_inv[OF assms(1)]]
  have w: "r = p" "may_wait (tbl S) p" using wait_invD(2)[OF I(5) assms(2,3,4)] by auto
  obtain i where i: "tree_ok (tbl S) i" using I(4) unfolding tree_inv_def by blast
  have "state_of (exit_in q (tbl S)) p = RUNNABLE" if "q < NPROC" "p_parent (procs (tbl S) q) = Some p" for q
    using tree_okD(5)[OF i that] that assms(2-4) w(1) by (auto simp: exit_in_fields)
  then show ?thesis using w unfolding may_wait_def by blast
qed

text \<open>
  C22. \<^verbatim>\<open>kill\<close> compares process ids without looking at the state, and an unused entry has process id 0: \<^verbatim>\<open>kill(0)\<close> marks the
  entry that the next \<^verbatim>\<open>fork\<close> takes as killed, and the new process starts out killed.
\<close>

theorem kill_zero_dooms_next_fork:
  assumes "psys_reach S" "no_wrap S" "alloc_slot (tbl S) = Some (q, t)" "p_pid (procs (tbl S) q) = 0"
  shows "\<exists>u v. kill_in 0 (tbl S) = Some (q, u) \<and> alloc_slot u = Some (q, v) \<and> p_killed (procs v q) \<and> state_of v q = EMBRYO"
proof -
  have f: "find (\<lambda>p. state_of (tbl S) p = UNUSED) [0..<NPROC] = Some q" using assms(3) by (auto simp: alloc_slot_def)
  then have q: "q < NPROC" "state_of (tbl S) q = UNUSED" "\<forall>r < q. state_of (tbl S) r \<noteq> UNUSED" by (auto simp: find_Some_iff)
  have "p_pid (procs (tbl S) r) \<noteq> 0" if "r < q" for r
  proof -
    have "state_of (tbl S) r \<noteq> UNUSED" "r < NPROC" using that q by auto
    then have "0 < p_pid (procs (tbl S) r)" using psys_invD(3)[OF reach_inv[OF assms(1)]] assms(2) unfolding pid_inv_def pids_ok_def by blast
    then show ?thesis by simp
  qed
  then have k: "find (\<lambda>p. p_pid (procs (tbl S) p) = 0) [0..<NPROC] = Some q" using q(1) assms(4) by (intro find_least) auto
  define u where "u = set_proc q (\<lambda>r. r\<lparr>p_killed := True, p_state := (if p_state r = SLEEPING then RUNNABLE else p_state r)\<rparr>) (tbl S)"
  have "state_of u r = UNUSED \<longleftrightarrow> state_of (tbl S) r = UNUSED" for r using q(2) by (simp add: u_def)
  then have "alloc_slot u = Some (q, (set_proc q (\<lambda>r. r\<lparr>p_state := EMBRYO, p_pid := nextpid u\<rparr>) u)\<lparr>nextpid := i32 (nextpid u + 1)\<rparr>)"
    using f by (simp add: alloc_slot_def)
  moreover have "kill_in 0 (tbl S) = Some (q, u)" using k by (simp add: kill_in_def u_def)
  ultimately show ?thesis using q(2) by (auto simp: u_def)
qed

subsection \<open>A run\<close>

text \<open>The first process is scheduled, forks and waits for its child.\<close>

definition demo_forked :: "proc \<Rightarrow> psys" where
  "demo_forked d =
     (let e = d\<lparr>p_state := UNUSED, p_pid := 0, p_parent := None, p_chan := None, p_killed := False\<rparr>
      in \<lparr>tbl = \<lparr>procs = (\<lambda>_. e)(0 := e\<lparr>p_pid := 1, p_state := RUNNING\<rparr>, 1 := e\<lparr>p_pid := 2, p_parent := Some 0, p_state := RUNNABLE\<rparr>),
                 initproc = Some 0, nextpid = 3\<rparr>,
          on_cpu = (\<lambda>_. None)(0 := Some 0), embryo = (\<lambda>_. None), made = 1\<rparr>)"

lemma demo_forked_reach: "psys_reach (demo_forked d)"
proof -
  let ?S = "boot_psys d"
  let ?S1 = "?S\<lparr>tbl := set_state RUNNING 0 (tbl ?S), on_cpu := (on_cpu ?S)(0 := Some 0)\<rparr>"
  have 1: "psys_reach ?S1"
    by (rule psys_reach.step[OF psys_reach.boot], rule psys_step.schedule) (simp_all add: boot_psys_def boot_table_eq NPROC_def)
  define t where "t = (set_proc 1 (\<lambda>r. r\<lparr>p_state := EMBRYO, p_pid := 2\<rparr>) (tbl ?S1))\<lparr>nextpid := 3\<rparr>"
  have "find (\<lambda>p. state_of (tbl ?S1) p = UNUSED) [0..<NPROC] = Some 1"
    by (rule find_least) (auto simp: boot_psys_def boot_table_eq set_state_def NPROC_def)
  then have a: "alloc_slot (tbl ?S1) = Some (1, t)" by (simp add: alloc_slot_def t_def) (simp add: boot_psys_def boot_table_eq set_state_def in_i32_def)
  let ?S2 = "?S1\<lparr>tbl := t, embryo := (embryo ?S1)(0 := Some 1), made := Suc (made ?S1)\<rparr>"
  have 2: "psys_reach ?S2"
    by (rule psys_reach.step[OF 1], rule psys_step.fork_alloc[of _ 0 0, OF _ _ a]) (simp_all add: boot_psys_def)
  let ?S3 = "?S2\<lparr>tbl := set_state RUNNABLE 1 (set_proc 1 (\<lambda>r. r\<lparr>p_parent := Some 0\<rparr>) (tbl ?S2)), embryo := (embryo ?S2)(0 := None)\<rparr>"
  have 3: "psys_reach ?S3"
    by (rule psys_reach.step[OF 2], rule psys_step.fork_done[of _ 0 0 1]) (simp_all add: boot_psys_def)
  have "?S3 = demo_forked d"
    by (auto simp: demo_forked_def t_def boot_psys_def boot_table_eq set_state_def set_proc_def Let_def fun_eq_iff)
  then show ?thesis using 3 by simp
qed

definition demo_waiting :: "proc \<Rightarrow> psys" where
  "demo_waiting d = (demo_forked d)\<lparr>tbl := sleep_in 0 (ChProc 0) (tbl (demo_forked d)), on_cpu := (\<lambda>_. None)\<rparr>"

lemma demo_waiting_reach: "psys_reach (demo_waiting d)"
proof -
  let ?S = "demo_forked d"
  let ?T = "?S\<lparr>tbl := sleep_in 0 (ChProc 0) (tbl ?S), on_cpu := (on_cpu ?S)(0 := None)\<rparr>"
  have one: "p_parent (procs (tbl ?S) p) = (if p = 1 then Some 0 else None)" "state_of (tbl ?S) 1 = RUNNABLE" for p
    by (simp_all add: demo_forked_def Let_def)
  have "wait_scan 0 (tbl ?S) ps h = (None, h \<or> 1 \<in> set ps)" for ps h
    by (induction ps arbitrary: h) (auto simp: one)
  then have "wait_scan 0 (tbl ?S) [0..<NPROC] False = (None, True)" by (simp add: NPROC_def)
  then have "psys_reach ?T"
    by (intro psys_reach.step[OF demo_forked_reach[of d]] psys_step.wait_sleep) (simp_all add: demo_forked_def Let_def)
  moreover have "?T = demo_waiting d" by (simp add: demo_waiting_def demo_forked_def Let_def fun_eq_iff)
  ultimately show ?thesis by simp
qed

text \<open>An entry of zeros.\<close>

definition proc0 :: proc where
  "proc0 = \<lparr>p_sz = 0, p_pgdir = 0, p_kstack = 0, p_state = UNUSED, p_pid = 0, p_parent = None,
     p_tf = \<lparr>tf_edi = 0, tf_esi = 0, tf_ebp = 0, tf_oesp = 0, tf_ebx = 0, tf_edx = 0, tf_ecx = 0, tf_eax = 0, tf_gs = 0, tf_fs = 0,
       tf_es = 0, tf_ds = 0, tf_trapno = 0, tf_err = 0, tf_eip = 0, tf_cs = 0, tf_eflags = 0, tf_esp = 0, tf_ss = 0\<rparr>,
     p_retaddr = 0, p_context = \<lparr>c_edi = 0, c_esi = 0, c_ebx = 0, c_ebp = 0, c_eip = 0\<rparr>, p_chan = None, p_killed = False,
     p_ofile = (\<lambda>_. None), p_cwd = None, p_name = []\<rparr>"

theorem process_table_invariant_witness:
  "state_of (tbl (demo_forked proc0)) 0 = RUNNING \<and> (\<exists>!c. on_cpu (demo_forked proc0) c = Some 0) \<and>
    (\<exists>q < NPROC. p_parent (procs (tbl (demo_forked proc0)) 1) = Some q \<and> live (state_of (tbl (demo_forked proc0)) q))"
proof -
  let ?S = "demo_forked proc0"
  have s: "state_of (tbl ?S) 0 = RUNNING" "state_of (tbl ?S) 1 = RUNNABLE" "initproc (tbl ?S) = Some 0" by (simp_all add: demo_forked_def Let_def)
  note T = process_table_invariant[OF demo_forked_reach[of proc0]]
  have n: "0 < NPROC" "1 < NPROC" by (simp_all add: NPROC_def)
  have "\<exists>!c. on_cpu ?S c = Some 0" by (rule T[THEN conjunct2, THEN conjunct1, rule_format, OF n(1) s(1)])
  moreover have "\<exists>q < NPROC. p_parent (procs (tbl ?S) 1) = Some q \<and> live (state_of (tbl ?S) q)"
    using T[THEN conjunct2, THEN conjunct2, THEN conjunct2, THEN conjunct2] n(2) s(2,3) by (elim exE conjE) auto
  ultimately show ?thesis using s(1) by blast
qed

theorem wait_no_lost_exit_witness:
  "state_of (tbl (demo_waiting proc0)) 0 = SLEEPING \<and> (\<exists>q < NPROC. p_parent (procs (tbl (demo_waiting proc0)) q) = Some 0) \<and>
    state_of (exit_in 1 (tbl (demo_waiting proc0))) 0 = RUNNABLE"
proof -
  let ?S = "demo_waiting proc0"
  have s: "state_of (tbl ?S) 0 = SLEEPING" "p_chan (procs (tbl ?S) 0) = Some (ChProc 0)" "p_parent (procs (tbl ?S) 1) = Some 0"
    by (simp_all add: demo_waiting_def demo_forked_def sleep_in_def Let_def)
  have "0 < NPROC" "1 < NPROC" by (simp_all add: NPROC_def)
  then show ?thesis using wait_no_lost_exit[OF demo_waiting_reach[of proc0] _ s(1,2)] s by blast
qed

theorem kill_zero_dooms_next_fork_witness:
  "\<exists>u v. kill_in 0 (tbl (demo_forked proc0)) = Some (2, u) \<and> alloc_slot u = Some (2, v) \<and> p_killed (procs v 2) \<and> state_of v 2 = EMBRYO"
proof -
  let ?t = "tbl (demo_forked proc0)"
  have "find (\<lambda>p. state_of ?t p = UNUSED) [0..<NPROC] = Some 2"
    by (rule find_least) (auto simp: demo_forked_def Let_def NPROC_def)
  then obtain u where "alloc_slot ?t = Some (2, u)" by (simp add: alloc_slot_def)
  moreover have "p_pid (procs ?t 2) = 0" by (simp add: demo_forked_def Let_def)
  moreover have "no_wrap (demo_forked proc0)" by (simp add: no_wrap_def demo_forked_def Let_def)
  ultimately show ?thesis using kill_zero_dooms_next_fork[OF demo_forked_reach] by blast
qed

end
