(* ===== verification/Proc.thy ===== *)
theory Proc
  imports Ptable
begin

text \<open>
  The process calls of \<^verbatim>\<open>src/proc.c\<close> and the process part of \<^verbatim>\<open>src/vm.c\<close> and \<^verbatim>\<open>src/sysproc.c\<close>, over the critical sections of
  \<open>Ptable\<close>. While a process runs, the fields of its table entry that system calls use (size, saved stack
  pointer and result register, killed flag, files, directory, name) are the \<open>cur\<close> fields of the state;
  \<open>load_proc\<close> and \<open>save_proc\<close> copy them when the scheduler switches. What happens between leaving the processor and coming back is
  the argument \<open>away\<close>.
\<close>

unbundle bit_operations_syntax

section \<open>State\<close>

record kernel_syms =
  k_end :: u32
  k_data :: u32
  k_forkret :: u32
  k_trapret :: u32
  k_initcode_start :: u32
  k_initcode_size :: u32

record proc_state = file_state +
  pt :: ptable
  cur_proc :: "nat option"
  pt_held :: bool
  cpu_ncli :: int
  cpu_intena :: bool
  int_on :: bool
  kpgdir :: u32
  cr3 :: u32
  ts_esp0 :: u32
  first_ret :: bool
  ticks :: u32

definition upd_pt :: "(ptable \<Rightarrow> ptable) \<Rightarrow> 's proc_state_scheme \<Rightarrow> 's proc_state_scheme" where
  "upd_pt f s = s\<lparr>pt := f (pt s)\<rparr>"

abbreviation proc_at :: "'s proc_state_scheme \<Rightarrow> nat \<Rightarrow> proc" where "proc_at s p \<equiv> procs (pt s) p"

definition load_proc :: "nat \<Rightarrow> 's proc_state_scheme \<Rightarrow> 's proc_state_scheme" where
  "load_proc p s =
     (let q = proc_at s p
      in s\<lparr>cur_pid := p_pid q, cur_name := p_name q, cur_sz := p_sz q, cur_esp := tf_esp (p_tf q), cur_eax := tf_eax (p_tf q),
           cur_killed := p_killed q, cur_ofile := p_ofile q, cur_cwd := (case p_cwd q of Some i \<Rightarrow> i | None \<Rightarrow> cur_cwd s)\<rparr>)"

definition cur_tf :: "nat \<Rightarrow> 's proc_state_scheme \<Rightarrow> trapframe" where
  "cur_tf p s = (p_tf (proc_at s p))\<lparr>tf_esp := cur_esp s, tf_eax := cur_eax s\<rparr>"

definition save_proc :: "nat \<Rightarrow> 's proc_state_scheme \<Rightarrow> 's proc_state_scheme" where
  "save_proc p s =
     upd_pt (set_proc p (\<lambda>q. q\<lparr>p_name := cur_name s, p_sz := cur_sz s, p_tf := cur_tf p s, p_killed := cur_killed s,
       p_ofile := cur_ofile s, p_cwd := map_option (\<lambda>_. cur_cwd s) (p_cwd q)\<rparr>)) s"

section \<open>The lock of the table\<close>

definition pushcli_here :: "'s proc_state_scheme \<Rightarrow> 's proc_state_scheme" where
  "pushcli_here s = s\<lparr>cpu_intena := (if cpu_ncli s = 0 then int_on s else cpu_intena s), cpu_ncli := i32 (cpu_ncli s + 1), int_on := False\<rparr>"

definition popcli_here :: "'s proc_state_scheme \<Rightarrow> (unit, 's proc_state_scheme) outcome" where
  "popcli_here s =
     (if int_on s then Panic ''popcli - interruptible''
      else if i32 (cpu_ncli s - 1) < 0 then Panic ''popcli''
      else Ret () (s\<lparr>cpu_ncli := i32 (cpu_ncli s - 1), int_on := (i32 (cpu_ncli s - 1) = 0 \<and> cpu_intena s)\<rparr>))"

definition acquire_pt :: "'s proc_state_scheme \<Rightarrow> (unit, 's proc_state_scheme) outcome" where
  "acquire_pt s = (if pt_held s then Panic ''acquire'' else Ret () ((pushcli_here s)\<lparr>pt_held := True\<rparr>))"

definition release_pt :: "'s proc_state_scheme \<Rightarrow> (unit, 's proc_state_scheme) outcome" where
  "release_pt s = (if \<not> pt_held s then Panic ''release'' else popcli_here (s\<lparr>pt_held := False\<rparr>))"

text \<open>A critical section of the table.\<close>

definition locked_pt :: "('s proc_state_scheme \<Rightarrow> 'a \<times> 's proc_state_scheme) \<Rightarrow> 's proc_state_scheme \<Rightarrow> ('a, 's proc_state_scheme) outcome" where
  "locked_pt f s =
     bindO (acquire_pt s) (\<lambda>_ s. case f s of (r, s) \<Rightarrow> bindO (release_pt s) (\<lambda>_ s. Ret r s))"

section \<open>Address spaces of processes\<close>

definition switchkvm :: "'s proc_state_scheme \<Rightarrow> 's proc_state_scheme" where
  "switchkvm s = s\<lparr>cr3 := V2P (kpgdir s)\<rparr>"

definition kvmalloc :: "kernel_syms \<Rightarrow> 's proc_state_scheme \<Rightarrow> (unit, 's proc_state_scheme) outcome" where
  "kvmalloc K s = bindO (setupkvm (k_end K) (k_data K) s) (\<lambda>d s. Ret () (switchkvm (s\<lparr>kpgdir := d\<rparr>)))"

definition switchuvm :: "nat option \<Rightarrow> 's proc_state_scheme \<Rightarrow> (unit, 's proc_state_scheme) outcome" where
  "switchuvm p s =
     (case p of
        None \<Rightarrow> Panic ''switchuvm: no process''
      | Some p \<Rightarrow>
          if p_kstack (proc_at s p) = 0 then Panic ''switchuvm: no kstack''
          else if p_pgdir (proc_at s p) = 0 then Panic ''switchuvm: no pgdir''
          else popcli_here ((pushcli_here s)\<lparr>ts_esp0 := p_kstack (proc_at s p) + of_nat KSTACKSIZE, cr3 := V2P (p_pgdir (proc_at s p))\<rparr>))"

section \<open>Creating processes\<close>

definition allocproc :: "kernel_syms \<Rightarrow> 's proc_state_scheme \<Rightarrow> (nat option, 's proc_state_scheme) outcome" where
  "allocproc K s =
     bindO (locked_pt (\<lambda>s. case alloc_slot (pt s) of None \<Rightarrow> (None, s) | Some (p, t) \<Rightarrow> (Some p, s\<lparr>pt := t\<rparr>)) s) (\<lambda>r s.
       case r of
         None \<Rightarrow> Ret None s
       | Some p \<Rightarrow>
           bindO (kalloc s) (\<lambda>k s.
             let s = upd_pt (set_proc p (\<lambda>q. q\<lparr>p_kstack := k\<rparr>)) s
             in if k = 0 then Ret None (upd_pt (set_state UNUSED p) s)
                else Ret (Some p) (upd_pt (set_proc p (\<lambda>q. q\<lparr>p_retaddr := k_trapret K,
                       p_context := \<lparr>c_edi = 0, c_esi = 0, c_ebx = 0, c_ebp = 0, c_eip = k_forkret K\<rparr>\<rparr>)) s)))"

text \<open>The selectors are \<^verbatim>\<open>(SEG_UCODE << 3) | DPL_USER\<close> and \<^verbatim>\<open>(SEG_UDATA << 3) | DPL_USER\<close>.\<close>

definition init_tf :: trapframe where
  "init_tf = \<lparr>tf_edi = 0, tf_esi = 0, tf_ebp = 0, tf_oesp = 0, tf_ebx = 0, tf_edx = 0, tf_ecx = 0, tf_eax = 0, tf_gs = 0, tf_fs = 0,
     tf_es = push_bit 3 4 OR 3, tf_ds = push_bit 3 4 OR 3, tf_trapno = 0, tf_err = 0, tf_eip = 0, tf_cs = push_bit 3 3 OR 3,
     tf_eflags = 0x200, tf_esp = PGSIZE, tf_ss = push_bit 3 4 OR 3\<rparr>"

definition userinit :: "kernel_syms \<Rightarrow> 's proc_state_scheme \<Rightarrow> (unit, 's proc_state_scheme) outcome" where
  "userinit K s =
     bindO (allocproc K s) (\<lambda>r s.
     case r of
       None \<Rightarrow> Fault ''userinit: null process''
     | Some p \<Rightarrow>
         bindO (setupkvm (k_end K) (k_data K) (upd_pt (\<lambda>t. t\<lparr>initproc := Some p\<rparr>) s)) (\<lambda>d s.
         let s = upd_pt (set_proc p (\<lambda>q. q\<lparr>p_pgdir := d\<rparr>)) s
         in if d = 0 then Panic ''userinit: out of memory?''
            else
              bindO (inituvm d (k_initcode_start K) (k_initcode_size K) s) (\<lambda>_ s.
              let s = upd_pt (set_proc p (\<lambda>q. q\<lparr>p_sz := PGSIZE, p_tf := init_tf, p_name := ''initcode''\<rparr>)) s
              in bindO (namei [47] s) (\<lambda>i s.
                 let s = upd_pt (set_proc p (\<lambda>q. q\<lparr>p_cwd := i\<rparr>)) s
                 in locked_pt (\<lambda>s. ((), upd_pt (set_state RUNNABLE p) s)) s))))"

definition growproc :: "platform \<Rightarrow> kernel_syms \<Rightarrow> int \<Rightarrow> 's proc_state_scheme \<Rightarrow> (int, 's proc_state_scheme) outcome" where
  "growproc P K n s =
     (case cur_proc s of
        None \<Rightarrow> Fault ''growproc: no process''
      | Some p \<Rightarrow>
          let sz = cur_sz s; pgdir = p_pgdir (proc_at s p)
          in bindO (if 0 < n then bindO (allocuvm P (k_end K) pgdir sz (sz + word_of_int n) s) (\<lambda>r s. Ret (if r = 0 then None else Some r) s)
                    else if n < 0 then bindO (deallocuvm (k_end K) pgdir sz (sz + word_of_int n) s) (\<lambda>r s. Ret (if r = 0 then None else Some r) s)
                    else Ret (Some sz) s) (\<lambda>r s.
               case r of
                 None \<Rightarrow> Ret (-1) s
               | Some sz \<Rightarrow> bindO (switchuvm (Some p) (s\<lparr>cur_sz := sz\<rparr>)) (\<lambda>_ s. Ret 0 s)))"

fun dup_files :: "nat \<Rightarrow> nat list \<Rightarrow> 's proc_state_scheme \<Rightarrow> (unit, 's proc_state_scheme) outcome" where
  "dup_files np [] s = Ret () s"
| "dup_files np (i # is) s =
     (case cur_ofile s i of
        None \<Rightarrow> dup_files np is s
      | Some f \<Rightarrow>
          bindO (filedup f s) (\<lambda>_ s.
            dup_files np is (upd_pt (set_proc np (\<lambda>q. q\<lparr>p_ofile := (p_ofile q)(i := Some f)\<rparr>)) s)))"

definition fork :: "kernel_syms \<Rightarrow> 's proc_state_scheme \<Rightarrow> (int, 's proc_state_scheme) outcome" where
  "fork K s =
     (case cur_proc s of
        None \<Rightarrow> Fault ''fork: no process''
      | Some p \<Rightarrow>
     bindO (allocproc K s) (\<lambda>r s.
     case r of
       None \<Rightarrow> Ret (-1) s
     | Some np \<Rightarrow>
         bindO (copyuvm (k_end K) (k_data K) (p_pgdir (proc_at s p)) (cur_sz s) s) (\<lambda>d s.
         let s = upd_pt (set_proc np (\<lambda>q. q\<lparr>p_pgdir := d\<rparr>)) s
         in if d = 0 then
              bindO (kfree (k_end K) (p_kstack (proc_at s np)) s) (\<lambda>_ s.
                Ret (-1) (upd_pt (set_proc np (\<lambda>q. q\<lparr>p_kstack := 0, p_state := UNUSED\<rparr>)) s))
            else
              let s = upd_pt (set_proc np (\<lambda>q. q\<lparr>p_sz := cur_sz s, p_parent := Some p, p_tf := (cur_tf p s)\<lparr>tf_eax := 0\<rparr>\<rparr>)) s
              in bindO (dup_files np [0..<NOFILE] s) (\<lambda>_ s.
                 let s = upd_pt (set_proc np (\<lambda>q. q\<lparr>p_cwd := Some (cur_cwd s), p_name := take 15 (cur_name s)\<rparr>)) (idup (cur_cwd s) s);
                     pid = p_pid (proc_at s np)
                 in bindO (locked_pt (\<lambda>s. ((), upd_pt (set_state RUNNABLE np) s)) s) (\<lambda>_ s. Ret pid s)))))"

section \<open>Leaving the processor\<close>

definition sched :: "'s proc_state_scheme \<Rightarrow> (unit, 's proc_state_scheme) outcome" where
  "sched s =
     (case cur_proc s of
        None \<Rightarrow> Fault ''sched: no process''
      | Some p \<Rightarrow>
          if \<not> pt_held s then Panic ''sched ptable.lock''
          else if cpu_ncli s \<noteq> 1 then Panic ''sched locks''
          else if state_of (pt s) p = RUNNING then Panic ''sched running''
          else if int_on s then Panic ''sched interruptible''
          else Ret () ((save_proc p s)\<lparr>cur_proc := None\<rparr>))"

text \<open>Coming back, the processor has its old interrupt setting again.\<close>

definition sched_then :: "('s proc_state_scheme \<Rightarrow> 's proc_state_scheme) \<Rightarrow> 's proc_state_scheme \<Rightarrow> (unit, 's proc_state_scheme) outcome" where
  "sched_then away s = bindO (sched s) (\<lambda>_ t. Ret () ((away t)\<lparr>cpu_intena := cpu_intena s\<rparr>))"

definition yield :: "('s proc_state_scheme \<Rightarrow> 's proc_state_scheme) \<Rightarrow> 's proc_state_scheme \<Rightarrow> (unit, 's proc_state_scheme) outcome" where
  "yield away s =
     (case cur_proc s of
        None \<Rightarrow> Fault ''yield: no process''
      | Some p \<Rightarrow>
          bindO (acquire_pt s) (\<lambda>_ s.
          bindO (sched_then away (upd_pt (set_state RUNNABLE p) s)) (\<lambda>_ s.
            release_pt s)))"

text \<open>The lock that is passed to \<^verbatim>\<open>sleep\<close>: none, the lock of the table, or another one.\<close>

datatype sleep_lk = NoLk | PtableLk | OtherLk

definition sleep :: "('s proc_state_scheme \<Rightarrow> 's proc_state_scheme) \<Rightarrow> chan \<Rightarrow> sleep_lk \<Rightarrow> 's proc_state_scheme \<Rightarrow>
    (unit, 's proc_state_scheme) outcome" where
  "sleep away ch lk s =
     (case cur_proc s of
        None \<Rightarrow> Panic ''sleep''
      | Some p \<Rightarrow>
          if lk = NoLk then Panic ''sleep without lk''
          else
            bindO (if lk \<noteq> PtableLk then bindO (acquire_pt s) (\<lambda>_ s. popcli_here s) else Ret () s) (\<lambda>_ s.
            bindO (sched_then away (upd_pt (sleep_in p ch) s)) (\<lambda>_ s.
            let s = upd_pt (set_proc p (\<lambda>q. q\<lparr>p_chan := None\<rparr>)) s
            in if lk \<noteq> PtableLk then bindO (release_pt s) (\<lambda>_ s. Ret () (pushcli_here s)) else Ret () s)))"

definition wakeup :: "chan \<Rightarrow> 's proc_state_scheme \<Rightarrow> (unit, 's proc_state_scheme) outcome" where
  "wakeup ch s = locked_pt (\<lambda>s. ((), upd_pt (wakeup1 (Some ch)) s)) s"

text \<open>The calls of \<^verbatim>\<open>wakeup\<close> that the other components made, in order.\<close>

definition deliver :: "'s proc_state_scheme \<Rightarrow> 's proc_state_scheme" where
  "deliver s = (upd_pt (fold (\<lambda>ch. wakeup1 (Some ch)) (wakeups s)) s)\<lparr>wakeups := []\<rparr>"

definition kill :: "int \<Rightarrow> 's proc_state_scheme \<Rightarrow> (int, 's proc_state_scheme) outcome" where
  "kill pid s =
     locked_pt (\<lambda>s. case kill_in pid (pt s) of
         None \<Rightarrow> (-1, s)
       | Some (p, t) \<Rightarrow> (0, s\<lparr>pt := t, cur_killed := (cur_killed s \<or> cur_proc s = Some p)\<rparr>)) s"

section \<open>Exiting and waiting\<close>

fun close_files :: "u32 \<Rightarrow> nat list \<Rightarrow> 's file_state_scheme \<Rightarrow> (unit, 's file_state_scheme) outcome" where
  "close_files kend [] s = Ret () s"
| "close_files kend (fd # fds) s =
     (case cur_ofile s fd of
        None \<Rightarrow> close_files kend fds s
      | Some f \<Rightarrow> bindO (fileclose kend f s) (\<lambda>_ s. close_files kend fds (s\<lparr>cur_ofile := (cur_ofile s)(fd := None)\<rparr>)))"

text \<open>\<^verbatim>\<open>exit\<close> up to the switch to the scheduler, which never comes back.\<close>

definition exit :: "kernel_syms \<Rightarrow> 's proc_state_scheme \<Rightarrow> (unit, 's proc_state_scheme) outcome" where
  "exit K s =
     (case cur_proc s of
        None \<Rightarrow> Fault ''exit: no process''
      | Some p \<Rightarrow>
          if initproc (pt s) = Some p then Panic ''init exiting''
          else
            bindO (close_files (k_end K) [0..<NOFILE] s) (\<lambda>_ s.
            bindO (begin_op s) (\<lambda>_ s.
            bindO (iput (cur_cwd s) s) (\<lambda>_ s.
            bindO (end_op s) (\<lambda>_ s.
            let s = upd_pt (set_proc p (\<lambda>q. q\<lparr>p_cwd := None\<rparr>)) s
            in bindO (acquire_pt s) (\<lambda>_ s.
                 sched (upd_pt (exit_in p) s)))))))"

text \<open>\<open>envs\<close> holds what happens while \<^verbatim>\<open>wait\<close> sleeps, each time with the lock of the table held before and after.\<close>

fun wait_loop :: "kernel_syms \<Rightarrow> ('s proc_state_scheme \<Rightarrow> 's proc_state_scheme) list \<Rightarrow> nat \<Rightarrow> 's proc_state_scheme \<Rightarrow>
    (int, 's proc_state_scheme) outcome" where
  "wait_loop K envs p s =
     (case wait_scan p (pt s) [0..<NPROC] False of
        (Some q, _) \<Rightarrow>
          let pid = p_pid (proc_at s q)
          in bindO (kfree (k_end K) (p_kstack (proc_at s q)) s) (\<lambda>_ s.
             let s = upd_pt (set_proc q (\<lambda>r. r\<lparr>p_kstack := 0\<rparr>)) s
             in bindO (freevm (k_end K) (p_pgdir (proc_at s q)) s) (\<lambda>_ s.
                bindO (release_pt (upd_pt (reap q) s)) (\<lambda>_ s. Ret pid s)))
      | (None, havekids) \<Rightarrow>
          if \<not> havekids \<or> cur_killed s then bindO (release_pt s) (\<lambda>_ s. Ret (-1) s)
          else (case envs of
                  [] \<Rightarrow> Block (ChProc p) s
                | e # envs \<Rightarrow> bindO (sleep e (ChProc p) PtableLk s) (\<lambda>_ s. wait_loop K envs p s)))"

declare wait_loop.simps [simp del]

definition wait :: "kernel_syms \<Rightarrow> ('s proc_state_scheme \<Rightarrow> 's proc_state_scheme) list \<Rightarrow> 's proc_state_scheme \<Rightarrow>
    (int, 's proc_state_scheme) outcome" where
  "wait K envs s =
     (case cur_proc s of
        None \<Rightarrow> Fault ''wait: no process''
      | Some p \<Rightarrow> bindO (acquire_pt s) (\<lambda>_ s. wait_loop K envs p s))"

section \<open>The scheduler\<close>

text \<open>\<open>run p\<close> is what happens from the switch to process \<open>p\<close> until it switches back.\<close>

fun scheduler_loop :: "(nat \<Rightarrow> 's proc_state_scheme \<Rightarrow> 's proc_state_scheme) \<Rightarrow> nat list \<Rightarrow> 's proc_state_scheme \<Rightarrow>
    (unit, 's proc_state_scheme) outcome" where
  "scheduler_loop run [] s = Ret () s"
| "scheduler_loop run (p # ps) s =
     (if state_of (pt s) p \<noteq> RUNNABLE then scheduler_loop run ps s
      else
        bindO (switchuvm (Some p) (s\<lparr>cur_proc := Some p\<rparr>)) (\<lambda>_ s.
          let s = run p (load_proc p (upd_pt (set_state RUNNING p) s))
          in scheduler_loop run ps ((switchkvm s)\<lparr>cur_proc := None\<rparr>)))"

text \<open>One turn of the endless loop.\<close>

definition scheduler_turn :: "(nat \<Rightarrow> 's proc_state_scheme \<Rightarrow> 's proc_state_scheme) \<Rightarrow> 's proc_state_scheme \<Rightarrow>
    (unit, 's proc_state_scheme) outcome" where
  "scheduler_turn run s =
     bindO (acquire_pt (s\<lparr>int_on := True\<rparr>)) (\<lambda>_ s.
     bindO (scheduler_loop run [0..<NPROC] s) (\<lambda>_ s.
       release_pt s))"

definition forkret :: "platform \<Rightarrow> 's proc_state_scheme \<Rightarrow> (unit, 's proc_state_scheme) outcome" where
  "forkret P s =
     bindO (release_pt s) (\<lambda>_ s.
       if first_ret s then
         bindO (iinit P ROOTDEV (s\<lparr>first_ret := False\<rparr>)) (\<lambda>_ s. initlog ROOTDEV s)
       else Ret () s)"

section \<open>System calls\<close>

definition sys_fork :: "kernel_syms \<Rightarrow> 's proc_state_scheme \<Rightarrow> (int, 's proc_state_scheme) outcome" where
  "sys_fork K s = fork K s"

definition sys_exit :: "kernel_syms \<Rightarrow> 's proc_state_scheme \<Rightarrow> (int, 's proc_state_scheme) outcome" where
  "sys_exit K s = bindO (exit K s) (\<lambda>_ s. Ret 0 s)"

definition sys_wait :: "kernel_syms \<Rightarrow> ('s proc_state_scheme \<Rightarrow> 's proc_state_scheme) list \<Rightarrow> 's proc_state_scheme \<Rightarrow>
    (int, 's proc_state_scheme) outcome" where
  "sys_wait K envs s = wait K envs s"

definition sys_kill :: "'s proc_state_scheme \<Rightarrow> (int, 's proc_state_scheme) outcome" where
  "sys_kill s = (case argint 0 s of None \<Rightarrow> Ret (-1) s | Some pid \<Rightarrow> kill pid s)"

definition sys_getpid :: "'s proc_state_scheme \<Rightarrow> (int, 's proc_state_scheme) outcome" where
  "sys_getpid s = Ret (cur_pid s) s"

definition sys_sbrk :: "platform \<Rightarrow> kernel_syms \<Rightarrow> 's proc_state_scheme \<Rightarrow> (int, 's proc_state_scheme) outcome" where
  "sys_sbrk P K s =
     (case argint 0 s of
        None \<Rightarrow> Ret (-1) s
      | Some n \<Rightarrow>
          let addr = sint (cur_sz s)
          in bindO (growproc P K n s) (\<lambda>r s. Ret (if r < 0 then -1 else addr) s))"

text \<open>The comparison \<^verbatim>\<open>ticks - ticks0 < n\<close> is unsigned.\<close>

fun sleep_loop :: "('s proc_state_scheme \<Rightarrow> 's proc_state_scheme) list \<Rightarrow> u32 \<Rightarrow> u32 \<Rightarrow> 's proc_state_scheme \<Rightarrow>
    (int, 's proc_state_scheme) outcome" where
  "sleep_loop envs ticks0 n s =
     (if ticks s - ticks0 < n then
        (if cur_killed s then Ret (-1) s
         else case envs of
                [] \<Rightarrow> Block ChTicks s
              | e # envs \<Rightarrow> sleep_loop envs ticks0 n (e s))
      else Ret 0 s)"

declare sleep_loop.simps [simp del]

definition sys_sleep :: "('s proc_state_scheme \<Rightarrow> 's proc_state_scheme) list \<Rightarrow> 's proc_state_scheme \<Rightarrow> (int, 's proc_state_scheme) outcome" where
  "sys_sleep envs s =
     (case argint 0 s of None \<Rightarrow> Ret (-1) s | Some n \<Rightarrow> sleep_loop envs (ticks s) (word_of_int n) s)"

definition sys_uptime :: "'s proc_state_scheme \<Rightarrow> (int, 's proc_state_scheme) outcome" where
  "sys_uptime s = Ret (sint (ticks s)) s"

end
