(* ===== verification/Exec.thy ===== *)
theory Exec
  imports Proc
begin

text \<open>
  \<^verbatim>\<open>src/exec.c\<close>, and the call \<^verbatim>\<open>sys_exec\<close> of \<^verbatim>\<open>src/sysfile.c\<close>. The local structures \<^verbatim>\<open>elf\<close>, \<^verbatim>\<open>ph\<close> and \<^verbatim>\<open>ustack\<close> lie on the
  kernel stack; \<open>exec_frame\<close> holds their addresses. The path is its bytes in user memory and \<open>argv\<close> the list of
  pointers before the null pointer that ends it.
\<close>

unbundle bit_operations_syntax

definition ELF_MAGIC :: u32 where "ELF_MAGIC = 0x464C457F"
definition ELF_PROG_LOAD :: u32 where "ELF_PROG_LOAD = 1"

record exec_frame =
  x_elf :: u32
  x_ph :: u32
  x_ustack :: u32

record elfhdr =
  eh_magic :: u32
  eh_entry :: u32
  eh_phoff :: u32
  eh_phnum :: u16

text \<open>The fields that are used, at their offsets in the 52 bytes of \<^verbatim>\<open>struct elfhdr\<close> and the 32 bytes of \<^verbatim>\<open>struct proghdr\<close>.\<close>

definition load16 :: "memory \<Rightarrow> u32 \<Rightarrow> u16" where
  "load16 m a = ucast (m a) OR push_bit 8 (ucast (m (a + 1)))"

definition elfhdr_at :: "memory \<Rightarrow> u32 \<Rightarrow> elfhdr" where
  "elfhdr_at m a = \<lparr>eh_magic = load32 m a, eh_entry = load32 m (a + 24), eh_phoff = load32 m (a + 28), eh_phnum = load16 m (a + 44)\<rparr>"

record proghdr =
  ph_type :: u32
  ph_off :: u32
  ph_vaddr :: u32
  ph_filesz :: u32
  ph_memsz :: u32

definition proghdr_at :: "memory \<Rightarrow> u32 \<Rightarrow> proghdr" where
  "proghdr_at m a = \<lparr>ph_type = load32 m a, ph_off = load32 m (a + 4), ph_vaddr = load32 m (a + 8),
     ph_filesz = load32 m (a + 16), ph_memsz = load32 m (a + 20)\<rparr>"

definition cleanupexec :: "u32 \<Rightarrow> u32 \<Rightarrow> nat option \<Rightarrow> 's fs_state_scheme \<Rightarrow> (unit, 's fs_state_scheme) outcome" where
  "cleanupexec kend pgdir ip s =
     bindO (if pgdir \<noteq> 0 then freevm kend pgdir s else Ret () s) (\<lambda>_ s.
       case ip of
         None \<Rightarrow> Ret () s
       | Some i \<Rightarrow> bindO (iunlockput i s) (\<lambda>_ s. end_op s))"

text \<open>What a failed step of \<^verbatim>\<open>exec\<close> does, as a result of type option for the steps that follow.\<close>

definition exec_fail :: "u32 \<Rightarrow> u32 \<Rightarrow> nat option \<Rightarrow> 's fs_state_scheme \<Rightarrow> ('a option, 's fs_state_scheme) outcome" where
  "exec_fail kend pgdir ip s = bindO (cleanupexec kend pgdir ip s) (\<lambda>_ s. Ret None s)"

text \<open>The loop over the program headers; \<open>n\<close> is how many are left. Its result is the size of the process.\<close>

fun exec_load :: "platform \<Rightarrow> u32 \<Rightarrow> exec_frame \<Rightarrow> ('s fs_state_scheme \<Rightarrow> 's fs_state_scheme) list \<Rightarrow> nat \<Rightarrow> u32 \<Rightarrow> nat \<Rightarrow> u32 \<Rightarrow> u32 \<Rightarrow>
    's fs_state_scheme \<Rightarrow> (u32 option, 's fs_state_scheme) outcome" where
  "exec_load P kend X envs ip pgdir 0 off sz s = Ret (Some sz) s"
| "exec_load P kend X envs ip pgdir (Suc n) off sz s =
     bindO (readi envs ip (x_ph X) off 32 s) (\<lambda>r s.
     if r \<noteq> 32 then exec_fail kend pgdir (Some ip) s
     else
       let ph = proghdr_at (mem s) (x_ph X)
       in if ph_type ph \<noteq> ELF_PROG_LOAD then exec_load P kend X envs ip pgdir n (off + 32) sz s
          else if ph_memsz ph < ph_filesz ph then exec_fail kend pgdir (Some ip) s
          else if ph_vaddr ph + ph_memsz ph < ph_vaddr ph then exec_fail kend pgdir (Some ip) s
          else
            bindO (allocuvm P kend pgdir sz (ph_vaddr ph + ph_memsz ph) s) (\<lambda>sz s.
            if sz = 0 then exec_fail kend pgdir (Some ip) s
            else if ph_vaddr ph mod PGSIZE \<noteq> 0 then exec_fail kend pgdir (Some ip) s
            else
              bindO (loaduvm envs pgdir (ph_vaddr ph) ip (ph_off ph) (ph_filesz ph) s) (\<lambda>r s.
              if r < 0 then exec_fail kend pgdir (Some ip) s
              else exec_load P kend X envs ip pgdir n (off + 32) sz s)))"

text \<open>The loop that pushes the argument strings; the result is the stack pointer and the list of their addresses.\<close>

fun push_args :: "u32 \<Rightarrow> u32 \<Rightarrow> u32 list \<Rightarrow> nat \<Rightarrow> u32 \<Rightarrow> 's fs_state_scheme \<Rightarrow> ((u32 \<times> u32 list) option, 's fs_state_scheme) outcome" where
  "push_args kend pgdir [] argc sp s = Ret (Some (sp, [])) s"
| "push_args kend pgdir (arg # args) argc sp s =
     (if MAXARG \<le> argc then exec_fail kend pgdir None s
      else case strlen (mem s) arg of
        None \<Rightarrow> Fault ''strlen: no end''
      | Some n \<Rightarrow>
          let sp = (sp - (of_nat n + 1)) AND NOT 3
          in bindO (copyout pgdir sp arg (of_nat n + 1) s) (\<lambda>r s.
               if r < 0 then exec_fail kend pgdir None s
               else
                 bindO (push_args kend pgdir args (Suc argc) sp s) (\<lambda>r s.
                   Ret (map_option (\<lambda>(sp', ps). (sp', sp # ps)) r) s)))"

fun store_words :: "u32 \<Rightarrow> u32 list \<Rightarrow> memory \<Rightarrow> memory" where
  "store_words a [] m = m"
| "store_words a (w # ws) m = store_words (a + 4) ws (store32 m a w)"

text \<open>The part of the path after the last slash.\<close>

fun last_name :: "u8 list \<Rightarrow> u8 list \<Rightarrow> u8 list" where
  "last_name nm [] = nm"
| "last_name nm (c # cs) = (if c = 47 then last_name cs cs else last_name nm cs)"

definition exec_commit :: "kernel_syms \<Rightarrow> nat \<Rightarrow> u8 list \<Rightarrow> u32 \<Rightarrow> u32 \<Rightarrow> u32 \<Rightarrow> u32 \<Rightarrow> 's proc_state_scheme \<Rightarrow> (int, 's proc_state_scheme) outcome" where
  "exec_commit K p path pgdir sz entry sp s =
     (let name = take 15 (map (\<lambda>b. char_of (unat b)) (last_name path path));
          oldpgdir = p_pgdir (proc_at s p);
          s = upd_pt (set_proc p (\<lambda>q. q\<lparr>p_pgdir := pgdir, p_tf := (p_tf q)\<lparr>tf_eip := entry\<rparr>\<rparr>)) s;
          s = s\<lparr>cur_name := name, cur_sz := sz, cur_esp := sp\<rparr>
      in bindO (switchuvm (Some p) s) (\<lambda>_ s.
         bindO (freevm (k_end K) oldpgdir s) (\<lambda>_ s. Ret 0 s)))"

text \<open>The second half of \<^verbatim>\<open>exec\<close>: the stack, its contents, and the switch to the new image.\<close>

definition exec_stack :: "platform \<Rightarrow> kernel_syms \<Rightarrow> exec_frame \<Rightarrow> nat \<Rightarrow> u8 list \<Rightarrow> u32 list \<Rightarrow> u32 \<Rightarrow> u32 \<Rightarrow> u32 \<Rightarrow> 's proc_state_scheme \<Rightarrow>
    (int, 's proc_state_scheme) outcome" where
  "exec_stack P K X p path argv pgdir entry sz s =
     (let sz = PGROUNDUP sz
      in bindO (allocuvm P (k_end K) pgdir sz (sz + 2 * PGSIZE) s) (\<lambda>sz s.
         if sz = 0 then bindO (cleanupexec (k_end K) pgdir None s) (\<lambda>_ s. Ret (-1) s)
         else
           bindO (clearpteu pgdir (sz - 2 * PGSIZE) s) (\<lambda>_ s.
           bindO (push_args (k_end K) pgdir argv 0 sz s) (\<lambda>r s.
           case r of
             None \<Rightarrow> Ret (-1) s
           | Some (sp, ptrs) \<Rightarrow>
               let argc = of_nat (length ptrs);
                   ustack = [0xffffffff, argc, sp - (argc + 1) * 4] @ ptrs @ [0];
                   sp = sp - (3 + argc + 1) * 4
               in bindO (copyout pgdir sp (x_ustack X) ((3 + argc + 1) * 4) (s\<lparr>mem := store_words (x_ustack X) ustack (mem s)\<rparr>)) (\<lambda>r s.
                  if r < 0 then bindO (cleanupexec (k_end K) pgdir None s) (\<lambda>_ s. Ret (-1) s)
                  else exec_commit K p path pgdir sz entry sp s)))))"

definition exec :: "platform \<Rightarrow> kernel_syms \<Rightarrow> exec_frame \<Rightarrow> ('s proc_state_scheme \<Rightarrow> 's proc_state_scheme) list \<Rightarrow> u8 list \<Rightarrow> u32 list \<Rightarrow>
    's proc_state_scheme \<Rightarrow> (int, 's proc_state_scheme) outcome" where
  "exec P K X envs path argv s =
     (case cur_proc s of
        None \<Rightarrow> Fault ''exec: no process''
      | Some p \<Rightarrow>
     bindO (begin_op s) (\<lambda>_ s.
     bindO (namei path s) (\<lambda>r s.
     case r of
       None \<Rightarrow> bindO (end_op s) (\<lambda>_ s. bindO (cprintf P ''exec: fail\<newline>'' [] s) (\<lambda>_ s. Ret (-1) s))
     | Some ip \<Rightarrow>
         bindO (ilock ip s) (\<lambda>_ s.
         bindO (readi envs ip (x_elf X) 0 52 s) (\<lambda>r s.
         let elf = elfhdr_at (mem s) (x_elf X)
         in if r \<noteq> 52 then bindO (cleanupexec (k_end K) 0 (Some ip) s) (\<lambda>_ s. Ret (-1) s)
            else if eh_magic elf \<noteq> ELF_MAGIC then bindO (cleanupexec (k_end K) 0 (Some ip) s) (\<lambda>_ s. Ret (-1) s)
            else
              bindO (setupkvm (k_end K) (k_data K) s) (\<lambda>pgdir s.
              if pgdir = 0 then bindO (cleanupexec (k_end K) 0 (Some ip) s) (\<lambda>_ s. Ret (-1) s)
              else
                bindO (exec_load P (k_end K) X envs ip pgdir (unat (eh_phnum elf)) (eh_phoff elf) 0 s) (\<lambda>r s.
                case r of
                  None \<Rightarrow> Ret (-1) s
                | Some sz \<Rightarrow>
                    bindO (iunlockput ip s) (\<lambda>_ s.
                    bindO (end_op s) (\<lambda>_ s.
                      exec_stack P K X p path argv pgdir (eh_entry elf) sz s)))))))))"

definition sys_exec :: "platform \<Rightarrow> kernel_syms \<Rightarrow> exec_frame \<Rightarrow> ('s proc_state_scheme \<Rightarrow> 's proc_state_scheme) list \<Rightarrow>
    's proc_state_scheme \<Rightarrow> (int, 's proc_state_scheme) outcome" where
  "sys_exec P K X envs s =
     (case argpath 0 s of
        None \<Rightarrow> Ret (-1) s
      | Some path \<Rightarrow>
     (case argint 1 s of
        None \<Rightarrow> Ret (-1) s
      | Some uargv \<Rightarrow>
     (case exec_args (word_of_int uargv) 0 s of
        None \<Rightarrow> Ret (-1) s
      | Some argv \<Rightarrow> exec P K X envs path argv s)))"

end
