(* ===== verification/Spinlock.thy ===== *)
theory Spinlock
  imports Kalloc
begin

text \<open>
  Spin locks and interrupt nesting, \<^verbatim>\<open>src/spinlock.c\<close>, with \<^verbatim>\<open>mycpu\<close> and
  \<^verbatim>\<open>cpuid\<close> of \<^verbatim>\<open>src/proc.c\<close>. The processors run in parallel, so
  \<^verbatim>\<open>acquire\<close> and \<^verbatim>\<open>release\<close> are cut where another processor can be
  observed: around the atomic exchange and around the store that frees the lock.
  The relation \<open>lock_step\<close> interleaves these pieces. A processor is named by its hardware
  number; \<open>lapic_ids\<close> is what \<^verbatim>\<open>lapicid\<close> reads on it and \<open>if_flag\<close> its
  interrupt flag.
\<close>

section \<open>State\<close>

record cpu =
  apicid :: u8
  ncli :: int
  intena :: bool

record spinlock =
  locked :: u32
  lk_name :: string
  lk_cpu :: "nat option"
  pcs :: "u32 list"

record spin_state =
  cpus :: "cpu list"
  ncpu :: nat
  lapic_ids :: "nat \<Rightarrow> u8"
  if_flag :: "nat \<Rightarrow> bool"
  lk :: spinlock

section \<open>Operations\<close>

definition initlock :: "spinlock \<Rightarrow> string \<Rightarrow> spinlock" where
  "initlock l name = l\<lparr>lk_name := name, locked := 0, lk_cpu := None\<rparr>"

definition mycpu :: "nat \<Rightarrow> spin_state \<Rightarrow> (nat, spin_state) outcome" where
  "mycpu hw s =
     (if if_flag s hw then Panic (''mycpu called with interrupts enabled'' @ [CHR 0x0A])
      else case scan (\<lambda>c. apicid c = lapic_ids s hw) (take (ncpu s) (cpus s)) of
        Some i \<Rightarrow> Ret i s
      | None \<Rightarrow> Panic (''unknown apicid'' @ [CHR 0x0A]))"

text \<open>\<^verbatim>\<open>cpuid\<close> is the index of the entry that \<^verbatim>\<open>mycpu\<close> points to.\<close>

definition cpuid :: "nat \<Rightarrow> spin_state \<Rightarrow> (nat, spin_state) outcome" where
  "cpuid hw s = mycpu hw s"

definition upd_cpu :: "nat \<Rightarrow> (cpu \<Rightarrow> cpu) \<Rightarrow> spin_state \<Rightarrow> spin_state" where
  "upd_cpu i f s = s\<lparr>cpus := (cpus s)[i := f (cpus s ! i)]\<rparr>"

definition pushcli :: "nat \<Rightarrow> spin_state \<Rightarrow> (unit, spin_state) outcome" where
  "pushcli hw s =
     (let eflags = if_flag s hw;
          s = s\<lparr>if_flag := (if_flag s)(hw := False)\<rparr>
      in bindO (mycpu hw s) (\<lambda>i s.
         let s = (if ncli (cpus s ! i) = 0 then upd_cpu i (\<lambda>c. c\<lparr>intena := eflags\<rparr>) s else s)
         in Ret () (upd_cpu i (\<lambda>c. c\<lparr>ncli := i32 (ncli c + 1)\<rparr>) s)))"

definition popcli :: "nat \<Rightarrow> spin_state \<Rightarrow> (unit, spin_state) outcome" where
  "popcli hw s =
     (if if_flag s hw then Panic ''popcli - interruptible''
      else bindO (mycpu hw s) (\<lambda>i s.
        let s = upd_cpu i (\<lambda>c. c\<lparr>ncli := i32 (ncli c - 1)\<rparr>) s
        in if ncli (cpus s ! i) < 0 then Panic ''popcli''
           else if ncli (cpus s ! i) = 0 \<and> intena (cpus s ! i)
           then Ret () (s\<lparr>if_flag := (if_flag s)(hw := True)\<rparr>)
           else Ret () s))"

definition holding :: "nat \<Rightarrow> spin_state \<Rightarrow> (bool, spin_state) outcome" where
  "holding hw s =
     bindO (pushcli hw s) (\<lambda>_ s.
     bindO (mycpu hw s) (\<lambda>i s.
     let r = (locked (lk s) \<noteq> 0 \<and> lk_cpu (lk s) = Some i)
     in bindO (popcli hw s) (\<lambda>_ s. Ret r s)))"

text \<open>
  \<^verbatim>\<open>getcallerpcs\<close> follows the saved frame pointers from the caller's frame; \<open>m\<close> is
  the memory and \<open>v\<close> the address of the first argument.
\<close>

fun callerpcs_loop :: "memory \<Rightarrow> u32 \<Rightarrow> nat \<Rightarrow> u32 list" where
  "callerpcs_loop m ebp 0 = []"
| "callerpcs_loop m ebp (Suc n) =
     (if ebp = 0 \<or> ebp < KERNBASE \<or> ebp = 0xffffffff then replicate (Suc n) 0
      else load32 m (ebp + 4) # callerpcs_loop m (load32 m ebp) n)"

definition getcallerpcs :: "memory \<Rightarrow> u32 \<Rightarrow> u32 list" where
  "getcallerpcs m v = callerpcs_loop m (v - 8) 10"

text \<open>
  \<^verbatim>\<open>acquire\<close>: \<open>acquire_enter\<close> up to the loop, \<open>acquire_xchg\<close> one atomic exchange
  (its value is the old content of the lock word), \<open>acquire_done\<close> after the loop.
\<close>

definition acquire_enter :: "nat \<Rightarrow> spin_state \<Rightarrow> (unit, spin_state) outcome" where
  "acquire_enter hw s =
     bindO (pushcli hw s) (\<lambda>_ s.
     bindO (holding hw s) (\<lambda>r s. if r then Panic ''acquire'' else Ret () s))"

definition acquire_xchg :: "spin_state \<Rightarrow> u32 \<times> spin_state" where
  "acquire_xchg s = (locked (lk s), s\<lparr>lk := (lk s)\<lparr>locked := 1\<rparr>\<rparr>)"

definition acquire_done :: "memory \<Rightarrow> u32 \<Rightarrow> nat \<Rightarrow> spin_state \<Rightarrow> (unit, spin_state) outcome" where
  "acquire_done m v hw s =
     bindO (mycpu hw s) (\<lambda>i s.
       Ret () (s\<lparr>lk := (lk s)\<lparr>lk_cpu := Some i, pcs := getcallerpcs m v\<rparr>\<rparr>))"

text \<open>\<^verbatim>\<open>release\<close>: \<open>release_check\<close> up to the fence, \<open>release_store\<close> from it on.\<close>

definition release_check :: "nat \<Rightarrow> spin_state \<Rightarrow> (unit, spin_state) outcome" where
  "release_check hw s =
     bindO (holding hw s) (\<lambda>r s.
       if \<not> r then Panic ''release''
       else Ret () (s\<lparr>lk := (lk s)\<lparr>pcs := (pcs (lk s))[0 := 0], lk_cpu := None\<rparr>\<rparr>))"

definition release_store :: "nat \<Rightarrow> spin_state \<Rightarrow> (unit, spin_state) outcome" where
  "release_store hw s = popcli hw (s\<lparr>lk := (lk s)\<lparr>locked := 0\<rparr>\<rparr>)"

section \<open>Interleaving\<close>

text \<open>Where a processor is with respect to the lock.\<close>

datatype lock_pc = Outside | Spinning | Got | Inside | Leaving

record sys_state =
  spin :: spin_state
  pc :: "nat \<Rightarrow> lock_pc"

inductive lock_step :: "sys_state \<Rightarrow> sys_state \<Rightarrow> bool" where
  step_enter: "hw < ncpu (spin s) \<Longrightarrow> pc s hw = Outside \<Longrightarrow>
    acquire_enter hw (spin s) = Ret () t \<Longrightarrow>
    lock_step s (s\<lparr>spin := t, pc := (pc s)(hw := Spinning)\<rparr>)"
| step_xchg: "hw < ncpu (spin s) \<Longrightarrow> pc s hw = Spinning \<Longrightarrow>
    acquire_xchg (spin s) = (old, t) \<Longrightarrow>
    lock_step s (s\<lparr>spin := t, pc := (pc s)(hw := if old \<noteq> 0 then Spinning else Got)\<rparr>)"
| step_done: "hw < ncpu (spin s) \<Longrightarrow> pc s hw = Got \<Longrightarrow>
    acquire_done m v hw (spin s) = Ret () t \<Longrightarrow>
    lock_step s (s\<lparr>spin := t, pc := (pc s)(hw := Inside)\<rparr>)"
| step_check: "hw < ncpu (spin s) \<Longrightarrow> pc s hw = Inside \<Longrightarrow>
    release_check hw (spin s) = Ret () t \<Longrightarrow>
    lock_step s (s\<lparr>spin := t, pc := (pc s)(hw := Leaving)\<rparr>)"
| step_store: "hw < ncpu (spin s) \<Longrightarrow> pc s hw = Leaving \<Longrightarrow>
    release_store hw (spin s) = Ret () t \<Longrightarrow>
    lock_step s (s\<lparr>spin := t, pc := (pc s)(hw := Outside)\<rparr>)"

text \<open>A machine with the given local interrupt controllers, all locks free.\<close>

definition boot_spin :: "u8 list \<Rightarrow> (nat \<Rightarrow> bool) \<Rightarrow> spin_state" where
  "boot_spin ids ifs = \<lparr>cpus = map (\<lambda>a. \<lparr>apicid = a, ncli = 0, intena = False\<rparr>) ids,
     ncpu = length ids, lapic_ids = (\<lambda>hw. ids ! hw), if_flag = ifs,
     lk = initlock \<lparr>locked = 0, lk_name = [], lk_cpu = None, pcs = replicate 10 0\<rparr> ''lock''\<rparr>"

inductive reachable :: "u8 list \<Rightarrow> (nat \<Rightarrow> bool) \<Rightarrow> sys_state \<Rightarrow> bool" for ids ifs where
  boot: "reachable ids ifs \<lparr>spin = boot_spin ids ifs, pc = (\<lambda>_. Outside)\<rparr>"
| step: "reachable ids ifs s \<Longrightarrow> lock_step s t \<Longrightarrow> reachable ids ifs t"

section \<open>Correctness of the pieces\<close>

section \<open>Interrupt nesting\<close>

definition wf_cpus :: "spin_state \<Rightarrow> bool" where
  "wf_cpus s \<longleftrightarrow> length (cpus s) = ncpu s \<and> distinct (map apicid (cpus s)) \<and>
     (\<forall>hw < ncpu s. apicid (cpus s ! hw) = lapic_ids s hw)"

lemma mycpu_ok:
  assumes "wf_cpus s" "hw < ncpu s" "\<not> if_flag s hw"
  shows "mycpu hw s = Ret hw s"
proof -
  have "scan (\<lambda>c. apicid c = lapic_ids s hw) (cpus s) = Some hw"
    unfolding scan_Some
  proof (intro conjI allI impI)
    show "hw < length (cpus s)" "apicid (cpus s ! hw) = lapic_ids s hw"
      using assms by (auto simp: wf_cpus_def)
    fix j
    assume "j < hw"
    then have "map apicid (cpus s) ! j \<noteq> map apicid (cpus s) ! hw"
      using assms by (subst nth_eq_iff_index_eq) (auto simp: wf_cpus_def)
    then show "apicid (cpus s ! j) \<noteq> lapic_ids s hw"
      using assms \<open>j < hw\<close> by (auto simp: wf_cpus_def)
  qed
  then show ?thesis using assms by (simp add: mycpu_def wf_cpus_def)
qed

definition set_cpu :: "nat \<Rightarrow> int \<Rightarrow> bool \<Rightarrow> bool \<Rightarrow> spin_state \<Rightarrow> spin_state" where
  "set_cpu hw n ie ifl s = s\<lparr>cpus := (cpus s)[hw := (cpus s ! hw)\<lparr>ncli := n, intena := ie\<rparr>],
     if_flag := (if_flag s)(hw := ifl)\<rparr>"

lemma wf_cpus_upd:
  assumes "wf_cpus s" "\<And>c. apicid (f c) = apicid c"
  shows "wf_cpus (s\<lparr>cpus := (cpus s)[hw := f (cpus s ! hw)], if_flag := g\<rparr>)"
proof (cases "hw < length (cpus s)")
  case True
  have "map apicid ((cpus s)[hw := f (cpus s ! hw)]) = map apicid (cpus s)"
    using True assms(2) by (simp add: map_update list_update_same_conv)
  with True assms show ?thesis by (auto simp: wf_cpus_def nth_list_update)
next
  case False
  with assms(1) show ?thesis by (simp add: wf_cpus_def list_update_beyond)
qed

lemma wf_cpus_set_cpu [simp]: "wf_cpus s \<Longrightarrow> wf_cpus (set_cpu hw n ie ifl s)"
  unfolding set_cpu_def by (rule wf_cpus_upd) auto

lemma set_cpu_sel [simp]:
  "ncpu (set_cpu hw n ie ifl s) = ncpu s" "lk (set_cpu hw n ie ifl s) = lk s"
  "lapic_ids (set_cpu hw n ie ifl s) = lapic_ids s"
  "if_flag (set_cpu hw n ie ifl s) = (if_flag s)(hw := ifl)"
  "length (cpus (set_cpu hw n ie ifl s)) = length (cpus s)"
  "hw < length (cpus s) \<Longrightarrow> ncli (cpus (set_cpu hw n ie ifl s) ! hw) = n"
  "hw < length (cpus s) \<Longrightarrow> intena (cpus (set_cpu hw n ie ifl s) ! hw) = ie"
  "hw' \<noteq> hw \<Longrightarrow> cpus (set_cpu hw n ie ifl s) ! hw' = cpus s ! hw'"
  by (auto simp: set_cpu_def)

lemma set_cpu_set_cpu [simp]:
  "set_cpu hw n ie ifl (set_cpu hw n' ie' ifl' s) = set_cpu hw n ie ifl s"
  by (cases "hw < length (cpus s)") (auto simp: set_cpu_def list_update_beyond)

lemma set_cpu_id:
  "hw < length (cpus s) \<Longrightarrow> set_cpu hw (ncli (cpus s ! hw)) (intena (cpus s ! hw)) (if_flag s hw) s = s"
  by (simp add: set_cpu_def)

lemma wf_cpus_length: "wf_cpus s \<Longrightarrow> length (cpus s) = ncpu s"
  by (simp add: wf_cpus_def)

lemma cpu_upd_commute: "c\<lparr>intena := b, ncli := n\<rparr> = c\<lparr>ncli := n, intena := b\<rparr>"
  by (rule cpu.equality) simp_all

text \<open>The counter is a C \<^verbatim>\<open>int\<close>: below its largest value the operations count.\<close>

lemma pushcli_ok:
  assumes "wf_cpus s" "hw < ncpu s" "0 \<le> ncli (cpus s ! hw)" "ncli (cpus s ! hw) + 1 < 2 ^ 31"
  shows "pushcli hw s = Ret () (set_cpu hw (ncli (cpus s ! hw) + 1)
    (if ncli (cpus s ! hw) = 0 then if_flag s hw else intena (cpus s ! hw)) False s)"
proof -
  let ?s = "s\<lparr>if_flag := (if_flag s)(hw := False)\<rparr>"
  have "wf_cpus ?s" using assms(1) by (simp add: wf_cpus_def)
  then have "mycpu hw ?s = Ret hw ?s" using assms(2) by (simp add: mycpu_ok)
  moreover have "in_i32 (ncli (cpus s ! hw) + 1)" using assms(3,4) by (simp add: in_i32_def)
  ultimately show ?thesis using assms(1,2)
    by (auto simp: pushcli_def Let_def upd_cpu_def set_cpu_def wf_cpus_length cpu_upd_commute
        intro!: spin_state.equality)
qed

lemma popcli_ok:
  assumes "wf_cpus s" "hw < ncpu s" "\<not> if_flag s hw" "1 \<le> ncli (cpus s ! hw)" "ncli (cpus s ! hw) < 2 ^ 31"
  shows "popcli hw s = Ret () (set_cpu hw (ncli (cpus s ! hw) - 1) (intena (cpus s ! hw))
    (ncli (cpus s ! hw) = 1 \<and> intena (cpus s ! hw)) s)"
proof -
  have "in_i32 (ncli (cpus s ! hw) - 1)" using assms(4,5) by (simp add: in_i32_def)
  then show ?thesis using assms mycpu_ok[OF assms(1-3)]
    by (auto simp: popcli_def Let_def upd_cpu_def set_cpu_def wf_cpus_length fun_upd_idem)
qed

lemma holding_ok:
  assumes "wf_cpus s" "hw < ncpu s" "\<not> if_flag s hw" "1 \<le> ncli (cpus s ! hw)" "ncli (cpus s ! hw) + 1 < 2 ^ 31"
  shows "holding hw s = Ret (locked (lk s) \<noteq> 0 \<and> lk_cpu (lk s) = Some hw) s"
proof -
  let ?t = "set_cpu hw (ncli (cpus s ! hw) + 1) (intena (cpus s ! hw)) False s"
  have p: "pushcli hw s = Ret () ?t" using assms by (simp add: pushcli_ok)
  have w: "wf_cpus ?t" "hw < ncpu ?t" "\<not> if_flag ?t hw" "1 \<le> ncli (cpus ?t ! hw)" "ncli (cpus ?t ! hw) < 2 ^ 31"
    using assms by (simp_all add: wf_cpus_length)
  have "popcli hw ?t = Ret () s"
    using popcli_ok[OF w] set_cpu_id[of hw s] assms by (simp add: wf_cpus_length)
  then show ?thesis using p mycpu_ok[OF w(1-3)] by (simp add: holding_def)
qed

fun push_n :: "nat \<Rightarrow> nat \<Rightarrow> spin_state \<Rightarrow> (unit, spin_state) outcome" where
  "push_n 0 hw s = Ret () s"
| "push_n (Suc n) hw s = bindO (pushcli hw s) (\<lambda>_ t. push_n n hw t)"

fun pop_n :: "nat \<Rightarrow> nat \<Rightarrow> spin_state \<Rightarrow> (unit, spin_state) outcome" where
  "pop_n 0 hw s = Ret () s"
| "pop_n (Suc n) hw s = bindO (popcli hw s) (\<lambda>_ t. pop_n n hw t)"

lemma push_n_ok:
  assumes "wf_cpus s" "hw < ncpu s" "1 \<le> ncli (cpus s ! hw)" "\<not> if_flag s hw" "ncli (cpus s ! hw) + int n < 2 ^ 31"
  shows "push_n n hw s = Ret () (set_cpu hw (ncli (cpus s ! hw) + int n) (intena (cpus s ! hw)) False s)"
  using assms
proof (induction n arbitrary: s)
  case 0
  then show ?case using set_cpu_id[of hw s] by (simp add: wf_cpus_length)
next
  case (Suc n)
  then show ?case by (simp add: pushcli_ok wf_cpus_length algebra_simps)
qed

lemma pop_n_ok:
  assumes "wf_cpus s" "hw < ncpu s" "int n \<le> ncli (cpus s ! hw)" "\<not> if_flag s hw" "0 < n" "ncli (cpus s ! hw) < 2 ^ 31"
  shows "pop_n n hw s = Ret () (set_cpu hw (ncli (cpus s ! hw) - int n) (intena (cpus s ! hw))
    (ncli (cpus s ! hw) = int n \<and> intena (cpus s ! hw)) s)"
  using assms
proof (induction n arbitrary: s)
  case 0
  then show ?case by simp
next
  case (Suc n)
  show ?case
  proof (cases n)
    case 0
    with Suc.prems show ?thesis by (simp add: popcli_ok)
  next
    case (Suc k)
    let ?t = "set_cpu hw (ncli (cpus s ! hw) - 1) (intena (cpus s ! hw)) False s"
    have "popcli hw s = Ret () ?t" using Suc.prems Suc by (simp add: popcli_ok)
    moreover have "pop_n n hw ?t = Ret () (set_cpu hw (ncli (cpus ?t ! hw) - int n)
        (intena (cpus ?t ! hw)) (ncli (cpus ?t ! hw) = int n \<and> intena (cpus ?t ! hw)) ?t)"
      using Suc.prems Suc by (intro Suc.IH) (simp_all add: wf_cpus_length)
    ultimately show ?thesis using Suc.prems by (simp add: wf_cpus_length algebra_simps)
  qed
qed

section \<open>The lock invariant\<close>

definition owns :: "sys_state \<Rightarrow> nat \<Rightarrow> bool" where
  "owns s hw \<longleftrightarrow> hw < ncpu (spin s) \<and> pc s hw \<in> {Got, Inside, Leaving}"

definition lock_inv :: "sys_state \<Rightarrow> bool" where
  "lock_inv s \<longleftrightarrow> wf_cpus (spin s)
     \<and> (\<forall>hw < ncpu (spin s). if pc s hw = Outside then ncli (cpus (spin s) ! hw) = 0
          else ncli (cpus (spin s) ! hw) = 1 \<and> \<not> if_flag (spin s) hw)
     \<and> (\<forall>i j. owns s i \<longrightarrow> owns s j \<longrightarrow> i = j)
     \<and> (locked (lk (spin s)) \<noteq> 0 \<longleftrightarrow> (\<exists>hw. owns s hw))
     \<and> (\<forall>hw. lk_cpu (lk (spin s)) = Some hw \<longleftrightarrow> hw < ncpu (spin s) \<and> pc s hw = Inside)"

lemma acquire_enter_ok:
  assumes "lock_inv s" "hw < ncpu (spin s)" "pc s hw = Outside"
  shows "acquire_enter hw (spin s) = Ret () (set_cpu hw 1 (if_flag (spin s) hw) False (spin s))"
proof -
  let ?t = "set_cpu hw 1 (if_flag (spin s) hw) False (spin s)"
  have w: "wf_cpus (spin s)" "ncli (cpus (spin s) ! hw) = 0" "lk_cpu (lk (spin s)) \<noteq> Some hw"
    using assms by (auto simp: lock_inv_def)
  then have "pushcli hw (spin s) = Ret () ?t" using assms by (simp add: pushcli_ok)
  moreover have "holding hw ?t = Ret False ?t"
    using w assms by (simp add: holding_ok wf_cpus_length)
  ultimately show ?thesis by (simp add: acquire_enter_def)
qed

lemma acquire_done_ok:
  assumes "lock_inv s" "hw < ncpu (spin s)" "pc s hw = Got"
  shows "acquire_done m v hw (spin s) =
    Ret () ((spin s)\<lparr>lk := (lk (spin s))\<lparr>lk_cpu := Some hw, pcs := getcallerpcs m v\<rparr>\<rparr>)"
proof -
  have "wf_cpus (spin s)" "\<not> if_flag (spin s) hw" using assms by (auto simp: lock_inv_def)
  then show ?thesis using assms by (simp add: acquire_done_def mycpu_ok)
qed

lemma release_check_ok:
  assumes "lock_inv s" "hw < ncpu (spin s)" "pc s hw = Inside"
  shows "release_check hw (spin s) = Ret ()
    ((spin s)\<lparr>lk := (lk (spin s))\<lparr>pcs := (pcs (lk (spin s)))[0 := 0], lk_cpu := None\<rparr>\<rparr>)"
proof -
  have "wf_cpus (spin s)" "\<not> if_flag (spin s) hw" "ncli (cpus (spin s) ! hw) = 1"
    "lk_cpu (lk (spin s)) = Some hw" "owns s hw"
    using assms by (auto simp: lock_inv_def owns_def)
  moreover have "locked (lk (spin s)) \<noteq> 0"
    using assms(1) \<open>owns s hw\<close> by (auto simp: lock_inv_def)
  ultimately show ?thesis using assms by (simp add: release_check_def holding_ok)
qed

lemma release_store_ok:
  assumes "lock_inv s" "hw < ncpu (spin s)" "pc s hw = Leaving"
  shows "release_store hw (spin s) = Ret () (set_cpu hw 0 (intena (cpus (spin s) ! hw))
    (intena (cpus (spin s) ! hw)) ((spin s)\<lparr>lk := (lk (spin s))\<lparr>locked := 0\<rparr>\<rparr>))"
proof -
  let ?t = "(spin s)\<lparr>lk := (lk (spin s))\<lparr>locked := 0\<rparr>\<rparr>"
  have "wf_cpus ?t" "\<not> if_flag ?t hw" "ncli (cpus ?t ! hw) = 1" "hw < ncpu ?t"
    using assms by (auto simp: lock_inv_def wf_cpus_def)
  then show ?thesis using assms by (simp add: release_store_def popcli_ok)
qed


lemma owns_upd:
  "owns (s\<lparr>spin := t, pc := (pc s)(hw := p)\<rparr>) i \<longleftrightarrow>
     i < ncpu t \<and> (if i = hw then p else pc s i) \<in> {Got, Inside, Leaving}"
  by (auto simp: owns_def)

lemma lock_inv_unique: "lock_inv s \<Longrightarrow> owns s i \<Longrightarrow> owns s j \<Longrightarrow> i = j"
  unfolding lock_inv_def by blast

lemma lock_inv_only:
  assumes "lock_inv s" "hw < ncpu (spin s)" "pc s hw \<in> {Got, Inside, Leaving}" "i < ncpu (spin s)" "i \<noteq> hw"
  shows "pc s i \<noteq> Got \<and> pc s i \<noteq> Inside \<and> pc s i \<noteq> Leaving"
  using lock_inv_unique[OF assms(1), of i hw] assms(2-5) by (auto simp: owns_def)

lemma lock_step_inv: "lock_step s t \<Longrightarrow> lock_inv s \<Longrightarrow> lock_inv t"
proof (induction rule: lock_step.induct)
  case (step_enter hw s t)
  then have t: "t = set_cpu hw 1 (if_flag (spin s) hw) False (spin s)"
    by (simp add: acquire_enter_ok)
  have own: "owns (s\<lparr>spin := t, pc := (pc s)(hw := Spinning)\<rparr>) i = owns s i" for i
    using step_enter t by (auto simp: owns_upd owns_def)
  show ?case
    using step_enter unfolding lock_inv_def own
    by (auto simp: t wf_cpus_length)
next
  case (step_xchg hw s old t)
  then have t: "t = (spin s)\<lparr>lk := (lk (spin s))\<lparr>locked := 1\<rparr>\<rparr>" and old: "old = locked (lk (spin s))"
    by (auto simp: acquire_xchg_def)
  show ?case
  proof (cases "old = 0")
    case True
    then have none: "\<not> owns s i" for i using step_xchg old by (auto simp: lock_inv_def)
    have own: "owns (s\<lparr>spin := t, pc := (pc s)(hw := Got)\<rparr>) i \<longleftrightarrow> i = hw" for i
      using step_xchg(1) none[of i] t by (auto simp: owns_upd owns_def)
    show ?thesis using step_xchg True unfolding lock_inv_def if_not_P[OF not_not[THEN iffD2, OF True]] own
      by (auto simp: t wf_cpus_def)
  next
    case False
    have own: "owns (s\<lparr>spin := t, pc := (pc s)(hw := Spinning)\<rparr>) i = owns s i" for i
      using step_xchg t by (auto simp: owns_upd owns_def)
    show ?thesis using step_xchg False old unfolding lock_inv_def if_P[OF False] own
      by (auto simp: t wf_cpus_def)
  qed
next
  case (step_done hw s m v t)
  then have t: "t = (spin s)\<lparr>lk := (lk (spin s))\<lparr>lk_cpu := Some hw, pcs := getcallerpcs m v\<rparr>\<rparr>"
    by (simp add: acquire_done_ok)
  have own: "owns (s\<lparr>spin := t, pc := (pc s)(hw := Inside)\<rparr>) i = owns s i" for i
    using step_done t by (auto simp: owns_upd owns_def)
  have only: "i = hw" if "owns s i" for i
    using lock_inv_unique[OF step_done(4) that] step_done(1,2) by (simp add: owns_def)
  have "\<not> (i < ncpu (spin s) \<and> pc s i = Inside)" for i
    using step_done(2) only[of i] by (auto simp: owns_def)
  then show ?case using step_done unfolding lock_inv_def own
    by (auto simp: t wf_cpus_def)
next
  case (step_check hw s t)
  then have t: "t = (spin s)\<lparr>lk := (lk (spin s))\<lparr>pcs := (pcs (lk (spin s)))[0 := 0], lk_cpu := None\<rparr>\<rparr>"
    by (simp add: release_check_ok)
  have own: "owns (s\<lparr>spin := t, pc := (pc s)(hw := Leaving)\<rparr>) i = owns s i" for i
    using step_check t by (auto simp: owns_upd owns_def)
  have no: "((pc s)(hw := Leaving)) i \<noteq> Inside" if "i < ncpu (spin s)" for i
    using lock_inv_only[OF step_check(4,1) _ that] step_check(2) by (cases "i = hw") simp_all
  have ne: "((pc s)(hw := Leaving)) i = Outside \<longleftrightarrow> pc s i = Outside" for i
    using step_check(2) by simp
  show ?case using step_check(4) no unfolding lock_inv_def own
    by (simp add: t wf_cpus_def ne del: fun_upd_apply)
next
  case (step_store hw s t)
  then have t: "t = set_cpu hw 0 (intena (cpus (spin s) ! hw))
    (intena (cpus (spin s) ! hw)) ((spin s)\<lparr>lk := (lk (spin s))\<lparr>locked := 0\<rparr>\<rparr>)"
    by (simp add: release_store_ok)
  note only = lock_inv_only[OF step_store(4,1)]
  have own: "\<not> owns (s\<lparr>spin := t, pc := (pc s)(hw := Outside)\<rparr>) i" for i
    using only[of i] step_store(2) t by (cases "i = hw"; simp add: owns_upd)
  have no: "((pc s)(hw := Outside)) i \<noteq> Inside" "pc s i \<noteq> Inside" if "i < ncpu (spin s)" for i
    using only[OF _ that] step_store(2) by (cases "i = hw"; simp)+
  have "lk_cpu (lk (spin s)) \<noteq> Some i" for i
    using step_store(4) no(2)[of i] by (simp add: lock_inv_def)
  moreover have "wf_cpus ((spin s)\<lparr>lk := l\<rparr>)" for l
    using step_store(4) by (simp add: lock_inv_def wf_cpus_def)
  ultimately show ?case using step_store(1,2,4) no own unfolding lock_inv_def
    by (simp add: t wf_cpus_length)
qed

lemma ncpu_lock_step: "lock_step s t \<Longrightarrow> lock_inv s \<Longrightarrow> ncpu (spin t) = ncpu (spin s)"
  by (induction rule: lock_step.induct)
     (auto simp: acquire_enter_ok acquire_xchg_def acquire_done_ok release_check_ok release_store_ok)

lemma boot_inv: "distinct ids \<Longrightarrow> lock_inv \<lparr>spin = boot_spin ids ifs, pc = (\<lambda>_. Outside)\<rparr>"
  by (auto simp: lock_inv_def boot_spin_def wf_cpus_def owns_def initlock_def comp_def)

lemma reachable_inv:
  "reachable ids ifs s \<Longrightarrow> distinct ids \<Longrightarrow> lock_inv s \<and> ncpu (spin s) = length ids"
proof (induction rule: reachable.induct)
  case boot
  then show ?case using boot_inv by (auto simp: boot_spin_def)
next
  case (step s t)
  then show ?case using lock_step_inv ncpu_lock_step by metis
qed

lemma reach_inside:
  assumes "distinct ids" "0 < length ids"
  shows "\<exists>s. reachable ids ifs s \<and> pc s 0 = Inside"
proof -
  let ?s0 = "\<lparr>spin = boot_spin ids ifs, pc = (\<lambda>_. Outside)\<rparr>"
  have r0: "reachable ids ifs ?s0" by (rule reachable.boot)
  obtain t1 where "acquire_enter 0 (spin ?s0) = Ret () t1"
    using acquire_enter_ok[of ?s0 0] boot_inv[OF assms(1)] assms(2) by (auto simp: boot_spin_def)
  then have st1: "lock_step ?s0 (?s0\<lparr>spin := t1, pc := (pc ?s0)(0 := Spinning)\<rparr>)"
    using assms(2) by (intro lock_step.step_enter) (auto simp: boot_spin_def)
  define s1 where "s1 = ?s0\<lparr>spin := t1, pc := (pc ?s0)(0 := Spinning)\<rparr>"
  have r1: "reachable ids ifs s1" using r0 st1 by (auto intro: reachable.step simp: s1_def)
  note i1 = reachable_inv[OF r1 assms(1)]
  have "\<not> owns s1 i" for i by (auto simp: owns_def s1_def)
  then have "locked (lk (spin s1)) = 0" using i1 by (auto simp: lock_inv_def)
  then have st2: "lock_step s1 (s1\<lparr>spin := snd (acquire_xchg (spin s1)), pc := (pc s1)(0 := Got)\<rparr>)"
    using lock_step.step_xchg[of 0 s1 0 "snd (acquire_xchg (spin s1))"] i1 assms(2)
    by (simp add: acquire_xchg_def s1_def)
  define s2 where "s2 = s1\<lparr>spin := snd (acquire_xchg (spin s1)), pc := (pc s1)(0 := Got)\<rparr>"
  have r2: "reachable ids ifs s2" using r1 st2 by (auto intro: reachable.step simp: s2_def)
  note i2 = reachable_inv[OF r2 assms(1)]
  have p2: "pc s2 0 = Got" by (simp add: s2_def)
  have lt: "0 < ncpu (spin s2)" using i2 assms(2) by simp
  let ?t3 = "(spin s2)\<lparr>lk := (lk (spin s2))\<lparr>lk_cpu := Some 0, pcs := getcallerpcs (\<lambda>_. 0) 0\<rparr>\<rparr>"
  define s3 where "s3 = s2\<lparr>spin := ?t3, pc := (pc s2)(0 := Inside)\<rparr>"
  have "lock_step s2 s3" unfolding s3_def
    using acquire_done_ok[OF _ lt p2] i2 lt p2 by (intro lock_step.step_done) auto
  then have "reachable ids ifs s3" using r2 by (rule reachable.step[rotated])
  then show ?thesis by (intro exI[of _ s3]) (simp add: s3_def)
qed

section \<open>Properties\<close>

text \<open>
  C3. Mutual exclusion: in every reachable state of any number of processors at most one of them
  is between its successful exchange in \<^verbatim>\<open>acquire\<close> and the store that ends
  \<^verbatim>\<open>release\<close>, and that one runs with interrupts disabled.
\<close>

theorem spinlock_mutual_exclusion:
  assumes "reachable ids ifs s" and "distinct ids"
    and "i < length ids" and "j < length ids"
    and "pc s i \<in> {Got, Inside, Leaving}" and "pc s j \<in> {Got, Inside, Leaving}"
  shows "i = j \<and> \<not> if_flag (spin s) i"
proof -
  from reachable_inv[OF assms(1,2)] have inv: "lock_inv s" and n: "ncpu (spin s) = length ids" by auto
  then have "owns s i" "owns s j" using assms by (auto simp: owns_def)
  then show ?thesis using inv n assms(3,5) by (auto simp: lock_inv_def)
qed

theorem spinlock_mutual_exclusion_witness:
  "\<exists>s. reachable [0, 1] (\<lambda>_. True) s \<and> pc s 0 = Inside \<and> \<not> if_flag (spin s) 0 \<and>
     pc s 1 \<notin> {Got, Inside, Leaving}"
proof -
  obtain s where s: "reachable [0, 1] (\<lambda>_. True) s" "pc s 0 = Inside"
    using reach_inside[of "[0, 1]"] by auto
  have "pc s 1 \<notin> {Got, Inside, Leaving}"
    using spinlock_mutual_exclusion[OF s(1), of 0 1] s(2) by auto
  moreover have "\<not> if_flag (spin s) 0"
    using spinlock_mutual_exclusion[OF s(1), of 0 0] s(2) by auto
  ultimately show ?thesis using s by blast
qed

text \<open>
  C19. The checks of the lock code never fire when every processor pairs \<^verbatim>\<open>acquire\<close> with
  \<^verbatim>\<open>release\<close>: in every reachable state the next piece of code of every processor
  returns instead of panicking.
\<close>

theorem spinlock_never_panics:
  assumes "reachable ids ifs s" and "distinct ids" and "hw < length ids"
  shows "case pc s hw of
      Outside \<Rightarrow> \<exists>t. acquire_enter hw (spin s) = Ret () t
    | Spinning \<Rightarrow> True
    | Got \<Rightarrow> \<forall>m v. \<exists>t. acquire_done m v hw (spin s) = Ret () t
    | Inside \<Rightarrow> \<exists>t. release_check hw (spin s) = Ret () t
    | Leaving \<Rightarrow> \<exists>t. release_store hw (spin s) = Ret () t"
proof -
  from reachable_inv[OF assms(1,2)] have inv: "lock_inv s" and n: "ncpu (spin s) = length ids" by auto
  then show ?thesis using assms(3)
    by (auto split: lock_pc.split
        simp: acquire_enter_ok acquire_done_ok release_check_ok release_store_ok)
qed

theorem spinlock_never_panics_witness:
  "\<exists>s. reachable [3] (\<lambda>_. False) s \<and> pc s 0 = Inside \<and> (\<exists>t. release_check 0 (spin s) = Ret () t)"
proof -
  obtain s where s: "reachable [3] (\<lambda>_. False) s" "pc s 0 = Inside"
    using reach_inside[of "[3]"] by auto
  then show ?thesis using spinlock_never_panics[OF s(1), of 0] by auto
qed

text \<open>
  C29. \<^verbatim>\<open>pushcli\<close> and \<^verbatim>\<open>popcli\<close> nest: after \<open>n\<close> pushes and
  \<open>m \<le> n\<close> pops interrupts are still off unless every push is undone, and then they are as
  they were before the first push. The counter is a 32-bit \<^verbatim>\<open>int\<close>, so \<open>n\<close> is below 2147483648: one more push
  would make the counter negative.
\<close>

theorem cli_nesting:
  assumes "wf_cpus s" and "hw < ncpu s" and "ncli (cpus s ! hw) = 0"
    and "0 < n" and "0 < m" and "m \<le> n" and "n < 2 ^ 31"
  shows "runs (bindO (push_n n hw s) (\<lambda>_ t. pop_n m hw t))
    (\<lambda>_ t. if_flag t hw = (m = n \<and> if_flag s hw) \<and> ncli (cpus t ! hw) = int n - int m)"
proof -
  obtain k where n: "n = Suc k" using assms(4) by (cases n) auto
  let ?t = "set_cpu hw 1 (if_flag s hw) False s"
  have "pushcli hw s = Ret () ?t" using assms by (simp add: pushcli_ok)
  moreover have "push_n k hw ?t = Ret () (set_cpu hw (1 + int k) (if_flag s hw) False s)"
    using assms n by (subst push_n_ok) (simp_all add: wf_cpus_length)
  ultimately have "push_n n hw s = Ret () (set_cpu hw (int n) (if_flag s hw) False s)"
    by (simp add: n)
  then show ?thesis using assms by (auto simp: pop_n_ok wf_cpus_length)
qed

theorem cli_nesting_witness:
  "runs (bindO (push_n 2 0 (boot_spin [7] (\<lambda>_. True))) (\<lambda>_ t. pop_n 2 0 t))
    (\<lambda>_ t. if_flag t 0 \<and> ncli (cpus t ! 0) = 0)"
proof -
  have "wf_cpus (boot_spin [7] (\<lambda>_. True))" "0 < ncpu (boot_spin [7] (\<lambda>_. True))"
    "ncli (cpus (boot_spin [7] (\<lambda>_. True)) ! 0) = 0" "if_flag (boot_spin [7] (\<lambda>_. True)) 0"
    by (auto simp: boot_spin_def wf_cpus_def)
  with cli_nesting[of "boot_spin [7] (\<lambda>_. True)" 0 2 2] show ?thesis by simp
qed

end
