(* ===== verification/Trap.thy ===== *)
theory Trap
  imports Exec Spinlock
begin

text \<open>
  Traps and the dispatch of system calls, \<^verbatim>\<open>src/trap.c\<close>, \<^verbatim>\<open>src/syscall.c\<close> and the checked-in table \<^verbatim>\<open>src/syscalltable.h\<close>.
  \<open>sys_env\<close> gathers what the handlers take as arguments: the devices, the linker's addresses, the frame of \<^verbatim>\<open>exec\<close>, the
  font, what happens while a call sleeps or the process is away, and the number of the processor. A poll of the keyboard or the
  serial port that never ends is the fault \<open>does not return\<close>. A process that has exited is no longer current, and
  what follows its \<^verbatim>\<open>exit\<close> in the source is not reached.
\<close>

unbundle bit_operations_syntax

section \<open>Numbers\<close>

definition DPL_USER :: u16 where "DPL_USER = 3"

datatype sysnum =
    SYS_fork | SYS_exit | SYS_wait | SYS_pipe | SYS_read | SYS_kill | SYS_exec | SYS_fstat | SYS_chdir | SYS_dup | SYS_getpid
  | SYS_sbrk | SYS_sleep | SYS_uptime | SYS_open | SYS_write | SYS_mknod | SYS_unlink | SYS_link | SYS_mkdir | SYS_close | SYS_getch
  | SYS_setvideomode | SYS_setpixel | SYS_moveto | SYS_lineto

definition sysnums :: "sysnum list" where
  "sysnums = [SYS_fork, SYS_exit, SYS_wait, SYS_pipe, SYS_read, SYS_kill, SYS_exec, SYS_fstat, SYS_chdir, SYS_dup, SYS_getpid,
     SYS_sbrk, SYS_sleep, SYS_uptime, SYS_open, SYS_write, SYS_mknod, SYS_unlink, SYS_link, SYS_mkdir, SYS_close, SYS_getch,
     SYS_setvideomode, SYS_setpixel, SYS_moveto, SYS_lineto]"

section \<open>System calls\<close>

record 's sys_env =
  e_platform :: platform
  e_syms :: kernel_syms
  e_exec :: exec_frame
  e_font :: u32
  e_sleeps :: "('s proc_state_scheme \<Rightarrow> 's proc_state_scheme) list"
  e_away :: "'s proc_state_scheme \<Rightarrow> 's proc_state_scheme"
  e_cpuid :: nat
  e_cr2 :: u32

definition ends :: "('a, 's) outcome option \<Rightarrow> ('a, 's) outcome" where
  "ends r = (case r of None \<Rightarrow> Fault ''does not return'' | Some m \<Rightarrow> m)"

fun syscalls :: "'s sys_env \<Rightarrow> sysnum \<Rightarrow> 's proc_state_scheme \<Rightarrow> (int, 's proc_state_scheme) outcome" where
  "syscalls E SYS_fork s = sys_fork (e_syms E) s"
| "syscalls E SYS_exit s = sys_exit (e_syms E) s"
| "syscalls E SYS_wait s = sys_wait (e_syms E) (e_sleeps E) s"
| "syscalls E SYS_pipe s = sys_pipe (k_end (e_syms E)) s"
| "syscalls E SYS_read s = sys_read (e_sleeps E) s"
| "syscalls E SYS_kill s = sys_kill s"
| "syscalls E SYS_exec s = sys_exec (e_platform E) (e_syms E) (e_exec E) (e_sleeps E) s"
| "syscalls E SYS_fstat s = sys_fstat s"
| "syscalls E SYS_chdir s = sys_chdir s"
| "syscalls E SYS_dup s = sys_dup s"
| "syscalls E SYS_getpid s = sys_getpid s"
| "syscalls E SYS_sbrk s = sys_sbrk (e_platform E) (e_syms E) s"
| "syscalls E SYS_sleep s = sys_sleep (e_sleeps E) s"
| "syscalls E SYS_uptime s = sys_uptime s"
| "syscalls E SYS_open s = sys_open (k_end (e_syms E)) s"
| "syscalls E SYS_write s = sys_write (e_platform E) (e_sleeps E) s"
| "syscalls E SYS_mknod s = sys_mknod s"
| "syscalls E SYS_unlink s = sys_unlink s"
| "syscalls E SYS_link s = sys_link s"
| "syscalls E SYS_mkdir s = sys_mkdir s"
| "syscalls E SYS_close s = sys_close (k_end (e_syms E)) s"
| "syscalls E SYS_getch s = ends (sys_getch (e_platform E) s)"
| "syscalls E SYS_setvideomode s = sys_setvideomode (e_platform E) (e_font E) s"
| "syscalls E SYS_setpixel s = sys_setpixel (e_platform E) s"
| "syscalls E SYS_moveto s = sys_moveto s"
| "syscalls E SYS_lineto s = sys_lineto (e_platform E) s"

text \<open>\<^verbatim>\<open>%s\<close> with the name of the process.\<close>

definition print_name :: "platform \<Rightarrow> string \<Rightarrow> 's console_state_scheme \<Rightarrow> (unit, 's console_state_scheme) outcome" where
  "print_name P name s = consputs P (map of_char name) s"

definition syscall :: "'s sys_env \<Rightarrow> 's proc_state_scheme \<Rightarrow> (unit, 's proc_state_scheme) outcome" where
  "syscall E s =
     (let num = sint (cur_eax s)
      in if 0 < num \<and> num < 27 then
           bindO (syscalls E (sysnums ! nat (num - 1)) s) (\<lambda>r s.
             Ret () (if cur_proc s = None then s else s\<lparr>cur_eax := word_of_int r\<rparr>))
         else
           bindO (cprintf (e_platform E) ''%d '' [word_of_int (cur_pid s)] s) (\<lambda>_ s.
           bindO (print_name (e_platform E) (cur_name s) s) (\<lambda>_ s.
           bindO (cprintf (e_platform E) '': unknown sys call %d\<newline>'' [word_of_int num] s) (\<lambda>_ s.
             Ret () (s\<lparr>cur_eax := -1\<rparr>)))))"

section \<open>The listing of processes\<close>

fun state_name :: "procstate \<Rightarrow> string" where
  "state_name UNUSED = ''unused''"
| "state_name EMBRYO = ''embryo''"
| "state_name SLEEPING = ''sleep ''"
| "state_name RUNNABLE = ''runble''"
| "state_name RUNNING = ''run   ''"
| "state_name ZOMBIE = ''zombie''"

fun print_pcs :: "platform \<Rightarrow> u32 list \<Rightarrow> 's console_state_scheme \<Rightarrow> (unit, 's console_state_scheme) outcome" where
  "print_pcs P [] s = Ret () s"
| "print_pcs P (a # as) s =
     (if a = 0 then Ret () s else bindO (cprintf P '' %p'' [a] s) (\<lambda>_ s. print_pcs P as s))"

fun procdump_loop :: "platform \<Rightarrow> nat list \<Rightarrow> 's proc_state_scheme \<Rightarrow> (unit, 's proc_state_scheme) outcome" where
  "procdump_loop P [] s = Ret () s"
| "procdump_loop P (p # ps) s =
     (let q = proc_at s p
      in if p_state q = UNUSED then procdump_loop P ps s
         else
           bindO (cprintf P ''%d '' [word_of_int (p_pid q)] s) (\<lambda>_ s.
           bindO (print_name P (state_name (p_state q)) s) (\<lambda>_ s.
           bindO (cprintf P '' '' [] s) (\<lambda>_ s.
           bindO (print_name P (p_name q) s) (\<lambda>_ s.
           bindO (if p_state q = SLEEPING then print_pcs P (getcallerpcs (mem s) (c_ebp (p_context q) + 8)) s else Ret () s) (\<lambda>_ s.
           bindO (cprintf P ''\<newline>'' [] s) (\<lambda>_ s.
             procdump_loop P ps s)))))))"

definition procdump :: "platform \<Rightarrow> 's proc_state_scheme \<Rightarrow> (unit, 's proc_state_scheme) outcome" where
  "procdump P s = procdump_loop P [0..<NPROC] s"

section \<open>Traps\<close>

definition kbdintr :: "platform \<Rightarrow> 's proc_state_scheme \<Rightarrow> (unit, 's proc_state_scheme) outcome" where
  "kbdintr P s = ends (consoleintr P (procdump P) (kbdgetc P) s)"

definition uartintr :: "platform \<Rightarrow> 's proc_state_scheme \<Rightarrow> (unit, 's proc_state_scheme) outcome" where
  "uartintr P s = ends (consoleintr P (procdump P) (uartgetc P) s)"

definition timer_tick :: "'s sys_env \<Rightarrow> 's proc_state_scheme \<Rightarrow> (unit, 's proc_state_scheme) outcome" where
  "timer_tick E s =
     bindO (if e_cpuid E = 0 then wakeup ChTicks (s\<lparr>ticks := ticks s + 1\<rparr>) else Ret () s) (\<lambda>_ s.
       Ret () (lapiceoi (e_platform E) s))"

definition eoi_after :: "'s sys_env \<Rightarrow> (unit, 's proc_state_scheme) outcome \<Rightarrow> (unit, 's proc_state_scheme) outcome" where
  "eoi_after E m = bindO m (\<lambda>_ s. Ret () (lapiceoi (e_platform E) s))"

text \<open>A trap with no handler: a fault of the kernel, or of the user program, which is then killed.\<close>

definition unexpected_trap :: "'s sys_env \<Rightarrow> trapframe \<Rightarrow> 's proc_state_scheme \<Rightarrow> (unit, 's proc_state_scheme) outcome" where
  "unexpected_trap E tf s =
     (let P = e_platform E
      in if cur_proc s = None \<or> tf_cs tf AND 3 = 0 then
           bindO (cprintf P ''unexpected trap %d from cpu %d eip %x (cr2=0x%x)\<newline>''
             [tf_trapno tf, of_nat (e_cpuid E), tf_eip tf, e_cr2 E] s) (\<lambda>_ s. Panic ''trap'')
         else
           bindO (cprintf P ''pid %d '' [word_of_int (cur_pid s)] s) (\<lambda>_ s.
           bindO (print_name P (cur_name s) s) (\<lambda>_ s.
           bindO (cprintf P '': trap %d err %d on cpu %d eip 0x%x addr 0x%x--kill proc\<newline>''
             [tf_trapno tf, tf_err tf, of_nat (e_cpuid E), tf_eip tf, e_cr2 E] s) (\<lambda>_ s.
             Ret () (s\<lparr>cur_killed := True\<rparr>)))))"

definition trap_irq :: "'s sys_env \<Rightarrow> trapframe \<Rightarrow> 's proc_state_scheme \<Rightarrow> (unit, 's proc_state_scheme) outcome" where
  "trap_irq E tf s =
     (let n = tf_trapno tf; P = e_platform E
      in if n = T_IRQ0 + IRQ_TIMER then timer_tick E s
         else if n = T_IRQ0 + IRQ_IDE then eoi_after E (Ret () s)
         else if n = T_IRQ0 + IRQ_IDE + 1 then Ret () s
         else if n = T_IRQ0 + IRQ_KBD then eoi_after E (kbdintr P s)
         else if n = T_IRQ0 + IRQ_COM1 then eoi_after E (uartintr P s)
         else if n = T_IRQ0 + 7 \<or> n = T_IRQ0 + IRQ_SPURIOUS then
           eoi_after E (cprintf P ''cpu%d: spurious interrupt at %x:%x\<newline>'' [of_nat (e_cpuid E), ucast (tf_cs tf), tf_eip tf] s)
         else unexpected_trap E tf s)"

definition exit_if_killed :: "'s sys_env \<Rightarrow> bool \<Rightarrow> 's proc_state_scheme \<Rightarrow> (unit, 's proc_state_scheme) outcome" where
  "exit_if_killed E user s = (if cur_proc s \<noteq> None \<and> cur_killed s \<and> user then exit (e_syms E) s else Ret () s)"

definition trap :: "'s sys_env \<Rightarrow> trapframe \<Rightarrow> 's proc_state_scheme \<Rightarrow> (unit, 's proc_state_scheme) outcome" where
  "trap E tf s =
     (if tf_trapno tf = T_SYSCALL then
        (case cur_proc s of
           None \<Rightarrow> Fault ''trap: no process''
         | Some p \<Rightarrow>
             bindO (exit_if_killed E True s) (\<lambda>_ s.
             if cur_proc s = None then Ret () s
             else
               bindO (syscall E ((upd_pt (set_proc p (\<lambda>q. q\<lparr>p_tf := tf\<rparr>)) s)\<lparr>cur_esp := tf_esp tf, cur_eax := tf_eax tf\<rparr>)) (\<lambda>_ s.
                 exit_if_killed E True (deliver s))))
      else
        let user = (tf_cs tf AND 3 = DPL_USER)
        in bindO (trap_irq E tf s) (\<lambda>_ s.
           bindO (exit_if_killed E user (deliver s)) (\<lambda>_ s.
           bindO (case cur_proc s of
                    Some p \<Rightarrow> if state_of (pt s) p = RUNNING \<and> tf_trapno tf = T_IRQ0 + IRQ_TIMER then yield (e_away E) s else Ret () s
                  | None \<Rightarrow> Ret () s) (\<lambda>_ s.
             exit_if_killed E user s))))"

section \<open>A killed process does not return to its program\<close>

lemma sched_leaves: "sched s = Ret u t \<Longrightarrow> cur_proc t = None"
  by (auto simp: sched_def split: option.splits if_splits)

lemma exit_leaves: "exit K s = Ret u t \<Longrightarrow> cur_proc t = None"
  by (auto simp: exit_def Let_def bindO_eq_Ret dest!: sched_leaves split: option.splits if_splits)

lemma exit_if_killed_leaves: "exit_if_killed E user s = Ret u t \<Longrightarrow> cur_proc t = None \<or> \<not> user \<or> \<not> cur_killed t"
  by (auto simp: exit_if_killed_def dest: exit_leaves split: if_splits)

text \<open>
  C8. A killed process never goes back to user space: when \<^verbatim>\<open>trap\<close> for a system call or for an interrupt of user code returns, the process has
  exited or is not marked as killed, whether the mark was set before the trap, by the trap itself or while
  the process was off the processor. A process that is killed when it makes a system call does not perform it.
\<close>

theorem killed_never_resumes:
  assumes "trap E tf s = Ret u t" "tf_trapno tf = T_SYSCALL \<or> tf_cs tf AND 3 = DPL_USER"
  shows "(cur_proc t = None \<or> \<not> cur_killed t) \<and>
    (tf_trapno tf = T_SYSCALL \<and> cur_killed s \<longrightarrow> exit (e_syms E) s = Ret () t)"
proof (cases "tf_trapno tf = T_SYSCALL")
  case True
  then obtain p where p: "cur_proc s = Some p" using assms(1) by (auto simp: trap_def split: option.splits)
  show ?thesis
  proof (cases "cur_killed s")
    case True
    then have "exit_if_killed E True s = exit (e_syms E) s" using p by (simp add: exit_if_killed_def)
    then show ?thesis using assms(1) p \<open>tf_trapno tf = T_SYSCALL\<close> by (auto simp: trap_def bindO_eq_Ret dest: exit_leaves split: if_splits)
  next
    case False
    then show ?thesis using assms(1) p True
      by (auto simp: trap_def bindO_eq_Ret exit_if_killed_def[of E True s] dest: exit_if_killed_leaves split: if_splits)
  qed
next
  case False
  then show ?thesis using assms by (auto simp: trap_def bindO_eq_Ret Let_def dest!: exit_if_killed_leaves)
qed

subsection \<open>A killed process makes a system call\<close>

definition plat0 :: platform where
  "plat0 = \<lparr>dev_in = (\<lambda>_ _. 0), dev_reg = (\<lambda>_ _. 0), sym_consbuffer = 0, sym_videobuffer = 0, sym_indexWritten = 0, sym_firstTime = 0, sym_hdcArray = 0\<rparr>"

definition env0 :: "unit sys_env" where
  "env0 = \<lparr>e_platform = plat0, e_syms = \<lparr>k_end = 0, k_data = 0, k_forkret = 0, k_trapret = 0, k_initcode_start = 0, k_initcode_size = 0\<rparr>,
     e_exec = \<lparr>x_elf = 0, x_ph = 0, x_ustack = 0\<rparr>, e_font = 0, e_sleeps = [], e_away = id, e_cpuid = 0, e_cr2 = 0\<rparr>"

definition killed0 :: proc_state where
  "killed0 = (file_state.extend (file0\<lparr>icache := (\<lambda>_. ip0\<lparr>i_ref := 2, i_lock := initsleeplock\<rparr>), cur_killed := True\<rparr>)
     \<lparr>pt = tbl (demo_forked proc0), cur_proc = Some 1, pt_held = False, cpu_ncli = 0, cpu_intena = True, int_on = True,
      kpgdir = 0, cr3 = 0, ts_esp0 = 0, first_ret = False, ticks = 0\<rparr>)"

lemma close_files_none: "\<forall>fd. cur_ofile s fd = None \<Longrightarrow> close_files kend fds s = Ret () s"
  by (induction fds) simp_all

lemma killed0_fields:
  "cur_proc killed0 = Some 1" "cur_killed killed0" "initproc (pt killed0) = Some 0" "log_committing killed0 = False"
  "log_outstanding killed0 = 1" "lh killed0 = []" "\<not> pt_held killed0" "cpu_ncli killed0 = 0"
  "icache killed0 i = ip0\<lparr>i_ref := 2, i_lock := initsleeplock\<rparr>" "cur_ofile killed0 fd = None"
  by (simp_all add: killed0_def demo_forked_def Let_def file0_def fs0_def log0_def bio0_def bio_state.defs vga_state.defs log_state.defs fs_state.defs file_state.defs)

lemma killed0_exits: "\<exists>t. exit (e_syms env0) killed0 = Ret () t"
  by (simp add: exit_def killed0_fields close_files_none begin_op_def MAXOPBLOCKS_def LOGSIZE_def iput_def acquire_inode_def acquiresleep_def
      initsleeplock_def ip0_def upd_inode_def release_inode_def end_op_def wakeup_call_def acquire_pt_def pushcli_here_def
      sched_def upd_pt_def exit_in_fields NPROC_def Let_def in_i32_def)

theorem killed_never_resumes_witness:
  "\<exists>t. trap env0 ((p_tf proc0)\<lparr>tf_trapno := T_SYSCALL\<rparr>) killed0 = Ret () t \<and> exit (e_syms env0) killed0 = Ret () t \<and> (cur_proc t = None \<or> \<not> cur_killed t)"
proof -
  let ?tf = "(p_tf proc0)\<lparr>tf_trapno := T_SYSCALL\<rparr>"
  obtain t where t: "exit (e_syms env0) killed0 = Ret () t" using killed0_exits by blast
  then have r: "trap env0 ?tf killed0 = Ret () t"
    using exit_leaves[OF t] by (simp add: trap_def killed0_fields exit_if_killed_def)
  then show ?thesis using killed_never_resumes[OF r] killed0_fields(2) by auto
qed

end
