(* ===== verification/User.thy ===== *)
theory User
  imports CString
begin

text \<open>
  The user library: \<^verbatim>\<open>src/ulib.c\<close> over the memory of a process, and
  \<^verbatim>\<open>src/printf.c\<close>. A user program sees the kernel as the record \<open>ucalls\<close> of the system
  calls it makes, over a world of any type; text is a \<^typ>\<open>string\<close>.
\<close>

abbreviation NL :: char where
  "NL \<equiv> CHR 0x0A"

section \<open>System calls\<close>

text \<open>
  What each call of \<^verbatim>\<open>src/user.h\<close> answers. \<open>u_read\<close> gives the bytes stored in the buffer,
  or \<open>None\<close> for -1; \<open>u_fstat\<close> gives type, inode number and size.
\<close>

record ustat =
  us_type :: int
  us_ino :: int
  us_size :: int

record 'w ucalls =
  u_read :: "int \<Rightarrow> nat \<Rightarrow> 'w \<Rightarrow> string option \<times> 'w"
  u_write :: "int \<Rightarrow> string \<Rightarrow> 'w \<Rightarrow> int \<times> 'w"
  u_open :: "string \<Rightarrow> u32 \<Rightarrow> 'w \<Rightarrow> int \<times> 'w"
  u_close :: "int \<Rightarrow> 'w \<Rightarrow> 'w"
  u_fstat :: "int \<Rightarrow> 'w \<Rightarrow> ustat option \<times> 'w"
  u_link :: "string \<Rightarrow> string \<Rightarrow> 'w \<Rightarrow> int \<times> 'w"
  u_unlink :: "string \<Rightarrow> 'w \<Rightarrow> int \<times> 'w"
  u_mkdir :: "string \<Rightarrow> 'w \<Rightarrow> int \<times> 'w"
  u_kill :: "int \<Rightarrow> 'w \<Rightarrow> int \<times> 'w"

text \<open>A routine of a program returns, or the program calls \<^verbatim>\<open>exit\<close>.\<close>

datatype 'w urun = Returned 'w | Exited 'w

section \<open>ulib.c\<close>

partial_function (option) strcpy_loop :: "memory \<Rightarrow> u32 \<Rightarrow> u32 \<Rightarrow> memory option" where
  "strcpy_loop m s t =
     (let c = m t; m = m(s := c) in if c \<noteq> 0 then strcpy_loop m (s + 1) (t + 1) else Some m)"

definition strcpy :: "memory \<Rightarrow> u32 \<Rightarrow> u32 \<Rightarrow> memory option" where
  "strcpy m s t = strcpy_loop m s t"

partial_function (option) strcmp :: "memory \<Rightarrow> u32 \<Rightarrow> u32 \<Rightarrow> int option" where
  "strcmp m p q =
     (if m p \<noteq> 0 \<and> m p = m q then strcmp m (p + 1) (q + 1) else Some (uint (m p) - uint (m q)))"

text \<open>\<^verbatim>\<open>strlen\<close> is the same loop as in the kernel.\<close>

definition ulib_strlen :: "memory \<Rightarrow> u32 \<Rightarrow> nat option" where
  "ulib_strlen m s = strlen_loop m s 0"

definition ulib_memset :: "memory \<Rightarrow> u32 \<Rightarrow> u32 \<Rightarrow> u32 \<Rightarrow> memory" where
  "ulib_memset m dst c n = stosb m dst (ucast c) (unat n)"

partial_function (option) strchr :: "memory \<Rightarrow> u32 \<Rightarrow> u8 \<Rightarrow> u32 option" where
  "strchr m s c = (if m s = 0 then Some 0 else if m s = c then Some s else strchr m (s + 1) c)"

text \<open>The bytes are \<^verbatim>\<open>char\<close>, which is sg.\<close>

partial_function (option) atoi_loop :: "memory \<Rightarrow> u32 \<Rightarrow> int \<Rightarrow> int option" where
  "atoi_loop m s n =
     (if 48 \<le> sint (m s) \<and> sint (m s) \<le> 57
      then atoi_loop m (s + 1) (i32 (n * 10 + sint (m s) - 48)) else Some n)"

definition atoi :: "memory \<Rightarrow> u32 \<Rightarrow> int option" where
  "atoi m s = atoi_loop m s 0"

text \<open>The user's \<^verbatim>\<open>memmove\<close> always copies upwards.\<close>

definition ulib_memmove :: "memory \<Rightarrow> u32 \<Rightarrow> u32 \<Rightarrow> int \<Rightarrow> memory" where
  "ulib_memmove m vdst vsrc n = copy_up m vdst vsrc (nat n)"

text \<open>\<open>room\<close> is \<^verbatim>\<open>max - 1 - i\<close>: the loop fills at most that many more bytes.\<close>

fun gets_loop :: "'w ucalls \<Rightarrow> nat \<Rightarrow> 'w \<Rightarrow> string \<times> 'w" where
  "gets_loop U 0 w = ([], w)"
| "gets_loop U (Suc room) w =
     (case u_read U 0 1 w of
        (Some (c # cs), w) \<Rightarrow>
          (if c = NL \<or> c = CHR 0x0D then ([c], w)
           else let (line, w) = gets_loop U room w in (c # line, w))
      | (_, w) \<Rightarrow> ([], w))"

text \<open>The result is what \<^verbatim>\<open>buf\<close> holds before the terminating zero.\<close>

definition gets :: "'w ucalls \<Rightarrow> int \<Rightarrow> 'w \<Rightarrow> string \<times> 'w" where
  "gets U size_max w = gets_loop U (nat (size_max - 1)) w"

definition ustat_path :: "'w ucalls \<Rightarrow> string \<Rightarrow> 'w \<Rightarrow> ustat option \<times> 'w" where
  "ustat_path U n w =
     (let (fd, w) = u_open U n 0 w
      in if fd < 0 then (None, w)
         else let (r, w) = u_fstat U fd w in (r, u_close U fd w))"

section \<open>printf.c\<close>

definition putc :: "'w ucalls \<Rightarrow> int \<Rightarrow> char \<Rightarrow> 'w \<Rightarrow> 'w" where
  "putc U fd c w = snd (u_write U fd [c] w)"

definition puts :: "'w ucalls \<Rightarrow> int \<Rightarrow> string \<Rightarrow> 'w \<Rightarrow> 'w" where
  "puts U fd cs w = fold (putc U fd) cs w"

lemma puts_simps [simp]:
  "puts U fd [] w = w" "puts U fd (c # cs) w = puts U fd cs (putc U fd c w)"
  "puts U fd (cs @ ds) w = puts U fd ds (puts U fd cs w)"
  by (simp_all add: puts_def)

definition udigits :: string where
  "udigits = ''0123456789ABCDEF''"

function udigit_loop :: "u32 \<Rightarrow> u32 \<Rightarrow> string" where
  "udigit_loop base x =
     udigits ! unat (x mod base) # (if base \<le> 1 \<or> x div base = 0 then [] else udigit_loop base (x div base))"
  by pat_completeness auto
termination
  by (relation "measure (\<lambda>(base, x). unat x)") (use div_word_less in auto)

declare udigit_loop.simps [simp del]

text \<open>The characters in the order in which they are sent. Every caller passes 10 or 16.\<close>

definition uprintint :: "int \<Rightarrow> u32 \<Rightarrow> bool \<Rightarrow> string" where
  "uprintint xx base sg =
     (let neg = (sg \<and> xx < 0);
          x = (if neg then word_of_int (- xx) else word_of_int xx);
          buf = udigit_loop base x;
          buf = (if neg then buf @ ''-'' else buf)
      in rev buf)"

text \<open>
  An argument is a number or a string (\<open>None\<close> is the null pointer). The third parameter is whether
  a percent sign has just been read. \<open>None\<close> is a conversion whose argument is missing or
  is of the other sort.
\<close>

datatype parg = PInt int | PStr "string option"

fun printf_out :: "string \<Rightarrow> parg list \<Rightarrow> bool \<Rightarrow> string option" where
  "printf_out [] args st = Some []"
| "printf_out (c # fmt) args False =
     (if c = CHR ''%'' then printf_out fmt args True
      else map_option (Cons c) (printf_out fmt args False))"
| "printf_out (c # fmt) args True =
     (if c = CHR ''d'' then
        (case args of PInt n # args \<Rightarrow> map_option (append (uprintint n 10 True)) (printf_out fmt args False)
         | _ \<Rightarrow> None)
      else if c = CHR ''x'' \<or> c = CHR ''p'' then
        (case args of PInt n # args \<Rightarrow> map_option (append (uprintint n 16 False)) (printf_out fmt args False)
         | _ \<Rightarrow> None)
      else if c = CHR ''s'' then
        (case args of
           PStr s # args \<Rightarrow>
             map_option (append (case s of None \<Rightarrow> ''(null)'' | Some s \<Rightarrow> s)) (printf_out fmt args False)
         | _ \<Rightarrow> None)
      else if c = CHR ''c'' then
        (case args of PInt n # args \<Rightarrow> map_option (Cons (char_of n)) (printf_out fmt args False)
         | _ \<Rightarrow> None)
      else if c = CHR ''%'' then map_option (Cons c) (printf_out fmt args False)
      else map_option (append [CHR ''%'', c]) (printf_out fmt args False))"

definition printf :: "'w ucalls \<Rightarrow> int \<Rightarrow> string \<Rightarrow> parg list \<Rightarrow> 'w \<Rightarrow> 'w option" where
  "printf U fd fmt args w = map_option (\<lambda>cs. puts U fd cs w) (printf_out fmt args False)"

section \<open>The library on zero-terminated strings\<close>

lemma strcmp_cstr:
  "cstr_at m p xs \<Longrightarrow> cstr_at m q ys \<Longrightarrow> \<exists>d. strcmp m p q = Some d \<and> (d = 0 \<longleftrightarrow> xs = ys)"
proof (induction xs arbitrary: p q ys)
  case Nil
  then show ?case by (cases ys; subst strcmp.simps) (auto simp: cstr_at_Nil cstr_at_Cons unsigned_eq_0_iff)
next
  case (Cons x xs)
  show ?case
  proof (cases ys)
    case Nil
    then show ?thesis using Cons.prems by (subst strcmp.simps) (auto simp: cstr_at_Nil cstr_at_Cons unsigned_eq_0_iff)
  next
    case (Cons y ys')
    then show ?thesis using Cons.prems Cons.IH[of "p + 1" "q + 1" ys']
      by (subst strcmp.simps) (auto simp: cstr_at_Cons dest: word_uint_eqI)
  qed
qed

lemma strchr_cstr:
  "cstr_at m s xs \<Longrightarrow> \<exists>r. strchr m s c = Some r \<and>
     (if c \<in> set xs then m r = c \<and> r = s + of_nat (length (takeWhile (\<lambda>x. x \<noteq> c) xs)) else r = 0)"
proof (induction xs arbitrary: s)
  case Nil
  then show ?case by (subst strchr.simps) (simp add: cstr_at_Nil)
next
  case (Cons x xs)
  have c: "m s = x" "x \<noteq> 0" "cstr_at m (s + 1) xs" using Cons.prems by (simp_all add: cstr_at_Cons)
  obtain r where "strchr m (s + 1) c = Some r"
    "if c \<in> set xs then m r = c \<and> r = s + 1 + of_nat (length (takeWhile (\<lambda>x. x \<noteq> c) xs)) else r = 0"
    using Cons.IH[OF c(3)] by blast
  then show ?case using c by (subst strchr.simps) (auto simp: add.assoc split: if_splits)
qed

text \<open>\<^verbatim>\<open>atoi\<close> as a function of the string.\<close>

fun atoi_str :: "string \<Rightarrow> int \<Rightarrow> int" where
  "atoi_str [] n = n"
| "atoi_str (c # cs) n =
     (if c \<in> set ''0123456789'' then atoi_str cs (i32 (n * 10 + of_char c - 48)) else n)"

lemma digit_byte: "48 \<le> sint (of_char c :: u8) \<and> sint (of_char c :: u8) \<le> 57 \<longleftrightarrow> c \<in> set ''0123456789''"
proof
  let ?w = "of_char c :: u8"
  assume a: "48 \<le> sint ?w \<and> sint ?w \<le> 57"
  have "take_bit 8 (uint ?w) = uint ?w" using uint_bounded[of ?w] by (simp add: take_bit_int_eq_self)
  then have "uint ?w = sint ?w \<or> uint ?w = sint ?w + 256"
    by (simp add: sint_uint signed_take_bit_eq_take_bit_minus)
  then have u: "48 \<le> uint ?w \<and> uint ?w \<le> 57" using a uint_bounded[of ?w] by auto
  define n where "n = (of_char c :: nat)"
  have c: "c = char_of n" by (simp add: n_def)
  have w: "?w = of_nat n" unfolding n_def by (rule of_nat_of_char[symmetric])
  have "n < 256" unfolding n_def by (rule nat_of_char_less_256)
  then have "uint ?w = int n" unfolding w by (simp add: unsigned_of_nat take_bit_nat_eq_self)
  then have "n = 48 \<or> n = 49 \<or> n = 50 \<or> n = 51 \<or> n = 52 \<or> n = 53 \<or> n = 54 \<or> n = 55 \<or> n = 56 \<or> n = 57"
    using u by arith
  then show "c \<in> set ''0123456789''" unfolding c by (elim disjE) (simp_all add: char_of_def bit_0)
next
  assume "c \<in> set ''0123456789''"
  then show "48 \<le> sint (of_char c :: u8) \<and> sint (of_char c :: u8) \<le> 57" by auto
qed

lemma atoi_cstr: "cstr_at m s (map of_char xs) \<Longrightarrow> atoi_loop m s n = Some (atoi_str xs n)"
proof (induction xs arbitrary: s n)
  case Nil
  then show ?case by (subst atoi_loop.simps) (simp add: cstr_at_Nil)
next
  case (Cons x xs)
  show ?case
  proof (cases "x \<in> set ''0123456789''")
    case True
    then have "sint (of_char x :: u8) = of_char x" by auto
    then show ?thesis using Cons True digit_byte[of x] by (subst atoi_loop.simps) (simp add: cstr_at_Cons)
  next
    case False
    then show ?thesis using Cons digit_byte[of x] by (subst atoi_loop.simps) (auto simp: cstr_at_Cons)
  qed
qed

end
