(* ===== verification/Grep.thy ===== *)
theory Grep
  imports User
begin

text \<open>
  \<^verbatim>\<open>src/grep.c\<close>: the pattern matcher and the loop over the lines of a file. A pointer into a
  zero-terminated string is the list of the characters from there on, which contains no zero.
  The matcher is compared with the set of strings a pattern describes.
\<close>

section \<open>The matcher\<close>

fun matchhere :: "string \<Rightarrow> string \<Rightarrow> bool" and matchstar :: "char \<Rightarrow> string \<Rightarrow> string \<Rightarrow> bool" where
  "matchhere [] tx = True"
| "matchhere (c # re) tx =
     (if re \<noteq> [] \<and> hd re = CHR ''*'' then matchstar c (tl re) tx
      else if c = CHR ''$'' \<and> re = [] then tx = []
      else (case tx of [] \<Rightarrow> False | t # ts \<Rightarrow> (c = CHR ''.'' \<or> c = t) \<and> matchhere re ts))"
| "matchstar c re tx =
     (matchhere re tx \<or>
      (case tx of [] \<Rightarrow> False | t # ts \<Rightarrow> (t = c \<or> c = CHR ''.'') \<and> matchstar c re ts))"

declare matchstar.simps [simp del]

fun match_from :: "string \<Rightarrow> string \<Rightarrow> bool" where
  "match_from re [] = matchhere re []"
| "match_from re (t # ts) = (matchhere re (t # ts) \<or> match_from re ts)"

definition match :: "string \<Rightarrow> string \<Rightarrow> bool" where
  "match re tx = (case re of c # re' \<Rightarrow> if c = CHR ''^'' then matchhere re' tx else match_from re tx
     | [] \<Rightarrow> match_from re tx)"

section \<open>The loop over the lines\<close>

definition GREP_BUF :: nat where
  "GREP_BUF = 1024"

text \<open>\<^verbatim>\<open>strchr(p, '\n')\<close> on the rest of the buffer: the line before the newline and what follows it.
  The search ends at the first zero byte, of which there is one after the bytes read.\<close>

fun next_line :: "string \<Rightarrow> (string \<times> string) option" where
  "next_line [] = None"
| "next_line (c # cs) =
     (if c = CHR 0x00 then None
      else if c = NL then Some ([], cs)
      else map_option (\<lambda>(l, r). (c # l, r)) (next_line cs))"

lemma next_line_shorter: "next_line p = Some (l, r) \<Longrightarrow> length r < length p"
  by (induction p arbitrary: l) (auto split: if_splits)

text \<open>The inner loop, from \<^verbatim>\<open>p\<close> on: what is left of the buffer from the last \<^verbatim>\<open>p\<close>.\<close>

function grep_lines :: "'w ucalls \<Rightarrow> string \<Rightarrow> string \<Rightarrow> 'w \<Rightarrow> string \<times> 'w" where
  "grep_lines U pattern p w =
     (case next_line p of None \<Rightarrow> (p, w)
      | Some (line, rest) \<Rightarrow>
          grep_lines U pattern rest
            (if match pattern line then snd (u_write U 1 (line @ [NL]) w) else w))"
  by pat_completeness auto
termination
  by (relation "measure (\<lambda>(_, _, p, _). length p)") (auto dest: next_line_shorter)

declare grep_lines.simps [simp del]

text \<open>
  \<open>kept\<close> is the first \<^verbatim>\<open>m\<close> bytes of \<^verbatim>\<open>buf\<close>. When no line was complete (\<^verbatim>\<open>p == buf\<close>) the
  buffer is dropped.
\<close>

partial_function (option) grep_loop :: "'w ucalls \<Rightarrow> string \<Rightarrow> int \<Rightarrow> string \<Rightarrow> 'w \<Rightarrow> 'w option" where
  "grep_loop U pattern fd kept w =
     (case u_read U fd (GREP_BUF - length kept - 1) w of
        (None, w) \<Rightarrow> Some w
      | (Some bs, w) \<Rightarrow>
          (if bs = [] then Some w
           else let (p, w) = grep_lines U pattern (kept @ bs) w
                in grep_loop U pattern fd (if length p = length (kept @ bs) then [] else p) w))"

definition grep :: "'w ucalls \<Rightarrow> string \<Rightarrow> int \<Rightarrow> 'w \<Rightarrow> 'w option" where
  "grep U pattern fd w = grep_loop U pattern fd [] w"

fun grep_files :: "'w ucalls \<Rightarrow> string \<Rightarrow> string list \<Rightarrow> 'w \<Rightarrow> 'w option" where
  "grep_files U pattern [] w = Some w"
| "grep_files U pattern (name # names) w =
     (let (fd, w) = u_open U name 0 w
      in if fd < 0 then printf U 1 (''grep: cannot open %s'' @ [NL]) [PStr (Some name)] w
         else Option.bind (grep U pattern fd w) (\<lambda>w. grep_files U pattern names (u_close U fd w)))"

text \<open>\<^verbatim>\<open>main\<close>; the world at \<^verbatim>\<open>exit\<close>.\<close>

definition grep_main :: "'w ucalls \<Rightarrow> string list \<Rightarrow> 'w \<Rightarrow> 'w option" where
  "grep_main U argv w =
     (case argv of
        _ # pattern # names \<Rightarrow> (if names = [] then grep U pattern 0 w else grep_files U pattern names w)
      | _ \<Rightarrow> printf U 2 (''usage: grep pattern [file ...]'' @ [NL]) [] w)"

section \<open>What a pattern describes\<close>

text \<open>
  A pattern is a list of steps, each a character (or any) once or any number of times, and an
  anchor at the end.
\<close>

fun steps :: "string \<Rightarrow> (char \<times> bool) list \<times> bool" where
  "steps [] = ([], False)"
| "steps [c] = (if c = CHR ''$'' then ([], True) else ([(c, False)], False))"
| "steps (c # d # re) =
     (if d = CHR ''*'' then let (ss, a) = steps re in ((c, True) # ss, a)
      else let (ss, a) = steps (d # re) in ((c, False) # ss, a))"

definition fits :: "char \<Rightarrow> char \<Rightarrow> bool" where
  "fits c t \<longleftrightarrow> c = CHR ''.'' \<or> c = t"

fun strings_of :: "(char \<times> bool) list \<Rightarrow> string set" where
  "strings_of [] = {[]}"
| "strings_of ((c, False) # ss) = {t # u |t u. fits c t \<and> u \<in> strings_of ss}"
| "strings_of ((c, True) # ss) = {v @ u |v u. (\<forall>t \<in> set v. fits c t) \<and> u \<in> strings_of ss}"

definition prefix_fits :: "string \<Rightarrow> string \<Rightarrow> bool" where
  "prefix_fits re tx \<longleftrightarrow>
     (\<exists>u v. tx = u @ v \<and> u \<in> strings_of (fst (steps re)) \<and> (snd (steps re) \<longrightarrow> v = []))"

definition describes :: "string \<Rightarrow> string \<Rightarrow> bool" where
  "describes re tx \<longleftrightarrow>
     (if re \<noteq> [] \<and> hd re = CHR ''^'' then prefix_fits (tl re) tx
      else \<exists>u v. tx = u @ v \<and> prefix_fits re v)"

lemma prefix_fits_star:
  "prefix_fits (c # CHR ''*'' # re) tx \<longleftrightarrow>
     (\<exists>v w. tx = v @ w \<and> (\<forall>t \<in> set v. fits c t) \<and> prefix_fits re w)" (is "?L \<longleftrightarrow> ?R")
proof -
  have s: "strings_of (fst (steps (c # CHR ''*'' # re))) =
      {v @ u |v u. (\<forall>t \<in> set v. fits c t) \<and> u \<in> strings_of (fst (steps re))}"
    "snd (steps (c # CHR ''*'' # re)) = snd (steps re)"
    by (simp_all split: prod.splits)
  show ?thesis
  proof
    assume ?L
    then obtain v u r where "tx = (v @ u) @ r" "\<forall>t \<in> set v. fits c t"
      "u \<in> strings_of (fst (steps re))" "snd (steps re) \<longrightarrow> r = []"
      unfolding prefix_fits_def s by blast
    then show ?R unfolding prefix_fits_def by - (rule exI[of _ v], rule exI[of _ "u @ r"], auto)
  next
    assume ?R
    then obtain v u r where "tx = v @ u @ r" "\<forall>t \<in> set v. fits c t"
      "u \<in> strings_of (fst (steps re))" "snd (steps re) \<longrightarrow> r = []"
      unfolding prefix_fits_def by blast
    then show ?L unfolding prefix_fits_def s by - (rule exI[of _ "v @ u"], rule exI[of _ r], auto)
  qed
qed

lemma star_step:
  "prefix_fits (c # CHR ''*'' # re) tx \<longleftrightarrow> prefix_fits re tx \<or>
     (case tx of [] \<Rightarrow> False | t # ts \<Rightarrow> fits c t \<and> prefix_fits (c # CHR ''*'' # re) ts)"
  (is "?L \<longleftrightarrow> ?R")
proof
  assume ?L
  then obtain v w where d: "tx = v @ w" "\<forall>t \<in> set v. fits c t" "prefix_fits re w"
    by (auto simp: prefix_fits_star)
  then show ?R by (cases v) (auto simp: prefix_fits_star)
next
  assume ?R
  then consider "prefix_fits re tx" | t ts where "tx = t # ts" "fits c t" "prefix_fits (c # CHR ''*'' # re) ts"
    by (auto split: list.splits)
  then show ?L
  proof cases
    case 1
    then show ?thesis unfolding prefix_fits_star by - (rule exI[of _ "[]"], rule exI[where x = "tx"], simp)
  next
    case 2
    then obtain v w where "ts = v @ w" "\<forall>t \<in> set v. fits c t" "prefix_fits re w"
      by (auto simp: prefix_fits_star)
    then show ?thesis using 2 unfolding prefix_fits_star by - (rule exI[of _ "t # v"], rule exI[of _ w], simp)
  qed
qed

lemma one_step:
  assumes "\<not> (re \<noteq> [] \<and> hd re = CHR ''*'')" "\<not> (c = CHR ''$'' \<and> re = [])"
  shows "prefix_fits (c # re) tx \<longleftrightarrow>
     (case tx of [] \<Rightarrow> False | t # ts \<Rightarrow> fits c t \<and> prefix_fits re ts)"
proof -
  have "steps (c # re) = ((c, False) # fst (steps re), snd (steps re))"
    using assms by (cases re) (auto split: prod.splits)
  then have p: "prefix_fits (c # re) w \<longleftrightarrow> (\<exists>t u v. w = t # u @ v \<and> fits c t \<and>
      u \<in> strings_of (fst (steps re)) \<and> (snd (steps re) \<longrightarrow> v = []))" for w
    unfolding prefix_fits_def append_Cons[symmetric] by (simp del: append_Cons) blast
  show ?thesis by (cases tx) (simp_all add: p, unfold prefix_fits_def, blast)
qed

lemma match_here_star:
  "matchhere re tx \<longleftrightarrow> prefix_fits re tx"
  "matchstar c re tx \<longleftrightarrow> prefix_fits (c # CHR ''*'' # re) tx"
proof (induction re tx and c re tx rule: matchhere_matchstar.induct)
  case (1 tx)
  then show ?case by (simp add: prefix_fits_def)
next
  case (2 c re tx)
  show ?case
  proof (cases "re \<noteq> [] \<and> hd re = CHR ''*''")
    case True
    then obtain re' where "re = CHR ''*'' # re'" by (cases re) auto
    then show ?thesis using 2(1)[OF True] by simp
  next
    case False
    show ?thesis
    proof (cases "c = CHR ''$'' \<and> re = []")
      case True
      then show ?thesis by (auto simp: prefix_fits_def)
    next
      case F2: False
      then show ?thesis using False 2(2)[OF False F2] one_step[OF False F2, of tx]
        by (cases tx) (auto simp: fits_def)
    qed
  qed
next
  case (3 c re tx)
  then show ?case by (subst star_step, cases tx) (auto simp: fits_def matchstar.simps[of c re])
qed

lemma match_from_iff: "match_from re tx \<longleftrightarrow> (\<exists>u v. tx = u @ v \<and> prefix_fits re v)"
proof (induction tx)
  case Nil
  then show ?case by (simp add: match_here_star)
next
  case (Cons t ts)
  have "(\<exists>u v. t # ts = u @ v \<and> prefix_fits re v) \<longleftrightarrow> prefix_fits re (t # ts) \<or> (\<exists>u v. ts = u @ v \<and> prefix_fits re v)"
    by (metis append_Cons append_Nil append_eq_Cons_conv)
  then show ?case using Cons by (simp add: match_here_star)
qed

lemma match_describes: "match re tx \<longleftrightarrow> describes re tx"
  by (simp add: match_def describes_def match_here_star match_from_iff split: list.splits)


section \<open>Reading a file\<close>

text \<open>
  Reading a file answers with the next bytes, as many as asked for while there are that many;
  writing to the standard output appends to \<open>out\<close> and does not change what is left to read.
\<close>

definition reads_file :: "'w ucalls \<Rightarrow> int \<Rightarrow> ('w \<Rightarrow> string) \<Rightarrow> ('w \<Rightarrow> string) \<Rightarrow> bool" where
  "reads_file U fd left out \<longleftrightarrow>
     (\<forall>n w. fst (u_read U fd n w) = Some (take n (left w)) \<and>
        left (snd (u_read U fd n w)) = drop n (left w) \<and> out (snd (u_read U fd n w)) = out w) \<and>
     (\<forall>bs w. left (snd (u_write U 1 bs w)) = left w \<and> out (snd (u_write U 1 bs w)) = out w @ bs)"

text \<open>The complete lines of a text, and what follows the last newline.\<close>

fun lines_of :: "string \<Rightarrow> string list" where
  "lines_of [] = []"
| "lines_of (c # cs) =
     (if c = NL then [] # lines_of cs
      else case lines_of cs of [] \<Rightarrow> [] | l # ls \<Rightarrow> (c # l) # ls)"

fun tail_of :: "string \<Rightarrow> string" where
  "tail_of [] = []"
| "tail_of (c # cs) = (if NL \<in> set (c # cs) then tail_of cs else c # cs)"

definition with_newlines :: "string list \<Rightarrow> string" where
  "with_newlines ls = concat (map (\<lambda>l. l @ [NL]) ls)"

lemma with_newlines_simps [simp]:
  "with_newlines [] = []" "with_newlines (l # ls) = l @ [NL] @ with_newlines ls"
  "with_newlines (ls @ ls') = with_newlines ls @ with_newlines ls'"
  by (simp_all add: with_newlines_def)

lemma next_line_None: "CHR 0x00 \<notin> set p \<Longrightarrow> next_line p = None \<longleftrightarrow> NL \<notin> set p"
  by (induction p) auto

lemma next_line_Some: "next_line p = Some (l, r) \<Longrightarrow> p = l @ NL # r \<and> NL \<notin> set l"
  by (induction p arbitrary: l) (auto split: if_splits)

lemma lines_of_none: "lines_of p = [] \<longleftrightarrow> NL \<notin> set p"
  by (induction p) (auto split: list.splits)

lemma lines_of_line: "NL \<notin> set l \<Longrightarrow> lines_of (l @ NL # r) = l # lines_of r"
  by (induction l) auto

lemma tail_of_line: "tail_of (l @ NL # r) = tail_of r"
  by (induction l) (use tail_of.elims in auto)

lemma tail_of_whole: "NL \<notin> set p \<Longrightarrow> tail_of p = p"
  by (cases p) auto

lemma tail_of_length: "length (tail_of p) \<le> length p \<and> (NL \<in> set p \<longrightarrow> length (tail_of p) < length p)"
  by (induction p) auto

lemma tail_of_set: "set (tail_of p) \<subseteq> set p" "NL \<notin> set (tail_of p)"
  by (induction p) auto

lemma lines_of_append: "lines_of (a @ b) = lines_of a @ lines_of (tail_of a @ b)"
proof (induction a)
  case (Cons c a)
  show ?case
  proof (cases "NL \<in> set (c # a)")
    case True
    then have "NL \<in> set a \<or> c = NL \<and> NL \<notin> set a" by auto
    then show ?thesis
    proof
      assume "NL \<in> set a"
      then have "lines_of a \<noteq> []" by (simp add: lines_of_none)
      then show ?thesis using Cons True by (auto split: list.splits)
    qed (use Cons in auto)
  next
    case False
    then show ?thesis by (simp add: lines_of_none[THEN iffD2] tail_of_whole del: lines_of.simps)
  qed
qed simp

lemma grep_lines_ok:
  assumes rf: "reads_file U fd left out" and "CHR 0x00 \<notin> set p"
  shows "\<exists>w'. grep_lines U pat p w = (tail_of p, w') \<and> left w' = left w \<and>
    out w' = out w @ with_newlines (filter (match pat) (lines_of p))"
  using assms(2)
proof (induction p arbitrary: w rule: measure_induct_rule[of length])
  case (less p)
  show ?case
  proof (cases "next_line p")
    case None
    then have "NL \<notin> set p" using less(2) by (simp add: next_line_None)
    then show ?thesis using None
      by (subst grep_lines.simps) (simp add: tail_of_whole lines_of_none[THEN iffD2])
  next
    case (Some lr)
    then obtain l r where s: "next_line p = Some (l, r)" by (cases lr) auto
    note p = next_line_Some[OF s]
    let ?w = "if match pat l then snd (u_write U 1 (l @ [NL]) w) else w"
    have "\<exists>w'. grep_lines U pat r ?w = (tail_of r, w') \<and> left w' = left ?w \<and>
        out w' = out ?w @ with_newlines (filter (match pat) (lines_of r))"
      using less(2) p next_line_shorter[OF s] by (intro less(1)) auto
    then show ?thesis using rf p s
      by (subst grep_lines.simps) (auto simp: reads_file_def lines_of_line tail_of_line)
  qed
qed

lemma long_line:
  assumes "NL \<notin> set p" "lines_of (p @ r) \<noteq> []"
  shows "length p \<le> length (hd (lines_of (p @ r)))"
  using assms
proof (induction p)
  case (Cons c p)
  then show ?case by (cases "lines_of (p @ r)") auto
qed simp

text \<open>What the loop keeps of the buffer is what the remaining lines need.\<close>

lemma grep_keeps:
  fixes kept r :: string and n :: nat
  defines "p \<equiv> kept @ take n r"
  assumes "length kept + n = GREP_BUF - 1" "\<forall>l \<in> set (lines_of (kept @ r)). length l < GREP_BUF - 1"
  shows "lines_of (kept @ r) =
    lines_of p @ lines_of ((if length (tail_of p) = length p then [] else tail_of p) @ drop n r)"
proof -
  have s: "kept @ r = p @ drop n r" by (simp add: p_def)
  show ?thesis
  proof (cases "NL \<in> set p")
    case True
    then show ?thesis using tail_of_length[of p] lines_of_append[of p "drop n r"] s by simp
  next
    case False
    have "lines_of (p @ drop n r) = lines_of (drop n r)"
    proof (cases "lines_of (p @ drop n r) = []")
      case True
      moreover have "lines_of (drop n r) = []" using True by (simp add: lines_of_none)
      ultimately show ?thesis by simp
    next
      case some: False
      then have "n < length r" using False by (cases "n < length r") (auto simp: lines_of_none)
      then have "length p = GREP_BUF - 1" using assms(2) by (simp add: p_def)
      then show ?thesis using long_line[OF False some] assms(3) some s
        by (metis hd_in_set leD)
    qed
    then show ?thesis using False s by (simp add: tail_of_whole lines_of_none[THEN iffD2])
  qed
qed

lemma grep_loop_ok:
  assumes rf: "reads_file U fd left out" and "CHR 0x00 \<notin> set (kept @ left w)"
    and "NL \<notin> set kept" "length kept < GREP_BUF - 1"
    and "\<forall>l \<in> set (lines_of (kept @ left w)). length l < GREP_BUF - 1"
  shows "\<exists>w'. grep_loop U pat fd kept w = Some w' \<and>
    out w' = out w @ with_newlines (filter (match pat) (lines_of (kept @ left w)))"
  using assms(2-)
proof (induction "left w" arbitrary: kept w rule: measure_induct_rule[of length])
  case less
  define n where "n = GREP_BUF - length kept - 1"
  define w1 where "w1 = snd (u_read U fd n w)"
  have n: "0 < n" "length kept + n = GREP_BUF - 1" using less(4) by (auto simp: n_def)
  have rd: "u_read U fd n w = (Some (take n (left w)), w1)" and l1: "left w1 = drop n (left w)" "out w1 = out w"
    using rf by (auto simp: reads_file_def w1_def prod_eq_iff)
  show ?case
  proof (cases "left w = []")
    case True
    then show ?thesis using less(3) rd l1
      by (subst grep_loop.simps) (simp add: n_def lines_of_none[THEN iffD2])
  next
    case False
    let ?p = "kept @ take n (left w)"
    let ?k = "if length (tail_of ?p) = length ?p then [] else tail_of ?p"
    obtain w2 where w2: "grep_lines U pat ?p w1 = (tail_of ?p, w2)" "left w2 = drop n (left w)"
      "out w2 = out w @ with_newlines (filter (match pat) (lines_of ?p))"
      using grep_lines_ok[OF rf, of ?p pat w1] less(2) l1 by (auto dest: in_set_takeD)
    have k: "NL \<notin> set ?k" "length ?k < GREP_BUF - 1" "set ?k \<subseteq> set ?p"
      using tail_of_length[of ?p] tail_of_set[of ?p] n tail_of_whole[of ?p]
      by (auto split: if_splits)
    have ls: "lines_of (kept @ left w) = lines_of ?p @ lines_of (?k @ left w2)"
      using grep_keeps[of kept n "left w"] n less(5) w2(2) by simp
    have "\<exists>w'. grep_loop U pat fd ?k w2 = Some w' \<and>
        out w' = out w2 @ with_newlines (filter (match pat) (lines_of (?k @ left w2)))"
      using less(2,5) ls k n False w2(2)
      by (intro less(1)) (auto dest: in_set_takeD in_set_dropD)
    moreover have "grep_loop U pat fd kept w = grep_loop U pat fd ?k w2"
      using False n(1) rd w2(1) unfolding n_def by (subst grep_loop.simps) simp
    ultimately show ?thesis using w2(3) ls by auto
  qed
qed

section \<open>Properties\<close>

text \<open>
  C12. On a file without zero bytes whose lines have fewer than 1023 characters, \<^verbatim>\<open>grep\<close> ends and prints
  exactly the complete lines that contain a string the pattern describes, in order.
\<close>

theorem grep_prints_matching_lines:
  assumes "reads_file U fd left out" "CHR 0x00 \<notin> set (left w)"
    and "\<forall>l \<in> set (lines_of (left w)). length l < GREP_BUF - 1"
  shows "\<exists>w'. grep U pattern fd w = Some w' \<and>
    out w' = out w @ with_newlines (filter (describes pattern) (lines_of (left w)))"
proof -
  have "match pattern = describes pattern" by (simp add: fun_eq_iff match_describes)
  then show ?thesis using grep_loop_ok[OF assms(1), of "[]" w pattern] assms(2,3)
    by (simp add: grep_def GREP_BUF_def)
qed

text \<open>A file and the output.\<close>

definition demo_calls :: "(string \<times> string) ucalls" where
  "demo_calls = \<lparr>u_read = \<lambda>_ n (r, out). (Some (take n r), (drop n r, out)),
     u_write = \<lambda>_ bs (r, out). (int (length bs), (r, out @ bs)),
     u_open = \<lambda>_ _ w. (3, w), u_close = \<lambda>_ w. w, u_fstat = \<lambda>_ w. (None, w), u_link = \<lambda>_ _ w. (0, w),
     u_unlink = \<lambda>_ w. (0, w), u_mkdir = \<lambda>_ w. (0, w), u_kill = \<lambda>_ w. (0, w)\<rparr>"

lemma demo_reads_file: "reads_file demo_calls fd fst snd"
  by (auto simp: reads_file_def demo_calls_def)

theorem grep_prints_matching_lines_witness:
  "\<exists>w'. grep demo_calls ''b*c$'' 3 (''abbc'' @ [NL] @ ''cb'' @ [NL] @ ''bc'', []) = Some w' \<and> snd w' = ''abbc'' @ [NL]"
  using grep_prints_matching_lines[OF demo_reads_file[of 3], of "(''abbc'' @ [NL] @ ''cb'' @ [NL] @ ''bc'', [])" "''b*c$''"]
  by (simp add: GREP_BUF_def match_describes[symmetric] match_def matchstar.simps)

text \<open>
  A line that arrives in two parts, as from a pipe, is lost when the first part has no newline.
\<close>

definition parts_calls :: "(string list \<times> string) ucalls" where
  "parts_calls = \<lparr>u_read = \<lambda>_ n (rs, out). (case rs of [] \<Rightarrow> (Some [], ([], out)) | r # rs \<Rightarrow> (Some (take n r), (rs, out))),
     u_write = \<lambda>_ bs (r, out). (int (length bs), (r, out @ bs)),
     u_open = \<lambda>_ _ w. (3, w), u_close = \<lambda>_ w. w, u_fstat = \<lambda>_ w. (None, w), u_link = \<lambda>_ _ w. (0, w),
     u_unlink = \<lambda>_ w. (0, w), u_mkdir = \<lambda>_ w. (0, w), u_kill = \<lambda>_ w. (0, w)\<rparr>"

lemma grep_loses_split_line:
  "grep parts_calls ''a'' 0 ([''ab'', ''c'' @ [NL]], []) = Some ([], [])"
  by (simp add: grep_def grep_loop.simps grep_lines.simps parts_calls_def GREP_BUF_def match_def)

end
