(* ===== verification/Programs.thy ===== *)
theory Programs
  imports Grep
begin

text \<open>
  The small user programs: \<^verbatim>\<open>src/cat.c\<close>, \<^verbatim>\<open>echo.c\<close>, \<^verbatim>\<open>kill.c\<close>, \<^verbatim>\<open>ln.c\<close>, \<^verbatim>\<open>mkdir.c\<close>, \<^verbatim>\<open>rm.c\<close>,
  \<^verbatim>\<open>wc.c\<close> and \<^verbatim>\<open>ls.c\<close>. A \<^verbatim>\<open>main\<close> is a function of its arguments (the name of the program first) that
  gives the world at \<^verbatim>\<open>exit\<close>; \<open>None\<close> is a program that does not end.
\<close>

section \<open>cat.c\<close>

partial_function (option) cat :: "'w ucalls \<Rightarrow> int \<Rightarrow> 'w \<Rightarrow> 'w urun option" where
  "cat U fd w =
     (case u_read U fd 512 w of
        (None, w) \<Rightarrow> map_option Exited (printf U 1 (''cat: read error'' @ [NL]) [] w)
      | (Some bs, w) \<Rightarrow>
          (if bs = [] then Some (Returned w)
           else let (n, w) = u_write U 1 bs w
                in if n \<noteq> int (length bs)
                   then map_option Exited (printf U 1 (''cat: write error'' @ [NL]) [] w)
                   else cat U fd w))"

fun cat_files :: "'w ucalls \<Rightarrow> string list \<Rightarrow> 'w \<Rightarrow> 'w option" where
  "cat_files U [] w = Some w"
| "cat_files U (name # names) w =
     (let (fd, w) = u_open U name 0 w
      in if fd < 0 then printf U 1 (''cat: cannot open %s'' @ [NL]) [PStr (Some name)] w
         else (case cat U fd w of
             None \<Rightarrow> None
           | Some (Exited w) \<Rightarrow> Some w
           | Some (Returned w) \<Rightarrow> cat_files U names (u_close U fd w)))"

definition cat_main :: "'w ucalls \<Rightarrow> string list \<Rightarrow> 'w \<Rightarrow> 'w option" where
  "cat_main U argv w =
     (if length argv \<le> 1
      then (case cat U 0 w of None \<Rightarrow> None | Some (Exited w) \<Rightarrow> Some w | Some (Returned w) \<Rightarrow> Some w)
      else cat_files U (tl argv) w)"

section \<open>echo.c, kill.c, ln.c, mkdir.c, rm.c\<close>

fun echo_loop :: "'w ucalls \<Rightarrow> string list \<Rightarrow> 'w \<Rightarrow> 'w option" where
  "echo_loop U [] w = Some w"
| "echo_loop U (a # as) w =
     Option.bind (printf U 1 ''%s%s'' [PStr (Some a), PStr (Some (if as \<noteq> [] then '' '' else [NL]))] w) (echo_loop U as)"

definition echo_main :: "'w ucalls \<Rightarrow> string list \<Rightarrow> 'w \<Rightarrow> 'w option" where
  "echo_main U argv w = echo_loop U (tl argv) w"

definition kill_main :: "'w ucalls \<Rightarrow> string list \<Rightarrow> 'w \<Rightarrow> 'w option" where
  "kill_main U argv w =
     (if length argv < 2 then printf U 2 (''usage: kill pid...'' @ [NL]) [] w
      else Some (fold (\<lambda>a w. snd (u_kill U (atoi_str a 0) w)) (tl argv) w))"

definition ln_main :: "'w ucalls \<Rightarrow> string list \<Rightarrow> 'w \<Rightarrow> 'w option" where
  "ln_main U argv w =
     (case argv of
        [_, old, new] \<Rightarrow>
          (let (r, w) = u_link U old new w
           in if r < 0 then printf U 2 (''link %s %s: failed'' @ [NL]) [PStr (Some old), PStr (Some new)] w
              else Some w)
      | _ \<Rightarrow> printf U 2 (''Usage: ln old new'' @ [NL]) [] w)"

fun mkdir_loop :: "'w ucalls \<Rightarrow> string list \<Rightarrow> 'w \<Rightarrow> 'w option" where
  "mkdir_loop U [] w = Some w"
| "mkdir_loop U (a # as) w =
     (let (r, w) = u_mkdir U a w
      in if r < 0 then printf U 2 (''mkdir: %s failed to create'' @ [NL]) [PStr (Some a)] w else mkdir_loop U as w)"

definition mkdir_main :: "'w ucalls \<Rightarrow> string list \<Rightarrow> 'w \<Rightarrow> 'w option" where
  "mkdir_main U argv w =
     (if length argv < 2 then printf U 2 (''Usage: mkdir files...'' @ [NL]) [] w else mkdir_loop U (tl argv) w)"

fun rm_loop :: "'w ucalls \<Rightarrow> string list \<Rightarrow> 'w \<Rightarrow> 'w option" where
  "rm_loop U [] w = Some w"
| "rm_loop U (a # as) w =
     (let (r, w) = u_unlink U a w
      in if r < 0 then printf U 2 (''rm: %s failed to delete'' @ [NL]) [PStr (Some a)] w else rm_loop U as w)"

definition rm_main :: "'w ucalls \<Rightarrow> string list \<Rightarrow> 'w \<Rightarrow> 'w option" where
  "rm_main U argv w =
     (if length argv < 2 then printf U 2 (''Usage: rm files...'' @ [NL]) [] w else rm_loop U (tl argv) w)"

section \<open>wc.c\<close>

text \<open>The counters \<^verbatim>\<open>l\<close>, \<^verbatim>\<open>w\<close>, \<^verbatim>\<open>c\<close> and the flag \<^verbatim>\<open>inword\<close>.\<close>

record wc_state =
  wc_l :: int
  wc_w :: int
  wc_c :: int
  inword :: bool

definition wc_blanks :: string where
  "wc_blanks = [CHR '' '', CHR 0x0D, CHR 0x09, NL, CHR 0x0B]"

definition wc_char :: "char \<Rightarrow> wc_state \<Rightarrow> wc_state" where
  "wc_char b k =
     (let k = k\<lparr>wc_c := i32 (wc_c k + 1)\<rparr>;
          k = (if b = NL then k\<lparr>wc_l := i32 (wc_l k + 1)\<rparr> else k)
      in if b \<in> set wc_blanks then k\<lparr>inword := False\<rparr>
         else if \<not> inword k then k\<lparr>wc_w := i32 (wc_w k + 1), inword := True\<rparr>
         else k)"

partial_function (option) wc_loop :: "'w ucalls \<Rightarrow> int \<Rightarrow> string \<Rightarrow> wc_state \<Rightarrow> 'w \<Rightarrow> 'w urun option" where
  "wc_loop U fd name k w =
     (case u_read U fd 512 w of
        (None, w) \<Rightarrow> map_option Exited (printf U 1 (''wc: read error'' @ [NL]) [] w)
      | (Some bs, w) \<Rightarrow>
          (if bs = [] then
             map_option Returned (printf U 1 (''%d %d %d %s'' @ [NL])
               [PInt (wc_l k), PInt (wc_w k), PInt (wc_c k), PStr (Some name)] w)
           else wc_loop U fd name (fold wc_char bs k) w))"

definition wc :: "'w ucalls \<Rightarrow> int \<Rightarrow> string \<Rightarrow> 'w \<Rightarrow> 'w urun option" where
  "wc U fd name w = wc_loop U fd name \<lparr>wc_l = 0, wc_w = 0, wc_c = 0, inword = False\<rparr> w"

fun wc_files :: "'w ucalls \<Rightarrow> string list \<Rightarrow> 'w \<Rightarrow> 'w option" where
  "wc_files U [] w = Some w"
| "wc_files U (name # names) w =
     (let (fd, w) = u_open U name 0 w
      in if fd < 0 then printf U 1 (''wc: cannot open %s'' @ [NL]) [PStr (Some name)] w
         else (case wc U fd name w of
             None \<Rightarrow> None
           | Some (Exited w) \<Rightarrow> Some w
           | Some (Returned w) \<Rightarrow> wc_files U names (u_close U fd w)))"

definition wc_main :: "'w ucalls \<Rightarrow> string list \<Rightarrow> 'w \<Rightarrow> 'w option" where
  "wc_main U argv w =
     (if length argv \<le> 1
      then (case wc U 0 [] w of None \<Rightarrow> None | Some (Exited w) \<Rightarrow> Some w | Some (Returned w) \<Rightarrow> Some w)
      else wc_files U (tl argv) w)"

section \<open>ls.c\<close>

definition LS_DIRSIZ :: nat where
  "LS_DIRSIZ = 14"

definition fmtname :: "string \<Rightarrow> string" where
  "fmtname path =
     (let p = rev (takeWhile (\<lambda>c. c \<noteq> CHR ''/'') (rev path))
      in if LS_DIRSIZ \<le> length p then p else p @ replicate (LS_DIRSIZ - length p) CHR '' '')"

definition ls_line :: "'w ucalls \<Rightarrow> string \<Rightarrow> ustat \<Rightarrow> 'w \<Rightarrow> 'w option" where
  "ls_line U path st w =
     printf U 1 (''%s %d %d %d'' @ [NL])
       [PStr (Some (fmtname path)), PInt (us_type st), PInt (us_ino st), PInt (us_size st)] w"

text \<open>
  A directory entry is sixteen bytes: the inode number, low byte first, and the name, which ends at
  its first zero byte if it has one.
\<close>

partial_function (option) ls_entries :: "'w ucalls \<Rightarrow> int \<Rightarrow> string \<Rightarrow> 'w \<Rightarrow> 'w option" where
  "ls_entries U fd path w =
     (case u_read U fd (2 + LS_DIRSIZ) w of
        (None, w) \<Rightarrow> Some w
      | (Some de, w) \<Rightarrow>
          (if length de \<noteq> 2 + LS_DIRSIZ then Some w
           else if de ! 0 = CHR 0x00 \<and> de ! 1 = CHR 0x00 then ls_entries U fd path w
           else let buf = path @ ''/'' @ takeWhile (\<lambda>c. c \<noteq> CHR 0x00) (drop 2 de);
                    (st, w) = ustat_path U buf w
                in (case st of
                      None \<Rightarrow> Option.bind (printf U 1 (''ls: cannot stat %s'' @ [NL]) [PStr (Some buf)] w)
                        (\<lambda>w. ls_entries U fd path w)
                    | Some st \<Rightarrow> Option.bind (ls_line U buf st w) (\<lambda>w. ls_entries U fd path w))))"

definition ls :: "'w ucalls \<Rightarrow> string \<Rightarrow> 'w \<Rightarrow> 'w option" where
  "ls U path w =
     (let (fd, w) = u_open U path 0 w
      in if fd < 0 then printf U 2 (''ls: cannot open %s'' @ [NL]) [PStr (Some path)] w
         else let (st, w) = u_fstat U fd w
              in (case st of
                    None \<Rightarrow> map_option (u_close U fd) (printf U 2 (''ls: cannot stat %s'' @ [NL]) [PStr (Some path)] w)
                  | Some st \<Rightarrow>
                      map_option (u_close U fd)
                        (if us_type st = 2 then ls_line U path st w
                         else if us_type st = 1 then
                           (if 512 < length path + 1 + LS_DIRSIZ + 1
                            then printf U 1 (''ls: path too long'' @ [NL]) [] w
                            else ls_entries U fd path w)
                         else Some w)))"

fun ls_all :: "'w ucalls \<Rightarrow> string list \<Rightarrow> 'w \<Rightarrow> 'w option" where
  "ls_all U [] w = Some w"
| "ls_all U (p # ps) w = Option.bind (ls U p w) (ls_all U ps)"

definition ls_main :: "'w ucalls \<Rightarrow> string list \<Rightarrow> 'w \<Rightarrow> 'w option" where
  "ls_main U argv w = (if length argv < 2 then ls U ''.'' w else ls_all U (tl argv) w)"

section \<open>Correctness\<close>

lemma reads_file_puts:
  assumes "reads_file U fd left out"
  shows "left (puts U 1 cs w) = left w \<and> out (puts U 1 cs w) = out w @ cs"
  using assms by (induction cs arbitrary: w) (auto simp: putc_def reads_file_def)

text \<open>The counters as functions of the text: a word starts at a nonblank after a blank or at the start.\<close>

definition word_starts :: "string \<Rightarrow> nat set" where
  "word_starts s = {i. i < length s \<and> s ! i \<notin> set wc_blanks \<and> (i = 0 \<or> s ! (i - 1) \<in> set wc_blanks)}"

definition wc_of :: "string \<Rightarrow> wc_state" where
  "wc_of s = \<lparr>wc_l = int (length (filter (\<lambda>c. c = NL) s)), wc_w = int (card (word_starts s)), wc_c = int (length s),
     inword = (s \<noteq> [] \<and> last s \<notin> set wc_blanks)\<rparr>"

lemma word_starts_snoc:
  "word_starts (s @ [c]) = word_starts s \<union>
     (if c \<notin> set wc_blanks \<and> (s = [] \<or> last s \<in> set wc_blanks) then {length s} else {})"
  by (cases s rule: rev_cases) (auto simp: word_starts_def nth_append less_Suc_eq split: if_splits)

lemma word_starts_finite: "finite (word_starts s)" "length s \<notin> word_starts s"
  by (simp_all add: word_starts_def)

lemma card_word_starts: "card (word_starts s) \<le> length s"
proof -
  have "word_starts s \<subseteq> {..<length s}" by (auto simp: word_starts_def)
  then show ?thesis using card_mono[of "{..<length s}" "word_starts s"] by simp
qed

lemma wc_char_of:
  assumes "int (length s) + 1 < 2 ^ 31"
  shows "wc_char c (wc_of s) = wc_of (s @ [c])"
proof -
  have "in_i32 (int (length s) + 1)" "in_i32 (int (card (word_starts s)) + 1)"
    "in_i32 (int (length (filter (\<lambda>c. c = NL) s)) + 1)"
    using assms card_word_starts[of s] length_filter_le[of "\<lambda>c. c = NL" s] by (auto simp: in_i32_def simp del: length_filter_le)
  moreover have "NL \<in> set wc_blanks" by (simp add: wc_blanks_def)
  ultimately show ?thesis
    using word_starts_finite[of s] by (auto simp: wc_char_def wc_of_def word_starts_snoc Let_def)
qed

lemma wc_fold:
  "int (length (s @ bs)) < 2 ^ 31 \<Longrightarrow> fold wc_char bs (wc_of s) = wc_of (s @ bs)"
proof (induction bs arbitrary: s)
  case (Cons b bs)
  then show ?case using wc_char_of[of s b] Cons.IH[of "s @ [b]"] by simp
qed simp

definition wc_report :: "string \<Rightarrow> string \<Rightarrow> string" where
  "wc_report name s =
     uprintint (wc_l (wc_of s)) 10 True @ '' '' @ uprintint (wc_w (wc_of s)) 10 True @ '' '' @
     uprintint (wc_c (wc_of s)) 10 True @ '' '' @ name @ [NL]"

lemma wc_loop_ok:
  assumes rf: "reads_file U fd left out" and "int (length (s @ left w)) < 2 ^ 31"
  shows "\<exists>w'. wc_loop U fd name (wc_of s) w = Some (Returned w') \<and> out w' = out w @ wc_report name (s @ left w)"
  using assms(2)
proof (induction "left w" arbitrary: s w rule: measure_induct_rule[of length])
  case less
  define w1 where "w1 = snd (u_read U fd 512 w)"
  have rd: "u_read U fd 512 w = (Some (take 512 (left w)), w1)" and l1: "left w1 = drop 512 (left w)" "out w1 = out w"
    using rf by (auto simp: reads_file_def w1_def prod_eq_iff)
  show ?case
  proof (cases "left w = []")
    case True
    then show ?thesis using rd l1 reads_file_puts[OF rf]
      by (subst wc_loop.simps) (simp add: printf_def wc_report_def del: puts_simps)
  next
    case False
    then have "wc_loop U fd name (wc_of s) w = wc_loop U fd name (wc_of (s @ take 512 (left w))) w1"
      using rd less(2) wc_fold[of s "take 512 (left w)"] by (subst wc_loop.simps) simp
    then show ?thesis using less(1)[of w1 "s @ take 512 (left w)"] l1 less(2) False by simp
  qed
qed

text \<open>Decimal notation, and that \<^verbatim>\<open>printint\<close> writes it.\<close>

fun decimal :: "nat \<Rightarrow> string" where
  "decimal n = (if n < 10 then [] else decimal (n div 10)) @ [''0123456789'' ! (n mod 10)]"

declare decimal.simps [simp del]

lemma udigit_loop_decimal: "n < 2 ^ 32 \<Longrightarrow> rev (udigit_loop 10 (of_nat n)) = decimal n"
proof (induction n rule: decimal.induct)
  case (1 n)
  let ?x = "of_nat n :: u32"
  have u: "unat ?x = n" using 1(2) by (simp add: unat_of_nat)
  then have m: "unat (?x mod 10) = n mod 10" by (simp add: unat_mod_distrib)
  have d: "?x div 10 = of_nat (n div 10)" using u by (simp add: word_unat_eq_iff unat_div_distrib unat_of_nat)
  have z: "?x div 10 = 0 \<longleftrightarrow> n < 10" using u by (simp add: word_unat_eq_iff unat_div_distrib div_eq_0_iff)
  have length_digits: "length ''0123456789'' = 10" by simp
  have "udigits = ''0123456789'' @ ''ABCDEF''" by (simp add: udigits_def)
  then have c: "udigits ! (n mod 10) = ''0123456789'' ! (n mod 10)" by (metis length_digits mod_less_divisor nth_append zero_less_numeral)
  have "\<not> (10 :: u32) \<le> 1" by (simp add: word_le_nat_alt)
  then show ?case using 1 by (subst udigit_loop.simps, subst decimal.simps) (simp add: m z c flip: d)
qed

lemma uprintint_decimal: "int n < 2 ^ 31 \<Longrightarrow> uprintint (int n) 10 True = decimal n"
  using udigit_loop_decimal[of n] by (simp add: uprintint_def)

text \<open>
  C27. On a file of fewer than 2 GB \<^verbatim>\<open>wc\<close> ends and prints the number of newlines, of words
  and of bytes in it in decimal notation.
\<close>

theorem wc_counts:
  assumes "reads_file U fd left out" "int (length (left w)) < 2 ^ 31"
  shows "\<exists>w'. wc U fd name w = Some (Returned w') \<and> out w' = out w @
    decimal (length (filter (\<lambda>c. c = NL) (left w))) @ '' '' @ decimal (card (word_starts (left w))) @ '' '' @
    decimal (length (left w)) @ '' '' @ name @ [NL]"
proof -
  have "int (length (filter (\<lambda>c. c = NL) (left w))) < 2 ^ 31" "int (card (word_starts (left w))) < 2 ^ 31"
    using assms(2) card_word_starts[of "left w"] length_filter_le[of "\<lambda>c. c = NL" "left w"] by linarith+
  then show ?thesis using wc_loop_ok[OF assms(1), of "[]" w name] assms(2)
    by (simp add: wc_def wc_report_def) (simp add: wc_of_def word_starts_def uprintint_decimal)
qed

theorem wc_counts_witness:
  "\<exists>w'. wc demo_calls 3 ''f'' (''ab c'' @ [NL] @ ''d'', []) = Some (Returned w') \<and> snd w' = ''1 3 6 f'' @ [NL]"
proof -
  have "word_starts (''ab c'' @ [NL] @ ''d'') = {0, 3, 5}"
    by (auto simp: word_starts_def wc_blanks_def nth_Cons' less_Suc_eq numeral_eq_Suc split: if_splits)
  then show ?thesis using wc_counts[OF demo_reads_file[of 3], of "(''ab c'' @ [NL] @ ''d'', [])" "''f''"]
    by (simp add: decimal.simps)
qed

lemma cat_ok:
  assumes rf: "reads_file U fd left out" and wr: "\<forall>bs w. fst (u_write U 1 bs w) = int (length bs)"
  shows "\<exists>w'. cat U fd w = Some (Returned w') \<and> out w' = out w @ left w"
proof (induction "left w" arbitrary: w rule: measure_induct_rule[of length])
  case less
  define w1 where "w1 = snd (u_read U fd 512 w)"
  define w2 where "w2 = snd (u_write U 1 (take 512 (left w)) w1)"
  have rd: "u_read U fd 512 w = (Some (take 512 (left w)), w1)" and l1: "left w1 = drop 512 (left w)" "out w1 = out w"
    using rf by (auto simp: reads_file_def w1_def prod_eq_iff)
  have wt: "u_write U 1 (take 512 (left w)) w1 = (int (length (take 512 (left w))), w2)"
    and l2: "left w2 = drop 512 (left w)" "out w2 = out w @ take 512 (left w)"
    using rf wr l1 by (auto simp: reads_file_def w2_def prod_eq_iff)
  show ?case
  proof (cases "left w = []")
    case True
    then show ?thesis using rd l1 by (subst cat.simps) simp
  next
    case False
    then have "cat U fd w = cat U fd w2" using rd wt by (subst cat.simps) simp
    then show ?thesis using less[of w2] l2 False by simp
  qed
qed

end
