(* ===== verification/Umalloc.thy ===== *)
theory Umalloc
  imports CString
begin

text \<open>
  The allocator of user programs, \<^verbatim>\<open>src/umalloc.c\<close>: a circular list of free blocks ordered by address.
  A header is the record at its address; headers of different blocks do not overlap because blocks do not
  (every block is at least one header long). \<open>B\<close> is the address of \<^verbatim>\<open>base\<close>, which the linker puts below the
  heap; \<open>G\<close> says whether the kernel grants a larger process.
\<close>

section \<open>State\<close>

record uheader =
  h_ptr :: u32
  h_size :: u32

text \<open>\<open>freep\<close> is 0 before the first call; \<open>ubrk\<close> is the size of the process.\<close>

record umalloc_state =
  hdr :: "u32 \<Rightarrow> uheader"
  freep :: u32
  ubrk :: u32

abbreviation nxt :: "umalloc_state \<Rightarrow> u32 \<Rightarrow> u32" where
  "nxt st a \<equiv> h_ptr (hdr st a)"

abbreviation usz :: "umalloc_state \<Rightarrow> u32 \<Rightarrow> u32" where
  "usz st a \<equiv> h_size (hdr st a)"

definition set_ptr :: "u32 \<Rightarrow> u32 \<Rightarrow> umalloc_state \<Rightarrow> umalloc_state" where
  "set_ptr a v st = st\<lparr>hdr := (hdr st)(a := (hdr st a)\<lparr>h_ptr := v\<rparr>)\<rparr>"

definition set_size :: "u32 \<Rightarrow> u32 \<Rightarrow> umalloc_state \<Rightarrow> umalloc_state" where
  "set_size a v st = st\<lparr>hdr := (hdr st)(a := (hdr st a)\<lparr>h_size := v\<rparr>)\<rparr>"

section \<open>free\<close>

partial_function (option) free_find :: "umalloc_state \<Rightarrow> u32 \<Rightarrow> u32 \<Rightarrow> u32 option" where
  "free_find st bp p =
     (if p < bp \<and> bp < nxt st p then Some p
      else if nxt st p \<le> p \<and> (p < bp \<or> bp < nxt st p) then Some p
      else free_find st bp (nxt st p))"

definition join_next :: "u32 \<Rightarrow> u32 \<Rightarrow> umalloc_state \<Rightarrow> umalloc_state" where
  "join_next bp n st =
     (if bp + 8 * usz st bp = n then set_ptr bp (nxt st n) (set_size bp (usz st bp + usz st n) st)
      else set_ptr bp n st)"

definition join_prev :: "u32 \<Rightarrow> u32 \<Rightarrow> umalloc_state \<Rightarrow> umalloc_state" where
  "join_prev bp p st =
     (if p + 8 * usz st p = bp then set_ptr p (nxt st bp) (set_size p (usz st p + usz st bp) st)
      else set_ptr p bp st)"

definition ufree :: "u32 \<Rightarrow> umalloc_state \<Rightarrow> umalloc_state option" where
  "ufree ap st =
     (let bp = ap - 8
      in map_option (\<lambda>p. (join_prev bp p (join_next bp (nxt st p) st))\<lparr>freep := p\<rparr>)
           (free_find st bp (freep st)))"

section \<open>morecore and malloc\<close>

text \<open>
  \<^verbatim>\<open>sbrk\<close> as \<^verbatim>\<open>sys_sbrk\<close> and \<^verbatim>\<open>growproc\<close> answer it: the old size, or -1. Shrinking to a size that
  wraps around changes nothing and succeeds.
\<close>

definition sbrk :: "(u32 \<Rightarrow> u32 \<Rightarrow> bool) \<Rightarrow> int \<Rightarrow> umalloc_state \<Rightarrow> u32 \<times> umalloc_state" where
  "sbrk G n st =
     (let old = ubrk st; new = old + word_of_int n
      in if 0 < n then (if new < 0x80000000 \<and> G old new then (old, st\<lparr>ubrk := new\<rparr>) else (- 1, st))
         else if n < 0 then (if old \<le> new then (old, st) else if new = 0 then (- 1, st) else (old, st\<lparr>ubrk := new\<rparr>))
         else (old, st))"

definition morecore :: "(u32 \<Rightarrow> u32 \<Rightarrow> bool) \<Rightarrow> u32 \<Rightarrow> umalloc_state \<Rightarrow> (u32 \<times> umalloc_state) option" where
  "morecore G nu st =
     (let nu = (if nu < 4096 then 4096 else nu);
          (p, st) = sbrk G (sint (nu * 8)) st
      in if p = - 1 then Some (0, st)
         else map_option (\<lambda>st. (freep st, st)) (ufree (p + 8) (set_size p nu st)))"

definition take_block :: "u32 \<Rightarrow> u32 \<Rightarrow> u32 \<Rightarrow> umalloc_state \<Rightarrow> u32 \<times> umalloc_state" where
  "take_block nunits prevp p st =
     (if usz st p = nunits then (p + 8, (set_ptr prevp (nxt st p) st)\<lparr>freep := prevp\<rparr>)
      else let st = set_size p (usz st p - nunits) st;
               q = p + 8 * usz st p
           in (q + 8, (set_size q nunits st)\<lparr>freep := prevp\<rparr>))"

partial_function (option) malloc_loop ::
    "(u32 \<Rightarrow> u32 \<Rightarrow> bool) \<Rightarrow> u32 \<Rightarrow> u32 \<Rightarrow> u32 \<Rightarrow> umalloc_state \<Rightarrow> (u32 \<times> umalloc_state) option" where
  "malloc_loop G nunits prevp p st =
     (if nunits \<le> usz st p then Some (take_block nunits prevp p st)
      else if p = freep st then
        (case morecore G nunits st of
           None \<Rightarrow> None
         | Some (p, st) \<Rightarrow> if p = 0 then Some (0, st) else malloc_loop G nunits p (nxt st p) st)
      else malloc_loop G nunits p (nxt st p) st)"

definition malloc_units :: "u32 \<Rightarrow> u32" where
  "malloc_units nbytes = (nbytes + 8 - 1) div 8 + 1"

definition malloc :: "u32 \<Rightarrow> (u32 \<Rightarrow> u32 \<Rightarrow> bool) \<Rightarrow> u32 \<Rightarrow> umalloc_state \<Rightarrow> (u32 \<times> umalloc_state) option" where
  "malloc B G nbytes st =
     (let st = (if freep st = 0 then set_size B 0 (set_ptr B B st)\<lparr>freep := B\<rparr> else st)
      in malloc_loop G (malloc_units nbytes) (freep st) (nxt st (freep st)) st)"

section \<open>The invariant\<close>

lemma set_simps [simp]:
  "hdr (set_ptr a v st) b = (if b = a then (hdr st a)\<lparr>h_ptr := v\<rparr> else hdr st b)"
  "hdr (set_size a v st) b = (if b = a then (hdr st a)\<lparr>h_size := v\<rparr> else hdr st b)"
  "freep (set_ptr a v st) = freep st" "freep (set_size a v st) = freep st"
  "ubrk (set_ptr a v st) = ubrk st" "ubrk (set_size a v st) = ubrk st"
  by (simp_all add: set_ptr_def set_size_def)

definition bend :: "umalloc_state \<Rightarrow> u32 \<Rightarrow> nat" where
  "bend st a = unat a + 8 * unat (usz st a)"

text \<open>The blocks \<open>xs\<close> are linked in order from \<open>a\<close> to \<open>e\<close>.\<close>

fun links :: "umalloc_state \<Rightarrow> u32 \<Rightarrow> u32 list \<Rightarrow> u32 \<Rightarrow> bool" where
  "links st a [] e \<longleftrightarrow> nxt st a = e"
| "links st a (x # xs) e \<longleftrightarrow> nxt st a = x \<and> links st x xs e"

definition apart :: "umalloc_state \<Rightarrow> u32 \<Rightarrow> u32 \<Rightarrow> bool" where
  "apart st a b \<longleftrightarrow> bend st a \<le> unat b \<or> bend st b \<le> unat a"

text \<open>
  \<open>fs\<close> are the free blocks in order, no two of them adjacent in memory; \<open>as\<close> are the blocks handed out.
\<close>

definition spaced :: "umalloc_state \<Rightarrow> u32 list \<Rightarrow> bool" where
  "spaced st L \<longleftrightarrow> sorted_wrt (\<lambda>a b. bend st a < unat b) L"

definition minv :: "u32 \<Rightarrow> umalloc_state \<Rightarrow> u32 list \<Rightarrow> u32 set \<Rightarrow> bool" where
  "minv B st fs as \<longleftrightarrow>
     B \<noteq> 0 \<and> freep st \<in> set (B # fs) \<and> usz st B = 0 \<and> links st B fs B \<and> spaced st (B # fs) \<and>
     unat B + 8 \<le> unat (ubrk st) \<and> unat (ubrk st) < 2 ^ 31 \<and>
     (\<forall>a \<in> set fs \<union> as. 0 < usz st a \<and> unat B + 8 \<le> unat a \<and> bend st a \<le> unat (ubrk st)) \<and>
     (\<forall>a \<in> as. \<forall>b \<in> as \<union> set fs. a \<noteq> b \<longrightarrow> apart st a b) \<and> set fs \<inter> as = {}"

lemma links_append: "links st a (xs @ y # ys) e \<longleftrightarrow> links st a xs y \<and> links st y ys e"
  by (induction xs arbitrary: a) auto

lemma links_cong: "\<forall>b \<in> set (a # xs). nxt st' b = nxt st b \<Longrightarrow> links st' a xs e \<longleftrightarrow> links st a xs e"
  by (induction xs arbitrary: a) auto

lemma links_nth: "links st a xs e \<longleftrightarrow> (\<forall>i \<le> length xs. nxt st ((a # xs) ! i) = (xs @ [e]) ! i)"
proof (induction xs arbitrary: a)
  case (Cons x xs)
  have "(\<forall>i \<le> length (x # xs). nxt st ((a # x # xs) ! i) = ((x # xs) @ [e]) ! i) \<longleftrightarrow>
      nxt st a = x \<and> (\<forall>i \<le> length xs. nxt st ((x # xs) ! i) = (xs @ [e]) ! i)"
    by (auto simp: nth_Cons split: nat.splits)
  then show ?case using Cons[of x] by simp
qed simp

lemma links_set_last:
  "links st a xs e \<Longrightarrow> distinct (a # xs) \<Longrightarrow> nxt st' (last (a # xs)) = q \<Longrightarrow>
     \<forall>b \<in> set (a # xs). b \<noteq> last (a # xs) \<longrightarrow> nxt st' b = nxt st b \<Longrightarrow> links st' a xs q"
proof (induction xs arbitrary: a)
  case (Cons x xs)
  have "a \<noteq> last (x # xs)" using Cons.prems(2) last_in_set[of "x # xs"] by auto
  then show ?case using Cons.prems Cons.IH[of x] by auto
qed simp

lemma links_pred:
  assumes "links st B (xs @ p # ys) B" "distinct (B # xs @ p # ys)" "q \<in> set (B # xs @ p # ys)" "nxt st q = p"
  shows "q = last (B # xs)"
proof -
  let ?fs = "xs @ p # ys"
  obtain i where i: "i < length (B # ?fs)" "(B # ?fs) ! i = q" using assms(3) by (metis in_set_conv_nth)
  have "i \<le> length ?fs" using i(1) by simp
  then have "(?fs @ [B]) ! i = p" using assms(1,4) i(2) unfolding links_nth by metis
  moreover have "(?fs @ [B]) ! length xs = p" by (simp add: nth_append)
  moreover have "distinct (?fs @ [B])" using assms(2) by auto
  ultimately have "i = length xs" using i(1) nth_eq_iff_index_eq[of "?fs @ [B]" i "length xs"] by simp
  then show ?thesis using i(2) by (cases xs rule: rev_cases) (auto simp: nth_append nth_Cons')
qed

lemma spaced_less:
  assumes "spaced st L" shows "sorted_wrt (\<lambda>a b. unat a < unat b) L" "distinct L"
proof -
  show "sorted_wrt (\<lambda>a b. unat a < unat b) L"
    using assms unfolding spaced_def by (rule sorted_wrt_mono_rel[rotated]) (simp add: bend_def)
  then show "distinct L" by (induction L) auto
qed

section \<open>free\<close>

lemma unat_bend: "bend st a < 2 ^ 32 \<Longrightarrow> unat (a + 8 * usz st a) = bend st a"
  by (simp add: bend_def unat_word_ariths)

lemma minvD:
  assumes "minv B st fs as"
  shows "links st B fs B" "spaced st (B # fs)" "distinct (B # fs)" "usz st B = 0" "freep st \<in> set (B # fs)"
    "a \<in> set fs \<union> as \<Longrightarrow> 0 < usz st a \<and> unat B + 8 \<le> unat a \<and> bend st a \<le> unat (ubrk st) \<and> bend st a < 2 ^ 31 \<and> unat a < bend st a"
    "a \<in> as \<Longrightarrow> b \<in> as \<union> set fs \<Longrightarrow> a \<noteq> b \<Longrightarrow> apart st a b" "bend st B = unat B" "B \<notin> as"
proof -
  show "links st B fs B" "spaced st (B # fs)" "usz st B = 0" "freep st \<in> set (B # fs)" "bend st B = unat B"
    using assms by (simp_all add: minv_def bend_def)
  then show "distinct (B # fs)" using spaced_less(2) by blast
  show "0 < usz st a \<and> unat B + 8 \<le> unat a \<and> bend st a \<le> unat (ubrk st) \<and> bend st a < 2 ^ 31 \<and> unat a < bend st a"
    if "a \<in> set fs \<union> as"
  proof -
    have m: "0 < usz st a" "unat B + 8 \<le> unat a" "bend st a \<le> unat (ubrk st)" "unat (ubrk st) < 2 ^ 31"
      using assms that by (simp_all add: minv_def)
    then have "0 < unat (usz st a)" by (simp add: word_less_nat_alt)
    then show ?thesis using m by (simp add: bend_def)
  qed
  show "apart st a b" if "a \<in> as" "b \<in> as \<union> set fs" "a \<noteq> b"
    using assms that unfolding minv_def by blast
  have "unat B + 8 \<le> unat B" if "B \<in> as" using assms that unfolding minv_def by blast
  then show "B \<notin> as" by auto
qed

lemma minv_split:
  assumes m: "minv B st fs as" and bp: "bp \<in> as"
  obtains xs ys where "fs = xs @ ys" "\<And>a. a \<in> set (B # xs) \<Longrightarrow> bend st a \<le> unat bp \<and> unat a < unat bp"
    "\<And>b. b \<in> set ys \<Longrightarrow> bend st bp \<le> unat b"
proof -
  define xs where "xs = takeWhile (\<lambda>a. unat a < unat bp) fs"
  define ys where "ys = dropWhile (\<lambda>a. unat a < unat bp) fs"
  have fs: "fs = xs @ ys" by (simp add: xs_def ys_def)
  have so: "sorted_wrt (\<lambda>a b. unat a < unat b) fs" using spaced_less(1)[OF minvD(2)[OF m]] by simp
  have "unat bp < unat b" if bys: "b \<in> set ys" for b
  proof -
    obtain y ys' where y: "ys = y # ys'" using bys by (cases ys) auto
    then have "\<not> unat y < unat bp" using hd_dropWhile[of "\<lambda>a. unat a < unat bp" fs] by (auto simp: ys_def)
    moreover have "b \<noteq> bp" using bp m bys by (auto simp: minv_def fs)
    moreover have "b = y \<or> unat y < unat b" using so bys by (auto simp: fs y sorted_wrt_append)
    ultimately show ?thesis by (metis linorder_neqE_nat word_unat_eq_iff less_trans)
  qed
  then have "bend st bp \<le> unat b" if "b \<in> set ys" for b
    using that minvD(7)[OF m bp, of b] minvD(6)[OF m, of b] by (force simp: fs apart_def)
  moreover have "bend st a \<le> unat bp \<and> unat a < unat bp" if "a \<in> set (B # xs)" for a
  proof (cases "a = B")
    case True
    then show ?thesis using minvD(6)[OF m, of bp] minvD(8)[OF m] bp by auto
  next
    case False
    then have "a \<in> set (takeWhile (\<lambda>a. unat a < unat bp) fs)" using that by (simp add: xs_def)
    then have "a \<in> set fs" "unat a < unat bp" by (auto dest: set_takeWhileD)
    then show ?thesis using minvD(6)[OF m, of bp] minvD(7)[OF m bp, of a] bp by (force simp: apart_def)
  qed
  ultimately show thesis using fs that by blast
qed

lemma links_mid: "links st a xs e \<Longrightarrow> a # xs = us @ v # vs \<Longrightarrow> links st v vs e"
proof (induction us arbitrary: a xs)
  case (Cons u us)
  then show ?case by (cases xs) auto
qed simp

lemma free_find_low:
  "links st v (us @ ys) B \<Longrightarrow> \<forall>a \<in> set (v # us). a < bp \<Longrightarrow> \<forall>a \<in> set ys. bp < a \<Longrightarrow>
     sorted_wrt (<) (v # us) \<Longrightarrow> B \<le> v \<Longrightarrow> free_find st bp v = Some (last (v # us))"
proof (induction us arbitrary: v)
  case Nil
  have "v < bp" using Nil(2) by simp
  moreover have "bp < nxt st v \<or> nxt st v \<le> v" using Nil(1,3,5) by (cases ys) simp_all
  ultimately show ?case by (subst free_find.simps) auto
next
  case (Cons u us)
  have vu: "v < u" "u < bp" using Cons.prems(2,4) by simp_all
  then have "free_find st bp v = free_find st bp u"
    using Cons.prems(1) by (subst free_find.simps) (auto simp: less_asym)
  also have "\<dots> = Some (last (u # us))" by (rule Cons.IH) (use Cons.prems vu in simp_all)
  finally show ?case by simp
qed

lemma free_find_high:
  "links st v us B \<Longrightarrow> \<forall>a \<in> set (v # us). bp < a \<Longrightarrow> sorted_wrt (<) (v # us) \<Longrightarrow> B < bp \<Longrightarrow>
     free_find st bp v = free_find st bp B"
proof (induction us arbitrary: v)
  case Nil
  then show ?case by (subst free_find.simps) (auto simp: less_asym)
next
  case (Cons u us)
  have "v < u" "bp < v" using Cons.prems(2,3) by simp_all
  then have "free_find st bp v = free_find st bp u"
    using Cons.prems(1) by (subst free_find.simps) (auto simp: less_asym)
  then show ?case using Cons.IH[of u] Cons.prems by simp
qed

lemma free_find_ok:
  assumes m: "minv B st (xs @ ys) as" and l: "\<forall>a \<in> set (B # xs). unat a < unat bp"
    and h: "\<forall>b \<in> set ys. unat bp < unat b" and p: "p \<in> set (B # xs @ ys)"
  shows "free_find st bp p = Some (last (B # xs))"
proof -
  have so: "sorted_wrt (<) (B # xs @ ys)"
    using spaced_less(1)[OF minvD(2)[OF m]] by (rule sorted_wrt_mono_rel[rotated]) (simp add: word_less_nat_alt)
  have l': "\<forall>a \<in> set (B # xs). a < bp" using l by (simp add: word_less_nat_alt)
  have h': "\<forall>a \<in> set ys. bp < a" using h by (simp add: word_less_nat_alt)
  have low: "free_find st bp B = Some (last (B # xs))"
    using free_find_low[OF minvD(1)[OF m] l' h'] so by (auto simp: sorted_wrt_append)
  show ?thesis
  proof (cases "p \<in> set ys")
    case True
    then obtain us vs where ys: "ys = us @ p # vs" by (metis split_list)
    then have "links st p vs B" using links_mid[OF minvD(1)[OF m], of "B # xs @ us"] by simp
    then have "free_find st bp p = free_find st bp B"
      by (rule free_find_high) (use h' l' so ys in \<open>auto simp: sorted_wrt_append\<close>)
    then show ?thesis using low by simp
  next
    case False
    then obtain us vs where xs: "B # xs = us @ p # vs" using p by (metis Un_iff append_Cons set_append split_list)
    then have "links st p (vs @ ys) B" using links_mid[OF minvD(1)[OF m], of us p "vs @ ys"]
      by (metis append_Cons append_assoc)
    moreover have "sorted_wrt (<) (us @ p # vs @ ys)" using so xs by (metis append_Cons append_assoc)
    moreover have "B \<le> p" using so p by (auto intro: less_imp_le)
    ultimately have "free_find st bp p = Some (last (p # vs))"
      using l' h' unfolding xs by (intro free_find_low[where ys = ys]) (auto simp: sorted_wrt_append)
    then show ?thesis using xs by simp
  qed
qed

lemma links_head:
  "nxt st' b = nxt st a \<Longrightarrow> \<forall>x \<in> set xs. nxt st' x = nxt st x \<Longrightarrow> links st' b xs e \<longleftrightarrow> links st a xs e"
proof (cases xs)
  case (Cons x xs')
  assume "nxt st' b = nxt st a" "\<forall>x \<in> set xs. nxt st' x = nxt st x"
  then show ?thesis using Cons links_cong[of x xs' st' st e] by simp
qed simp

lemma spaced_Cons: "spaced st (a # L) \<longleftrightarrow> (\<forall>b \<in> set L. bend st a < unat b) \<and> spaced st L"
  by (simp add: spaced_def)

lemma spaced_cong: "\<forall>a \<in> set L. bend st' a = bend st a \<Longrightarrow> spaced st' L \<longleftrightarrow> spaced st L"
  by (induction L) (auto simp: spaced_Cons spaced_def)

definition joined :: "u32 \<Rightarrow> u32 set \<Rightarrow> u32 \<Rightarrow> u32 list \<Rightarrow> u32 list \<Rightarrow> umalloc_state \<Rightarrow> umalloc_state \<Rightarrow> bool" where
  "joined B as bp ys ys' st st1 \<longleftrightarrow>
     links st1 bp ys' B \<and> set ys' \<subseteq> set ys \<and> spaced st1 (bp # ys') \<and> bend st1 bp \<le> unat (ubrk st) \<and>
     usz st bp \<le> usz st1 bp \<and> (\<forall>a. a \<noteq> bp \<longrightarrow> hdr st1 a = hdr st a) \<and> ubrk st1 = ubrk st \<and>
     (\<forall>a \<in> as - {bp}. apart st1 a bp)"

lemma join_next_ok:
  assumes m: "minv B st (xs @ ys) as" and bp: "bp \<in> as" and h: "\<forall>b \<in> set ys. bend st bp \<le> unat b"
  shows "\<exists>ys'. joined B as bp ys ys' st (join_next bp (hd (ys @ [B])) st)"
proof -
  note b = minvD(6)[OF m, of bp]
  have e: "unat (bp + 8 * usz st bp) = bend st bp" using b bp by (intro unat_bend) simp
  have nb: "bp \<notin> set (xs @ ys)" using m bp unfolding minv_def by blast
  have ap: "\<forall>a \<in> as - {bp}. apart st a bp" using minvD(7)[OF m] bp by blast
  have spy: "spaced st ys" using minvD(2)[OF m] by (simp add: spaced_def sorted_wrt_append)
  show ?thesis
  proof (cases ys)
    case Nil
    have "bp + 8 * usz st bp \<noteq> B" using e b bp by (metis Un_iff add_leD1 not_le)
    then have "join_next bp B st = set_ptr bp B st" by (simp add: join_next_def)
    then show ?thesis using Nil b bp ap
      by (intro exI[of _ "[]"]) (auto simp: joined_def spaced_def apart_def bend_def)
  next
    case (Cons y zs)
    have ly: "links st y zs B" using links_mid[OF minvD(1)[OF m], of "B # xs" y zs] Cons by simp
    have y: "y \<noteq> bp" "bp \<notin> set zs" using nb Cons by auto
    have yb: "0 < usz st y \<and> unat B + 8 \<le> unat y \<and> bend st y \<le> unat (ubrk st) \<and> bend st y < 2 ^ 31 \<and> unat y < bend st y"
      using minvD(6)[OF m, of y] Cons by simp
    show ?thesis
    proof (cases "bp + 8 * usz st bp = y")
      case True
      then have by': "bend st bp = unat y" using e by simp
      let ?st = "set_ptr bp (nxt st y) (set_size bp (usz st bp + usz st y) st)"
      have us: "unat (usz st bp + usz st y) = unat (usz st bp) + unat (usz st y)"
        using yb by' by (subst unat_word_ariths) (simp add: bend_def)
      have bb: "bend ?st bp = bend st y" using by' us by (simp add: bend_def)
      have "links ?st bp zs B" using ly y links_head[of ?st bp st y zs B] by simp
      moreover have "spaced ?st (bp # zs)"
        using spy Cons y bb spaced_cong[of zs ?st st] by (auto simp: spaced_Cons) (auto simp: bend_def)
      moreover have "apart ?st a bp" if a: "a \<in> as - {bp}" for a
      proof -
        have "apart st a bp" "apart st a y" "unat a < bend st a" "bend ?st a = bend st a"
          using ap minvD(7)[OF m, of a y] minvD(6)[OF m, of a] m a Cons unfolding minv_def by (auto simp: bend_def)
        then show ?thesis using by' bb b bp yb by (auto simp: apart_def)
      qed
      moreover have "usz st bp \<le> usz st bp + usz st y" using us by (simp add: word_le_nat_alt)
      ultimately have "joined B as bp ys zs st ?st" using bb yb Cons by (auto simp: joined_def)
      then show ?thesis using True Cons by (auto simp: join_next_def)
    next
      case False
      let ?st = "set_ptr bp y st"
      have be: "bend ?st a = bend st a" for a by (simp add: bend_def)
      have "bend st bp < unat y" using h False e Cons by (metis le_neq_implies_less list.set_intros(1) word_unat_eq_iff)
      then have "spaced ?st (bp # ys)"
        using spy h Cons spaced_cong[of ys ?st st] be by (auto simp: spaced_Cons bend_def intro: less_trans)
      then have "joined B as bp ys ys st ?st" using b bp ap ly y Cons links_cong[of y zs ?st st B] be
        by (auto simp: joined_def apart_def)
      then show ?thesis using False Cons by (auto simp: join_next_def)
    qed
  qed
qed

lemma links_last: "links st a (xs @ ys) e \<Longrightarrow> nxt st (last (a # xs)) = hd (ys @ [e])"
  by (induction xs arbitrary: a) (cases ys; simp)+

lemma links_take: "links st a (xs @ ys) e \<Longrightarrow> links st a xs (hd (ys @ [e]))"
  by (induction xs arbitrary: a) (cases ys; simp)+

lemma spaced_append:
  "spaced st (L @ M) \<longleftrightarrow> spaced st L \<and> spaced st M \<and> (\<forall>a \<in> set L. \<forall>b \<in> set M. bend st a < unat b)"
  by (simp add: spaced_def sorted_wrt_append)

lemma minv_rebuild:
  assumes m: "minv B st fs as" and "links st2 B fs' B" "spaced st2 (B # fs')" "freep st2 \<in> set (B # fs')"
    "usz st2 B = 0" "ubrk st2 = ubrk st" "as' \<subseteq> as" "\<forall>a \<in> as'. usz st2 a = usz st a" "set fs' \<inter> as' = {}"
    "\<forall>a \<in> set fs'. 0 < usz st2 a \<and> unat B + 8 \<le> unat a \<and> bend st2 a \<le> unat (ubrk st)"
    "\<forall>a \<in> as'. \<forall>b \<in> set fs'. apart st2 a b"
  shows "minv B st2 fs' as'"
proof -
  have be: "bend st2 a = bend st a" if "a \<in> as'" for a using assms(8) that by (simp add: bend_def)
  have "apart st2 a b" if "a \<in> as'" "b \<in> as'" "a \<noteq> b" for a b
    using minvD(7)[OF m, of a b] that assms(7) be by (auto simp: apart_def)
  moreover have "0 < usz st2 a \<and> unat B + 8 \<le> unat a \<and> bend st2 a \<le> unat (ubrk st2)" if "a \<in> as'" for a
    using minvD(6)[OF m, of a] that assms(6,7,8) be by auto
  ultimately show ?thesis using assms unfolding minv_def by auto
qed

text \<open>The situation in which \<open>bp\<close> is put between \<open>p\<close>, the last block below it, and the blocks above it.\<close>

definition between :: "u32 \<Rightarrow> umalloc_state \<Rightarrow> u32 list \<Rightarrow> u32 list \<Rightarrow> u32 set \<Rightarrow> u32 \<Rightarrow> bool" where
  "between B st xs ys as bp \<longleftrightarrow> minv B st (xs @ ys) as \<and> bp \<in> as \<and>
     (\<forall>a \<in> set (B # xs). bend st a \<le> unat bp \<and> unat a < unat bp) \<and> (\<forall>b \<in> set ys. bend st bp \<le> unat b)"

lemma between_facts:
  assumes "between B st xs ys as bp" "joined B as bp ys ys' st st1"
  shows "bp \<notin> set (B # xs @ ys)" "distinct (B # xs @ ys)" "last (B # xs) \<noteq> bp" "last (B # xs) \<notin> set ys"
    "last (B # xs) \<notin> set ys'" "bp \<notin> set ys'"
    "a \<noteq> bp \<Longrightarrow> hdr st1 a = hdr st a" "a \<noteq> bp \<Longrightarrow> bend st1 a = bend st a" "set (xs @ ys) \<inter> as = {}"
    "\<forall>a \<in> set (B # xs). \<forall>b \<in> set ys'. bend st a < unat b"
proof -
  have m: "minv B st (xs @ ys) as" "bp \<in> as" using assms(1) by (simp_all add: between_def)
  show nb: "bp \<notin> set (B # xs @ ys)" "distinct (B # xs @ ys)" "set (xs @ ys) \<inter> as = {}"
    using m minvD(3,9)[OF m(1)] unfolding minv_def by auto
  have s: "set ys' \<subseteq> set ys" using assms(2) by (simp add: joined_def)
  then show "bp \<notin> set ys'" "\<forall>a \<in> set (B # xs). \<forall>b \<in> set ys'. bend st a < unat b"
    using nb minvD(2)[OF m(1)] by (auto simp: spaced_Cons spaced_append)
  have "last (B # xs) \<in> set (B # xs)" by (rule last_in_set) simp
  moreover have "set (B # xs) \<inter> set ys = {}" using nb(2) by auto
  ultimately show "last (B # xs) \<noteq> bp" "last (B # xs) \<notin> set ys" "last (B # xs) \<notin> set ys'"
    using nb(1) s by (metis Un_iff append_Cons set_append, blast, blast)
  show "hdr st1 a = hdr st a" "bend st1 a = bend st a" if "a \<noteq> bp"
    using assms(2) that by (simp_all add: joined_def bend_def)
qed

lemma below_strict:
  assumes b: "between B st xs ys as bp" and j: "joined B as bp ys ys' st st1"
    and np: "last (B # xs) + 8 * usz st1 (last (B # xs)) \<noteq> bp"
  shows "\<forall>a \<in> set (B # xs). bend st a < unat bp"
proof -
  note b' = b[unfolded between_def] and f = between_facts[OF b j]
  have m: "minv B st (xs @ ys) as" using b' by simp
  define p where p: "p = last (B # xs)"
  have "bend st p \<le> unat bp" "hdr st1 p = hdr st p"
    using b' f(7)[OF f(3)[folded p]] last_in_set[of "B # xs"] unfolding p by blast+
  moreover from this(1) have "bend st p < 2 ^ 32" using unat_u32_lt[of bp] by simp
  ultimately have bpp: "bend st p < unat bp"
    using unat_bend[of st p] np[folded p] by (metis le_neq_implies_less word_unat_eq_iff)
  have s: "B # xs = butlast (B # xs) @ [p]" unfolding p by (rule append_butlast_last_id[symmetric]) simp
  have "spaced st (butlast (B # xs) @ [p])" using minvD(2)[OF m] unfolding append_Cons[symmetric] spaced_append s[symmetric] by simp
  then have "\<forall>a \<in> set (butlast (B # xs)). bend st a < unat p" by (simp add: spaced_append)
  moreover have "unat p < unat bp" using bpp by (simp add: bend_def)
  ultimately have "\<forall>a \<in> set (butlast (B # xs)). bend st a < unat bp" by (meson less_trans)
  then have "\<forall>a \<in> set (butlast (B # xs) @ [p]). bend st a < unat bp" using bpp by simp
  then show ?thesis unfolding s[symmetric] .
qed

lemma insert_apart:
  assumes b: "between B st xs ys as bp" and j: "joined B as bp ys ys' st st1"
    and p: "p = last (B # xs)" and np: "p + 8 * usz st1 p \<noteq> bp"
    and st2: "st2 = set_ptr p bp st1\<lparr>freep := p\<rparr>"
  shows "minv B st2 (xs @ bp # ys') (as - {bp})"
proof -
  note b' = b[unfolded between_def]
  have m: "minv B st (xs @ ys) as" and bp: "bp \<in> as" using b' by simp_all
  note j' = j[unfolded joined_def] and f = between_facts[OF b j]
  have be: "bend st2 a = bend st1 a" "usz st2 a = usz st1 a" "a \<noteq> p \<Longrightarrow> nxt st2 a = nxt st1 a" "nxt st2 p = bp" for a
    by (simp_all add: bend_def st2)
  have nbp: "a \<noteq> bp" if "a \<in> set (B # xs @ ys)" for a using f(1) that by blast
  have sz: "usz st2 a = usz st a \<and> bend st2 a = bend st a \<and> a \<noteq> bp" if "a \<in> set (B # xs @ ys) \<union> (as - {bp})" for a
    using that nbp[of a] f(7,8)[of a] be(1,2)[of a] by auto
  have nx: "\<forall>a \<in> set (B # xs). a \<noteq> last (B # xs) \<longrightarrow> nxt st2 a = nxt st a"
    using be(3) f(7) nbp p by (metis Un_iff append_Cons set_append)
  have "links st2 B xs bp"
    by (rule links_set_last[OF links_take[OF minvD(1)[OF m]] _ _ nx]) (use f(2) p be(4) in auto)
  moreover have "links st2 bp ys' B"
  proof -
    have "\<forall>b \<in> set (bp # ys'). nxt st2 b = nxt st1 b" using f(3,5)[folded p] be(3) by (metis set_ConsD)
    then show ?thesis using j' links_cong[of bp ys' st2 st1 B] by simp
  qed
  ultimately have "links st2 B (xs @ bp # ys') B" by (simp add: links_append)
  moreover have "spaced st2 (B # xs @ bp # ys')"
  proof -
    have "\<forall>a \<in> set (B # xs). bend st a < unat bp" using below_strict[OF b j np[unfolded p]] .
    moreover have "spaced st2 (B # xs)"
      using minvD(2)[OF m] sz spaced_cong[of "B # xs" st2 st] by (auto simp: spaced_Cons spaced_append)
    moreover have "spaced st2 (bp # ys')" using j' be(1) spaced_cong[of "bp # ys'" st2 st1] by simp
    ultimately show ?thesis using f(10) sz
      unfolding append_Cons[symmetric] spaced_append by auto
  qed
  moreover have "0 < usz st2 a \<and> unat B + 8 \<le> unat a \<and> bend st2 a \<le> unat (ubrk st)" if "a \<in> set (xs @ bp # ys')" for a
  proof (cases "a = bp")
    case True
    have "0 < usz st bp" using minvD(6)[OF m, of bp] bp by simp
    then show ?thesis using minvD(6)[OF m, of bp] bp j' be(1,2) True by (auto intro: less_le_trans)
  next
    case False
    then have "a \<in> set (xs @ ys)" using that j' by auto
    then show ?thesis using minvD(6)[OF m, of a] sz[of a] by simp
  qed
  moreover have "apart st2 a b" if ab: "a \<in> as - {bp}" "b \<in> set (xs @ bp # ys')" for a b
  proof (cases "b = bp")
    case True
    then show ?thesis using j' ab(1) be(1) by (simp add: apart_def)
  next
    case False
    then have "b \<in> set (xs @ ys)" using ab(2) j' by auto
    moreover from this have "a \<noteq> b" using f(9) ab(1) by blast
    ultimately show ?thesis using minvD(7)[OF m, of a b] ab(1) sz[of a] sz[of b] by (simp add: apart_def)
  qed
  ultimately show ?thesis using f(9) j' be(2) sz p minvD(4)[OF m]
    by (intro minv_rebuild[OF m]) (auto simp: st2)
qed

lemma links_join:
  "links st a xs (hd (ys @ [e])) \<Longrightarrow> (ys \<noteq> [] \<Longrightarrow> links st (hd ys) (tl ys) e) \<Longrightarrow> links st a (xs @ ys) e"
  by (cases ys) (simp_all add: links_append)

lemma joined_prev:
  assumes b: "between B st xs ys as bp" and j: "joined B as bp ys ys' st st1"
    and p: "p = last (B # xs)" and np: "p + 8 * usz st1 p = bp"
    and st2: "st2 = set_ptr p (nxt st1 bp) (set_size p (usz st1 p + usz st1 bp) st1)\<lparr>freep := p\<rparr>"
  shows "p \<noteq> bp" "p \<notin> set ys'" "p \<in> set xs" "bend st p = unat bp" "p \<noteq> B"
    "bend st2 p = bend st1 bp" "0 < usz st2 p" "usz st bp \<le> usz st2 p" "nxt st2 p = nxt st1 bp"
    "a \<noteq> bp \<Longrightarrow> a \<noteq> p \<Longrightarrow> usz st2 a = usz st a \<and> bend st2 a = bend st a \<and> nxt st2 a = nxt st a"
proof -
  note b' = b[unfolded between_def]
  have m: "minv B st (xs @ ys) as" and bp: "bp \<in> as" using b' by simp_all
  note j' = j[unfolded joined_def] and f = between_facts[OF b j]
  show pn: "p \<noteq> bp" "p \<notin> set ys'" using f(3,5) unfolding p by blast+
  have pin: "p \<in> set (B # xs)" using last_in_set[of "B # xs"] unfolding p by blast
  have hp: "hdr st1 p = hdr st p" using f(7)[OF pn(1)] .
  have "bend st p \<le> unat bp" using b' pin by blast
  then have "bend st p < 2 ^ 32" using unat_u32_lt[of bp] by simp
  then show bp': "bend st p = unat bp" using unat_bend[of st p] np hp by simp
  show "p \<noteq> B" using bp' minvD(8)[OF m] minvD(6)[OF m, of bp] bp by auto
  then show "p \<in> set xs" using pin by simp
  have "bend st1 bp < 2 ^ 31" using j' m by (simp add: minv_def)
  then have us: "unat (usz st1 p + usz st1 bp) = unat (usz st p) + unat (usz st1 bp)"
    using bp' hp by (subst unat_word_ariths) (simp add: bend_def)
  show "bend st2 p = bend st1 bp" using us bp' hp by (simp add: bend_def st2)
  have "usz st1 bp \<le> usz st2 p" using us by (simp add: st2 word_le_nat_alt)
  then show "usz st bp \<le> usz st2 p" using j' by (meson order_trans)
  moreover have "0 < usz st bp" using minvD(6)[OF m, of bp] bp by simp
  ultimately show "0 < usz st2 p" by (meson less_le_trans)
  show "nxt st2 p = nxt st1 bp" by (simp add: st2)
  show "usz st2 a = usz st a \<and> bend st2 a = bend st a \<and> nxt st2 a = nxt st a" if "a \<noteq> bp" "a \<noteq> p"
    using that f(7)[of a] by (simp add: bend_def st2)
qed

lemma insert_joined:
  assumes b: "between B st xs ys as bp" and j: "joined B as bp ys ys' st st1"
    and p: "p = last (B # xs)" and np: "p + 8 * usz st1 p = bp"
    and st2: "st2 = set_ptr p (nxt st1 bp) (set_size p (usz st1 p + usz st1 bp) st1)\<lparr>freep := p\<rparr>"
  shows "minv B st2 (xs @ ys') (as - {bp})"
proof -
  note b' = b[unfolded between_def] and q = joined_prev[OF b j p np st2]
  have m: "minv B st (xs @ ys) as" and bp: "bp \<in> as" using b' by simp_all
  note j' = j[unfolded joined_def] and f = between_facts[OF b j]
  have sz: "usz st2 a = usz st a \<and> bend st2 a = bend st a \<and> nxt st2 a = nxt st a"
    if "a \<in> set (B # xs @ ys) \<union> as" "a \<noteq> p" "a \<noteq> bp" for a using that q(10) by blast
  have "links st2 B xs (nxt st1 bp)"
  proof (rule links_set_last[OF links_take[OF minvD(1)[OF m]]])
    show "\<forall>a \<in> set (B # xs). a \<noteq> last (B # xs) \<longrightarrow> nxt st2 a = nxt st a"
      using sz f(1) p by (metis Un_iff append_Cons set_append)
  qed (use f(2) p q(9) in auto)
  moreover have "nxt st1 bp = hd (ys' @ [B])" using links_last[of st1 bp "[]" ys' B] j' by simp
  moreover have "links st2 (hd ys') (tl ys') B" if "ys' \<noteq> []"
  proof -
    have "links st1 (hd ys') (tl ys') B" using j' that by (cases ys') auto
    moreover have "nxt st2 a = nxt st1 a" if "a \<in> set ys'" for a using q(2) that by (auto simp: st2)
    ultimately show ?thesis using links_cong[of "hd ys'" "tl ys'" st2 st1 B] that by simp
  qed
  ultimately have L: "links st2 B (xs @ ys') B" using links_join[of st2 B xs ys' B] by simp
  have SP: "spaced st2 (B # xs @ ys')"
  proof -
    define zs where zs: "zs = butlast (B # xs)"
    have s: "B # xs = zs @ [p]" unfolding p zs by (rule append_butlast_last_id[symmetric]) simp
    have d: "p \<notin> set zs" "bp \<notin> set (zs @ ys')" using f(1,2,6) s by (auto simp flip: append_Cons)
    have "bend st2 a = bend st a \<and> bend st1 a = bend st a" if "a \<in> set (zs @ ys')" for a
      using q(2) q(10)[of a] f(8)[of a] d that by auto
    then have eq: "\<forall>a \<in> set zs. bend st2 a = bend st a" "\<forall>a \<in> set ys'. bend st2 a = bend st1 a" by auto
    have "spaced st (zs @ [p])" using minvD(2)[OF m] unfolding s[symmetric] by (auto simp: spaced_Cons spaced_append)
    then have "spaced st2 zs" "\<forall>a \<in> set zs. bend st2 a < unat p"
      using eq(1) spaced_cong[of zs st2 st] by (auto simp: spaced_append)
    moreover have "spaced st2 ys'" "\<forall>b \<in> set ys'. bend st2 p < unat b"
      using j' eq(2) spaced_cong[of ys' st2 st1] q(6) by (auto simp: spaced_Cons)
    moreover have "\<forall>a \<in> set zs. \<forall>b \<in> set ys'. bend st2 a < unat b" using f(10) eq(1) s by auto
    ultimately have "spaced st2 ((zs @ [p]) @ ys')" by (auto simp: spaced_def sorted_wrt_append)
    then show ?thesis unfolding s[symmetric] by simp
  qed
  have Z: "0 < usz st2 a \<and> unat B + 8 \<le> unat a \<and> bend st2 a \<le> unat (ubrk st)" if "a \<in> set (xs @ ys')" for a
  proof -
    have a: "a \<in> set (xs @ ys)" "a \<noteq> bp" using that j' f(1) by auto
    then show ?thesis using minvD(6)[OF m, of a] sz[of a] q(6,7) j' by (cases "a = p") simp_all
  qed
  have A: "apart st2 a b" if ab: "a \<in> as - {bp}" "b \<in> set (xs @ ys')" for a b
  proof -
    have ne: "b \<in> set (xs @ ys)" "a \<noteq> b" "a \<noteq> p" "b \<noteq> bp" "p \<in> set (xs @ ys)"
      using ab j' f(1,9) q(3) by auto
    then have a1: "apart st a b" "apart st a p" "unat a < bend st a" "bend st2 a = bend st a" "apart st1 a bp" "bend st1 a = bend st a"
      using minvD(7)[OF m, of a b] minvD(7)[OF m, of a p] minvD(6)[OF m, of a] sz[of a] ab(1) j' f(8)[of a] by auto
    show ?thesis
    proof (cases "b = p")
      case True
      then show ?thesis using a1 q(4,6) by (auto simp: apart_def)
    next
      case False
      then show ?thesis using a1 q(10)[of b] ne by (simp add: apart_def)
    qed
  qed
  have "\<forall>a \<in> as - {bp}. usz st2 a = usz st a" using q(3,10) f(9) by auto
  moreover have "usz st2 B = 0" using q(5) q(10)[of B] minvD(4)[OF m] f(1) by auto
  moreover have "set (xs @ ys') \<inter> (as - {bp}) = {}" using f(9) j' by auto
  ultimately show ?thesis
    by - (rule minv_rebuild[OF m L SP], use q(3) j' Z A in \<open>simp_all add: st2\<close>)
qed

text \<open>\<^verbatim>\<open>free\<close> returns, puts the block back and keeps the invariant.\<close>

lemma ufree_ok:
  assumes m: "minv B st fs as" and bp: "bp \<in> as"
  shows "\<exists>st' fs'. ufree (bp + 8) st = Some st' \<and> minv B st' fs' (as - {bp}) \<and> ubrk st' = ubrk st \<and>
    (\<forall>a \<in> as - {bp}. usz st' a = usz st a) \<and> (\<exists>b \<in> set fs'. usz st bp \<le> usz st' b)"
proof -
  obtain xs ys where fs: "fs = xs @ ys" and
    l: "\<And>a. a \<in> set (B # xs) \<Longrightarrow> bend st a \<le> unat bp \<and> unat a < unat bp" and
    h: "\<And>b. b \<in> set ys \<Longrightarrow> bend st bp \<le> unat b"
    using minv_split[OF m bp] by metis
  have bet: "between B st xs ys as bp" unfolding between_def using m bp l h fs by blast
  define p where p: "p = last (B # xs)"
  define st1 where st1: "st1 = join_next bp (hd (ys @ [B])) st"
  have m': "minv B st (xs @ ys) as" using m fs by simp
  obtain ys' where j: "joined B as bp ys ys' st st1" using join_next_ok[OF m' bp] h unfolding st1 by blast
  note j' = j[unfolded joined_def] and f = between_facts[OF bet j]
  have "unat bp < unat b" if "b \<in> set ys" for b
    using h[OF that] minvD(6)[OF m, of bp] bp by simp
  then have "free_find st bp (freep st) = Some p"
    using l unfolding p by (intro free_find_ok[OF m']) (use minvD(5)[OF m'] in auto)
  moreover have "nxt st p = hd (ys @ [B])" using links_last[OF minvD(1)[OF m']] p by simp
  moreover define st2 where "st2 = (join_prev bp p st1)\<lparr>freep := p\<rparr>"
  ultimately have u: "ufree (bp + 8) st = Some st2" by (simp add: ufree_def st1)
  have pn: "p \<noteq> bp" "p \<notin> as" using f(3,9) minvD(9)[OF m] last_in_set[of "B # xs"] unfolding p by auto
  have hd: "hdr st1 a = hdr st a" if "a \<noteq> bp" for a using f(7)[OF that] .
  have br: "ubrk st2 = ubrk st" using j' by (simp add: st2_def join_prev_def)
  have sz: "\<forall>a \<in> as - {bp}. usz st2 a = usz st a"
    using pn hd by (auto simp: st2_def join_prev_def)
  show ?thesis
  proof (cases "p + 8 * usz st1 p = bp")
    case True
    then have e: "st2 = set_ptr p (nxt st1 bp) (set_size p (usz st1 p + usz st1 bp) st1)\<lparr>freep := p\<rparr>"
      by (simp add: st2_def join_prev_def)
    have "p \<in> set (xs @ ys')" using joined_prev(3)[OF bet j p True e] by simp
    then show ?thesis using u br sz insert_joined[OF bet j p True e] joined_prev(8)[OF bet j p True e] by blast
  next
    case False
    then have e: "st2 = set_ptr p bp st1\<lparr>freep := p\<rparr>" by (simp add: st2_def join_prev_def)
    then have "usz st bp \<le> usz st2 bp" using j' pn(1) by simp
    moreover have "bp \<in> set (xs @ bp # ys')" by simp
    ultimately show ?thesis using u br sz insert_apart[OF bet j p False e] by blast
  qed
qed

section \<open>malloc\<close>

lemma minv_alloc:
  assumes m: "minv B st fs as" and "links st' B fs' B" "spaced st' (B # fs')" "freep st' \<in> set (B # fs')"
    "usz st' B = 0" "ubrk st' = ubrk st" "set fs' \<subseteq> set fs" "q \<notin> set fs'"
    and sz: "\<forall>a \<in> as. usz st' a = usz st a" and fr: "\<forall>a \<in> set fs'. 0 < usz st' a \<and> bend st' a \<le> bend st a"
    and q: "0 < usz st' q" "unat B + 8 \<le> unat q" "bend st' q \<le> unat (ubrk st)"
    and ap: "\<forall>a \<in> as \<union> set fs'. apart st' a q"
  shows "minv B st' fs' (insert q as)"
proof -
  have be: "bend st' a = bend st a" if "a \<in> as" for a using sz that by (simp add: bend_def)
  have ap': "\<forall>a \<in> as \<union> set fs'. apart st' q a" using ap by (auto simp: apart_def)
  have old: "0 < usz st' a \<and> unat B + 8 \<le> unat a \<and> bend st' a \<le> unat (ubrk st)" if "a \<in> set fs' \<union> as" for a
    using minvD(6)[OF m, of a] that assms(7) sz fr be[of a] by (auto intro: order_trans)
  have "apart st' a b" if ab: "a \<in> as" "b \<in> as \<union> set fs'" "a \<noteq> b" for a b
  proof -
    have "apart st a b" using minvD(7)[OF m, of a b] ab assms(7) by auto
    then show ?thesis using ab be[of a] be[of b] fr by (auto simp: apart_def intro: order_trans)
  qed
  then have "\<forall>a \<in> insert q as. \<forall>b \<in> insert q as \<union> set fs'. a \<noteq> b \<longrightarrow> apart st' a b"
    using ap ap' by blast
  moreover have "set fs' \<inter> insert q as = {}" using m assms(7,8) unfolding minv_def by auto
  moreover have "\<forall>a \<in> set fs' \<union> insert q as. 0 < usz st' a \<and> unat B + 8 \<le> unat a \<and> bend st' a \<le> unat (ubrk st)"
    using old q by auto
  moreover have "B \<noteq> 0" "unat (ubrk st) < 2 ^ 31" "unat B + 8 \<le> unat (ubrk st)" using m by (simp_all add: minv_def)
  ultimately show ?thesis using assms(2-6) unfolding minv_def by simp
qed

lemma take_exact:
  assumes m: "minv B st (xs @ p # ys) as" and n: "usz st p = nunits"
  shows "minv B ((set_ptr (last (B # xs)) (nxt st p) st)\<lparr>freep := last (B # xs)\<rparr>) (xs @ ys) (insert p as)" (is "minv B ?st _ _")
proof -
  let ?v = "last (B # xs)"
  have d: "distinct (B # xs @ p # ys)" "?v \<in> set (B # xs)" using minvD(3)[OF m] last_in_set[of "B # xs"] by blast+
  then have vp: "?v \<noteq> p" "?v \<notin> set ys" by auto
  have sp: "spaced st (B # xs @ p # ys)" using minvD(2)[OF m] .
  have be: "bend ?st a = bend st a" "usz ?st a = usz st a" for a by (simp_all add: bend_def)
  have p: "links st p ys B" using links_mid[OF minvD(1)[OF m], of "B # xs" p ys] by simp
  have "links ?st B xs (nxt st p)"
    by (rule links_set_last[OF links_take[OF minvD(1)[OF m]]]) (use d in auto)
  moreover have "nxt st p = hd (ys @ [B])" using links_last[of st p "[]" ys B] p by simp
  moreover have "links ?st (hd ys) (tl ys) B" if "ys \<noteq> []"
  proof -
    have "links st (hd ys) (tl ys) B" using p that by (cases ys) auto
    then show ?thesis using links_cong[of "hd ys" "tl ys" ?st st B] vp that by (auto simp del: last.simps)
  qed
  ultimately have L: "links ?st B (xs @ ys) B" using links_join[of ?st B xs ys B] by simp
  have SP: "spaced ?st (B # xs @ ys)"
    using sp spaced_cong[of "B # xs @ ys" ?st st] be by (auto simp: spaced_Cons spaced_append)
  have A: "apart ?st a p" if "a \<in> as \<union> set (xs @ ys)" for a
  proof (cases "a \<in> as")
    case True
    then show ?thesis using minvD(7)[OF m, of a p] be m by (auto simp: apart_def minv_def)
  next
    case False
    then have "bend st a < unat p \<or> bend st p < unat a" using that sp by (auto simp: spaced_Cons spaced_append)
    then show ?thesis using be by (auto simp: apart_def)
  qed
  have "p \<notin> set (xs @ ys)" "?v \<in> set (B # xs @ ys)" using d by auto
  then show ?thesis using minvD(6)[OF m] minvD(4)[OF m] be A
    by (intro minv_alloc[OF m L SP]) auto
qed

lemma apart_fs:
  assumes m: "minv B st fs as" and "p \<in> set fs" "a \<in> set fs \<union> as" "a \<noteq> p"
  shows "apart st a p"
proof (cases "a \<in> as")
  case True
  then show ?thesis using minvD(7)[OF m, of a p] assms by auto
next
  case False
  then have "a \<in> set fs" using assms(3) by simp
  then obtain xs ys where "fs = xs @ p # ys" "a \<in> set xs \<or> a \<in> set ys"
    using assms(2,4) by (metis Un_iff set_ConsD set_append split_list)
  then show ?thesis using minvD(2)[OF m] by (auto simp: spaced_Cons spaced_append apart_def)
qed

text \<open>The tail \<open>q\<close> of a free block \<open>p\<close> that is larger than asked for.\<close>

lemma split_geometry:
  fixes st :: umalloc_state and p nunits :: u32
  defines "st1 \<equiv> set_size p (usz st p - nunits) st"
  defines "q \<equiv> p + 8 * usz st1 p"
  assumes m: "minv B st fs as" and p: "p \<in> set fs" and n: "0 < nunits" "nunits < usz st p"
  shows "unat p < unat q" "unat q + 8 * unat nunits = bend st p" "bend st1 p = unat q" "0 < usz st1 p"
    "\<forall>a \<in> set (B # fs) \<union> as. a \<noteq> q"
proof -
  note mp = minvD(6)[OF m, of p]
  have u1: "unat (usz st1 p) = unat (usz st p) - unat nunits" "0 < unat nunits" "unat nunits < unat (usz st p)"
    using n by (simp_all add: st1_def unat_sub word_less_nat_alt word_le_nat_alt)
  then have b1: "bend st1 p + 8 * unat nunits = bend st p" by (simp add: bend_def)
  then show uq: "bend st1 p = unat q" using mp p unfolding q_def by (intro unat_bend[symmetric]) simp
  show "0 < usz st1 p" using u1 by (simp add: word_less_nat_alt)
  show pq: "unat p < unat q" "unat q + 8 * unat nunits = bend st p" using uq b1 u1 by (auto simp: bend_def)
  show "\<forall>a \<in> set (B # fs) \<union> as. a \<noteq> q"
  proof (intro ballI notI)
    fix a assume a: "a \<in> set (B # fs) \<union> as" "a = q"
    have "a \<noteq> p" "a \<noteq> B" using pq(1) mp p a by auto
    then have "apart st a p" using apart_fs[OF m p, of a] a(1) by auto
    moreover have "unat q \<le> bend st q" by (simp add: bend_def)
    ultimately show False using pq a(2) u1(2) by (auto simp: apart_def)
  qed
qed

lemma take_split:
  fixes st :: umalloc_state and p nunits :: u32
  defines "st1 \<equiv> set_size p (usz st p - nunits) st"
  defines "q \<equiv> p + 8 * usz st1 p"
  assumes m: "minv B st fs as" and p: "p \<in> set fs" and n: "0 < nunits" "nunits < usz st p"
    and v: "v \<in> set (B # fs)" and st2: "st2 = (set_size q nunits st1)\<lparr>freep := v\<rparr>"
  shows "minv B st2 fs (insert q as)" "\<forall>a \<in> as. usz st2 a = usz st a"
proof -
  note mp = minvD(6)[OF m, of p]
  note g = split_geometry[OF m p n, folded st1_def, folded q_def]
  have sq: "usz st2 q = nunits" "bend st2 q = bend st p" using g(2) by (simp_all add: st2 bend_def)
  have be: "bend st2 a = (if a = p then unat q else bend st a) \<and> nxt st2 a = nxt st a \<and>
      usz st2 a = (if a = p then usz st1 p else usz st a)" if "a \<in> set (B # fs) \<union> as" for a
  proof -
    have "a \<noteq> q" using g(5) that by blast
    then show ?thesis using g(3) by (auto simp: bend_def st2 st1_def)
  qed
  have pn: "p \<notin> as" "p \<noteq> B" using m p minvD(3)[OF m] unfolding minv_def by auto
  show sz: "\<forall>a \<in> as. usz st2 a = usz st a" using be pn by auto
  have le: "\<forall>a \<in> set (B # fs). bend st2 a \<le> bend st a" using be g(2) by auto
  show "minv B st2 fs (insert q as)"
  proof (rule minv_alloc[OF m])
    show "links st2 B fs B" using minvD(1)[OF m] links_cong[of B fs st2 st B] be by auto
    show "spaced st2 (B # fs)" using minvD(2)[OF m] le unfolding spaced_def
      by (induction fs) (auto intro: le_less_trans)
    show "\<forall>a \<in> set fs. 0 < usz st2 a \<and> bend st2 a \<le> bend st a" using le be g(4) minvD(6)[OF m] by auto
    show "usz st2 B = 0" using be[of B] pn minvD(4)[OF m] by simp
    show "\<forall>a \<in> as \<union> set fs. apart st2 a q"
    proof
      fix a assume a: "a \<in> as \<union> set fs"
      then have e: "bend st2 a = (if a = p then unat q else bend st a)" using be[of a] by auto
      show "apart st2 a q"
      proof (cases "a = p")
        case False
        then have "apart st a p" using apart_fs[OF m p, of a] a by auto
        then show ?thesis using e False sq g(1) by (auto simp: apart_def)
      qed (use e in \<open>simp add: apart_def\<close>)
    qed
    show "unat B + 8 \<le> unat q" "bend st2 q \<le> unat (ubrk st)" using mp p g(1) sq by auto
    show "q \<notin> set fs" using g(5) by auto
  qed (use v sq n sz in \<open>auto simp: st2 st1_def\<close>)
qed

text \<open>What a successful allocation of \<open>n\<close> units gives.\<close>

definition gives :: "u32 \<Rightarrow> u32 \<Rightarrow> u32 set \<Rightarrow> umalloc_state \<Rightarrow> u32 \<times> umalloc_state \<Rightarrow> bool" where
  "gives B n as st r \<longleftrightarrow>
     fst r \<noteq> 0 \<and> fst r - 8 \<notin> as \<and> usz (snd r) (fst r - 8) = n \<and> (\<forall>a \<in> as. usz (snd r) a = usz st a) \<and>
     (\<exists>fs'. minv B (snd r) fs' (insert (fst r - 8) as))"

lemma plus8_nonzero: "unat q < 2 ^ 31 \<Longrightarrow> q + 8 \<noteq> 0" for q :: u32
proof
  assume "unat q < 2 ^ 31" "q + 8 = 0"
  then show False using unat_add_lem[of q 8] by simp
qed

lemma take_block_gives:
  assumes m: "minv B st fs as" and p: "p \<in> set fs" and v: "v \<in> set (B # fs)" "nxt st v = p"
    and n: "0 < n" "n \<le> usz st p"
  shows "gives B n as st (take_block n v p st)"
proof (cases "usz st p = n")
  case True
  obtain xs ys where fs: "fs = xs @ p # ys" using p by (metis split_list)
  have "v = last (B # xs)" using links_pred[of st B xs p ys v] minvD(1,3)[OF m] v unfolding fs by blast
  moreover have "p \<notin> as" using m p unfolding minv_def by blast
  moreover have "unat p < 2 ^ 31" using minvD(6)[OF m, of p] p by simp
  ultimately show ?thesis using True take_exact[OF m[unfolded fs] True] plus8_nonzero[of p]
    by (auto simp: gives_def take_block_def)
next
  case False
  define st1 where "st1 = set_size p (usz st p - n) st"
  define q where "q = p + 8 * usz st1 p"
  define st2 where "st2 = (set_size q n st1)\<lparr>freep := v\<rparr>"
  have lt: "n < usz st p" using n False by simp
  note g = split_geometry[OF m p n(1) lt, folded st1_def, folded q_def]
  have "minv B st2 fs (insert q as)" "\<forall>a \<in> as. usz st2 a = usz st a"
    using take_split[OF m p n(1) lt v(1), folded st1_def, folded q_def, OF st2_def] by blast+
  moreover have "take_block n v p st = (q + 8, st2)"
    using False by (simp add: take_block_def st2_def q_def st1_def Let_def)
  moreover have "unat q < 2 ^ 31" using g(2) minvD(6)[OF m, of p] p by simp
  moreover have "q \<notin> as" using g(5) by blast
  moreover have "usz st2 q = n" by (simp add: st2_def)
  ultimately show ?thesis using plus8_nonzero[of q] by (auto simp: gives_def)
qed

lemma links_rotate:
  assumes "links st B fs B" "f \<in> set (B # fs)" "distinct (B # fs)"
  obtains L where "links st f L f" "set (f # L) = set (B # fs)" "f \<notin> set L"
proof (cases "f = B")
  case True
  then show thesis using that[of fs] assms by simp
next
  case False
  then have "f \<in> set fs" using assms(2) by simp
  then obtain us vs where fs: "fs = us @ f # vs" by (metis split_list)
  then have "links st f (vs @ B # us) f" using assms(1) by (simp add: links_append)
  then show thesis using that[of "vs @ B # us"] assms(3) fs False by auto
qed

definition grow :: "(u32 \<Rightarrow> u32 \<Rightarrow> bool) \<Rightarrow> u32 \<Rightarrow> umalloc_state \<Rightarrow> (u32 \<times> umalloc_state) option" where
  "grow G n st = (case morecore G n st of None \<Rightarrow> None
     | Some (p, st) \<Rightarrow> if p = 0 then Some (0, st) else malloc_loop G n p (nxt st p) st)"

lemma malloc_walk:
  "links st a M (freep st) \<Longrightarrow> freep st \<notin> set M \<Longrightarrow>
     (\<exists>v p. v \<in> set (a # M) \<and> nxt st v = p \<and> p \<in> set (M @ [freep st]) \<and> n \<le> usz st p \<and>
        malloc_loop G n a (nxt st a) st = Some (take_block n v p st)) \<or>
     (\<forall>x \<in> set (M @ [freep st]). usz st x < n) \<and> malloc_loop G n a (nxt st a) st = grow G n st"
proof (induction M arbitrary: a)
  case Nil
  then show ?case by (cases "n \<le> usz st (freep st)") (subst malloc_loop.simps, auto simp: grow_def)+
next
  case (Cons x M)
  then have x: "nxt st a = x" "x \<noteq> freep st" "links st x M (freep st)" by auto
  show ?case
  proof (cases "n \<le> usz st x")
    case True
    then have "malloc_loop G n a (nxt st a) st = Some (take_block n a x st)"
      using x by (subst malloc_loop.simps) simp
    then show ?thesis using True x by auto
  next
    case False
    then have e: "malloc_loop G n a (nxt st a) st = malloc_loop G n x (nxt st x) st"
      using x by (subst malloc_loop.simps) simp
    show ?thesis using Cons.IH[OF x(3)] Cons.prems(2) False x unfolding e by auto
  qed
qed

lemma malloc_loop_cases:
  assumes m: "minv B st fs as" and n: "0 < n"
  shows "(\<exists>r. malloc_loop G n (freep st) (nxt st (freep st)) st = Some r \<and> gives B n as st r) \<or>
    (\<forall>x \<in> set fs. usz st x < n) \<and> malloc_loop G n (freep st) (nxt st (freep st)) st = grow G n st"
proof -
  obtain L where L: "links st (freep st) L (freep st)" "set (freep st # L) = set (B # fs)" "freep st \<notin> set L"
    using links_rotate[OF minvD(1,5,3)[OF m]] by metis
  consider v p where "v \<in> set (freep st # L)" "nxt st v = p" "p \<in> set (L @ [freep st])" "n \<le> usz st p"
      "malloc_loop G n (freep st) (nxt st (freep st)) st = Some (take_block n v p st)"
    | "\<forall>x \<in> set (L @ [freep st]). usz st x < n" "malloc_loop G n (freep st) (nxt st (freep st)) st = grow G n st"
    using malloc_walk[OF L(1,3), of n G] by blast
  then show ?thesis
  proof cases
    case 1
    have "p \<in> set (B # fs)" "v \<in> set (B # fs)" using 1(1,3) L(2) by auto
    moreover have "p \<noteq> B" using 1(4) n minvD(4)[OF m] by auto
    ultimately show ?thesis using take_block_gives[OF m _ _ 1(2) n 1(4)] 1(5) by auto
  next
    case 2
    have "set fs \<subseteq> set (L @ [freep st])" using L(2) by auto
    then have "\<forall>x \<in> set fs. usz st x < n" using 2(1) by blast
    then show ?thesis using 2(2) by blast
  qed
qed

lemma sbrk_cases:
  assumes "0 < unat s" "unat s < 2 ^ 31" "unat (ubrk st) < 2 ^ 31"
  shows "sbrk G (sint s) st = (- 1, st) \<or>
    sbrk G (sint s) st = (ubrk st, st\<lparr>ubrk := ubrk st + s\<rparr>) \<and> unat (ubrk st + s) = unat (ubrk st) + unat s \<and> unat (ubrk st + s) < 2 ^ 31"
proof -
  have s: "sint s = int (unat s)" using assms(2) by (intro sint_small) simp
  have s0: "0 < sint s" using assms(1) by (metis s of_nat_0_less_iff)
  have u: "unat (ubrk st + s) = unat (ubrk st) + unat s" using assms(2,3) by (subst unat_word_ariths) simp
  have "unat (ubrk st + s) < 2 ^ 31" if "ubrk st + s < 0x80000000" using that by (simp add: word_less_nat_alt)
  then show ?thesis using u s0 by (simp add: sbrk_def Let_def)
qed

lemma new_block:
  assumes m: "minv B st fs as" and p: "p = ubrk st" and e: "unat (p + nu * 8) = unat p + 8 * unat nu" "unat (p + nu * 8) < 2 ^ 31"
    and nu: "0 < nu" and st1: "st1 = set_size p nu (st\<lparr>ubrk := p + nu * 8\<rparr>)"
  shows "minv B st1 fs (insert p as)"
proof -
  have bb: "unat B + 8 \<le> unat p" using m by (simp add: minv_def p)
  have le: "unat a < unat p \<and> bend st a \<le> unat p" if "a \<in> set (B # fs) \<union> as" for a
  proof (cases "a = B")
    case True
    then show ?thesis using bb minvD(8)[OF m] by simp
  next
    case False
    then have "bend st a \<le> unat p" "unat a < bend st a" using minvD(6)[OF m, of a] that by (auto simp: p)
    then show ?thesis by simp
  qed
  have be: "usz st1 a = usz st a \<and> bend st1 a = bend st a \<and> nxt st1 a = nxt st a" if "a \<in> set (B # fs) \<union> as" for a
    using le[OF that] by (auto simp: bend_def st1)
  have bp: "bend st1 p = unat (ubrk st1)" "usz st1 p = nu" using e by (simp_all add: bend_def st1)
  have "links st1 B fs B" using links_cong[of B fs st1 st B] be minvD(1)[OF m] by auto
  moreover have "spaced st1 (B # fs)" using spaced_cong[of "B # fs" st1 st] be minvD(2)[OF m] by auto
  moreover have "\<forall>a \<in> set fs \<union> insert p as. 0 < usz st1 a \<and> unat B + 8 \<le> unat a \<and> bend st1 a \<le> unat (ubrk st1)"
  proof
    fix a assume "a \<in> set fs \<union> insert p as"
    then consider "a = p" | "a \<in> set fs \<union> as" by blast
    then show "0 < usz st1 a \<and> unat B + 8 \<le> unat a \<and> bend st1 a \<le> unat (ubrk st1)"
    proof cases
      case 1
      then show ?thesis using bp nu m by (simp add: minv_def p)
    next
      case 2
      then show ?thesis using minvD(6)[OF m, of a] be[of a] le[of a] e(1) by (auto simp: st1)
    qed
  qed
  moreover have "\<forall>a \<in> insert p as. \<forall>b \<in> insert p as \<union> set fs. a \<noteq> b \<longrightarrow> apart st1 a b"
  proof -
    have "apart st1 a b" if "a \<in> as" "b \<in> as \<union> set fs" "a \<noteq> b" for a b
      using minvD(7)[OF m that] that be[of a] be[of b] by (auto simp: apart_def)
    moreover have "apart st1 a p \<and> apart st1 p a" if "a \<in> as \<union> set fs" for a
      using le[of a] be[of a] that by (auto simp: apart_def)
    ultimately show ?thesis by blast
  qed
  moreover have "set fs \<inter> insert p as = {}" using m le[of p] unfolding minv_def by auto
  moreover have "usz st1 B = 0" "freep st1 \<in> set (B # fs)" "unat B + 8 \<le> unat (ubrk st1)" "unat (ubrk st1) < 2 ^ 31" "B \<noteq> 0"
    using be[of B] minvD(4,5)[OF m] m e by (auto simp: st1 minv_def p)
  ultimately show ?thesis unfolding minv_def by simp
qed

lemma minv_freep: "minv B st fs as \<Longrightarrow> freep st \<noteq> 0"
proof -
  assume m: "minv B st fs as"
  have "B \<noteq> 0" using m by (simp add: minv_def)
  moreover have "a \<noteq> 0" if "a \<in> set fs" for a using minvD(6)[OF m, of a] that by auto
  ultimately show ?thesis using minvD(5)[OF m] by auto
qed

lemma morecore_ok:
  assumes m: "minv B st fs as" and n: "0 < unat n" "8 * unat n < 2 ^ 31"
  shows "morecore G n st = Some (0, st) \<or>
    (\<exists>st' fs'. morecore G n st = Some (freep st', st') \<and> freep st' \<noteq> 0 \<and> minv B st' fs' as \<and>
       (\<forall>a \<in> as. usz st' a = usz st a) \<and> (\<exists>b \<in> set fs'. n \<le> usz st' b))"
proof -
  define nu where "nu = (if n < 4096 then 4096 else n)"
  have nu: "0 < unat nu" "8 * unat nu < 2 ^ 31" "n \<le> nu" "0 < nu" using n by (auto simp: nu_def word_less_nat_alt word_le_nat_alt)
  then have un: "unat (nu * 8) = 8 * unat nu" by (subst unat_word_ariths) simp
  define p where "p = ubrk st"
  have pb: "unat p < 2 ^ 31" "unat B + 8 \<le> unat p" using m by (simp_all add: minv_def p_def)
  then have p1: "p \<noteq> - 1" by auto
  consider "sbrk G (sint (nu * 8)) st = (- 1, st)"
    | "sbrk G (sint (nu * 8)) st = (p, st\<lparr>ubrk := p + nu * 8\<rparr>)" "unat (p + nu * 8) = unat p + 8 * unat nu" "unat (p + nu * 8) < 2 ^ 31"
    using sbrk_cases[of "nu * 8" st G] un nu pb(1) unfolding p_def by auto
  then show ?thesis
  proof cases
    case 1
    then show ?thesis by (simp add: morecore_def Let_def nu_def)
  next
    case 2
    define st1 where "st1 = set_size p nu (st\<lparr>ubrk := p + nu * 8\<rparr>)"
    have mc: "morecore G n st = map_option (\<lambda>st. (freep st, st)) (ufree (p + 8) st1)"
      using 2(1) p1 by (simp add: morecore_def Let_def nu_def st1_def)
    obtain st' fs' where u: "ufree (p + 8) st1 = Some st'" "minv B st' fs' (insert p as - {p})"
      "\<forall>a \<in> insert p as - {p}. usz st' a = usz st1 a" "\<exists>b \<in> set fs'. usz st1 p \<le> usz st' b"
      using ufree_ok[OF new_block[OF m p_def 2(2,3) nu(4) st1_def], of p] by blast
    have pa: "p \<notin> as" using minvD(6)[OF m, of p] by (auto simp: p_def)
    have s: "usz st1 p = nu" "\<forall>a \<in> as. usz st1 a = usz st a" using pa by (auto simp: st1_def)
    have "insert p as - {p} = as" using pa by simp
    moreover have "\<exists>b \<in> set fs'. n \<le> usz st' b" using u(4) s(1) nu(3) by (meson order_trans)
    ultimately show ?thesis using mc u s minv_freep[of B st' fs' as] by auto
  qed
qed

definition heap_ok :: "u32 \<Rightarrow> umalloc_state \<Rightarrow> u32 list \<Rightarrow> u32 set \<Rightarrow> bool" where
  "heap_ok B st fs as \<longleftrightarrow>
     (if freep st = 0 then fs = [] \<and> as = {} \<and> B \<noteq> 0 \<and> unat B + 8 \<le> unat (ubrk st) \<and> unat (ubrk st) < 2 ^ 31
      else minv B st fs as)"

text \<open>The largest request for which the argument of \<^verbatim>\<open>sbrk\<close> is not negative.\<close>

definition MAXREQ :: u32 where
  "MAXREQ = 0x7FFFFFF0"

lemma unat_units:
  assumes "n \<le> MAXREQ" shows "unat (malloc_units n) = (unat n + 7) div 8 + 1"
proof -
  have n: "unat n \<le> 0x7FFFFFF0" using assms by (simp add: MAXREQ_def word_le_nat_alt)
  then have "unat (n + 7) = unat n + 7" by (subst unat_word_ariths) simp
  moreover define k where "k = (n + 7) div 8"
  ultimately have k: "unat k = (unat n + 7) div 8" by (simp add: unat_div_distrib)
  then have "unat (k + 1) = unat k + 1" using n by (subst unat_word_ariths) simp
  moreover have "malloc_units n = k + 1" by (simp add: malloc_units_def k_def add.commute)
  ultimately show ?thesis using k by simp
qed

lemma malloc_ok:
  assumes h: "heap_ok B st fs as" and n: "nb \<le> MAXREQ"
  shows "\<exists>r. malloc B G nb st = Some r \<and> (gives B (malloc_units nb) as st r \<or>
    fst r = 0 \<and> (\<exists>fs'. minv B (snd r) fs' as) \<and> (\<forall>a \<in> as. usz (snd r) a = usz st a))"
    "(\<exists>b \<in> set fs. malloc_units nb \<le> usz st b) \<Longrightarrow> \<exists>r. malloc B G nb st = Some r \<and> gives B (malloc_units nb) as st r"
proof -
  let ?n = "malloc_units nb"
  have un: "0 < unat ?n" "8 * unat ?n < 2 ^ 31" "0 < ?n"
    using unat_units[OF n] n by (auto simp: MAXREQ_def word_le_nat_alt word_less_nat_alt)
  define st0 where "st0 = (if freep st = 0 then set_size B 0 (set_ptr B B st)\<lparr>freep := B\<rparr> else st)"
  have m: "minv B st0 fs as" using h by (auto simp: heap_ok_def st0_def minv_def spaced_def)
  have s0: "\<forall>a \<in> as. usz st0 a = usz st a" "\<forall>b \<in> set fs. usz st0 b = usz st b" using h by (auto simp: heap_ok_def st0_def)
  have e: "malloc B G nb st = malloc_loop G ?n (freep st0) (nxt st0 (freep st0)) st0"
    by (simp add: malloc_def st0_def Let_def)
  have g: "gives B ?n as st r" if "gives B ?n as st' r" "\<forall>a \<in> as. usz st' a = usz st a" for st' r
    using that by (simp add: gives_def)
  show "\<exists>r. malloc B G nb st = Some r \<and> gives B ?n as st r" if "\<exists>b \<in> set fs. ?n \<le> usz st b"
    using malloc_loop_cases[OF m un(3), of G] that s0 g[of st0] e by (metis not_less)
  show "\<exists>r. malloc B G nb st = Some r \<and> (gives B ?n as st r \<or>
    fst r = 0 \<and> (\<exists>fs'. minv B (snd r) fs' as) \<and> (\<forall>a \<in> as. usz (snd r) a = usz st a))"
  proof (cases "\<exists>r. malloc B G nb st = Some r \<and> gives B ?n as st0 r")
    case True
    then show ?thesis using g[of st0] s0(1) by blast
  next
    case False
    then have gr: "malloc B G nb st = grow G ?n st0" using malloc_loop_cases[OF m un(3), of G] e by metis
    consider "morecore G ?n st0 = Some (0, st0)"
      | st' fs' where "morecore G ?n st0 = Some (freep st', st')" "freep st' \<noteq> 0" "minv B st' fs' as"
        "\<forall>a \<in> as. usz st' a = usz st0 a" "\<exists>b \<in> set fs'. ?n \<le> usz st' b"
      using morecore_ok[OF m un(1,2), of G] by blast
    then show ?thesis
    proof cases
      case 1
      then show ?thesis using gr m s0 by (auto simp: grow_def)
    next
      case 2
      obtain r where "malloc_loop G ?n (freep st') (nxt st' (freep st')) st' = Some r" "gives B ?n as st' r"
        using malloc_loop_cases[OF 2(3) un(3), of G] 2(5) by (metis not_less)
      then show ?thesis using gr 2 s0 g[of st' r] by (auto simp: grow_def)
    qed
  qed
qed

section \<open>Properties\<close>

text \<open>
  The runs of a program that asks for memory and gives back what it holds: \<open>held\<close> are the pointers
  it was given, each with the number of bytes it asked for.
\<close>

inductive heap_run :: "u32 \<Rightarrow> (u32 \<Rightarrow> u32 \<Rightarrow> bool) \<Rightarrow> umalloc_state \<Rightarrow> (u32 \<times> u32) set \<Rightarrow> bool" for B G where
  start: "freep st = 0 \<Longrightarrow> B \<noteq> 0 \<Longrightarrow> unat B + 8 \<le> unat (ubrk st) \<Longrightarrow> unat (ubrk st) < 2 ^ 31 \<Longrightarrow> heap_run B G st {}"
| alloc: "heap_run B G st held \<Longrightarrow> n \<le> MAXREQ \<Longrightarrow> malloc B G n st = Some (r, st') \<Longrightarrow> r \<noteq> 0 \<Longrightarrow>
    heap_run B G st' (insert (r, n) held)"
| fail: "heap_run B G st held \<Longrightarrow> n \<le> MAXREQ \<Longrightarrow> malloc B G n st = Some (0, st') \<Longrightarrow> heap_run B G st' held"
| release: "heap_run B G st held \<Longrightarrow> (r, n) \<in> held \<Longrightarrow> ufree r st = Some st' \<Longrightarrow> heap_run B G st' (held - {(r, n)})"

definition held_ok :: "umalloc_state \<Rightarrow> (u32 \<times> u32) set \<Rightarrow> u32 set \<Rightarrow> bool" where
  "held_ok st held as \<longleftrightarrow> as = (\<lambda>h. fst h - 8) ` held \<and> inj_on (\<lambda>h. fst h - 8) held \<and>
     (\<forall>h \<in> held. snd h \<le> MAXREQ \<and> usz st (fst h - 8) = malloc_units (snd h))"

lemma heap_run_inv: "heap_run B G st held \<Longrightarrow> \<exists>fs as. heap_ok B st fs as \<and> held_ok st held as"
proof (induction rule: heap_run.induct)
  case (start st)
  then show ?case by (intro exI[of _ "[]"] exI[of _ "{}"]) (simp add: heap_ok_def held_ok_def)
next
  case (alloc st held n r st')
  then obtain fs as where h: "heap_ok B st fs as" "held_ok st held as" by blast
  have g: "gives B (malloc_units n) as st (r, st')" using malloc_ok(1)[OF h(1) alloc(2), of G] alloc(3,4) by auto
  then obtain fs' where m: "minv B st' fs' (insert (r - 8) as)" by (auto simp: gives_def)
  have "held_ok st' (insert (r, n) held) (insert (r - 8) as)"
    using h(2) g alloc(2) unfolding held_ok_def gives_def by (auto simp: inj_on_def)
  then show ?case using m minv_freep[OF m] by (auto simp: heap_ok_def)
next
  case (fail st held n st')
  then obtain fs as where h: "heap_ok B st fs as" "held_ok st held as" by blast
  have "\<not> gives B (malloc_units n) as st (0, st')" by (simp add: gives_def)
  then obtain fs' where m: "minv B st' fs' as" "\<forall>a \<in> as. usz st' a = usz st a"
    using malloc_ok(1)[OF h(1) fail(2), of G] fail(3) by auto
  then have "held_ok st' held as" using h(2) unfolding held_ok_def by auto
  then show ?case using m minv_freep[OF m(1)] by (auto simp: heap_ok_def)
next
  case (release st held r n st')
  then obtain fs as where h: "heap_ok B st fs as" "held_ok st held as" by blast
  have r: "r - 8 \<in> as" using h(2) release(2) unfolding held_ok_def by force
  then have m: "minv B st fs as" using h(1) by (auto simp: heap_ok_def split: if_splits)
  obtain fs' where m': "minv B st' fs' (as - {r - 8})" "\<forall>a \<in> as - {r - 8}. usz st' a = usz st a"
    using ufree_ok[OF m r] release(3) by auto
  let ?f = "\<lambda>h :: u32 \<times> u32. fst h - 8"
  have inj: "inj_on ?f held" and a: "as = ?f ` held" using h(2) by (simp_all add: held_ok_def)
  have im: "as - {r - 8} = ?f ` (held - {(r, n)})"
    using inj_on_image_set_diff[OF inj, of held "{(r, n)}"] release(2) a by simp
  have "held_ok st' (held - {(r, n)}) (as - {r - 8})" unfolding held_ok_def
  proof (intro conjI)
    show "inj_on ?f (held - {(r, n)})" using inj by (rule inj_on_diff)
    show "\<forall>h \<in> held - {(r, n)}. snd h \<le> MAXREQ \<and> usz st' (fst h - 8) = malloc_units (snd h)"
    proof
      fix h' assume h': "h' \<in> held - {(r, n)}"
      then have "fst h' - 8 \<in> as - {r - 8}" using im by blast
      then show "snd h' \<le> MAXREQ \<and> usz st' (fst h' - 8) = malloc_units (snd h')"
        using m'(2) h(2) h' unfolding held_ok_def by simp
    qed
  qed (rule im)
  then show ?case using m' minv_freep[OF m'(1)] by (auto simp: heap_ok_def)
qed

definition payload :: "u32 \<times> u32 \<Rightarrow> nat set" where
  "payload h = {unat (fst h) ..< unat (fst h) + unat (snd h)}"

lemma payload_in_block:
  assumes "minv B st fs as" "held_ok st held as" "h \<in> held"
  shows "unat (fst h) = unat (fst h - 8) + 8" "unat (fst h) + unat (snd h) \<le> bend st (fst h - 8)"
proof -
  let ?a = "fst h - 8"
  have a: "?a \<in> as" "snd h \<le> MAXREQ" "usz st ?a = malloc_units (snd h)" using assms(2,3) by (auto simp: held_ok_def)
  then have b: "bend st ?a < 2 ^ 31" "unat ?a < bend st ?a" using minvD(6)[OF assms(1), of ?a] by auto
  have "unat (?a + 8) = unat ?a + 8" using b by (subst unat_word_ariths) simp
  then show u: "unat (fst h) = unat ?a + 8" by simp
  have "unat (usz st ?a) = (unat (snd h) + 7) div 8 + 1" using unat_units[OF a(2)] a(3) by simp
  then show "unat (fst h) + unat (snd h) \<le> bend st ?a" using u by (simp add: bend_def)
qed

text \<open>
  C7. In every run of a program over the allocator with requests of at most 2147483632 bytes, the blocks it holds lie in the heap
  and are disjoint, \<^verbatim>\<open>malloc\<close> (of at most that many bytes) and \<^verbatim>\<open>free\<close> always return, and after a block is freed the same amount can be had again
  without more memory from the kernel.
\<close>

theorem malloc_blocks_disjoint:
  assumes "heap_run B G st held"
  shows "(\<forall>h \<in> held. \<forall>h' \<in> held. h \<noteq> h' \<longrightarrow> payload h \<inter> payload h' = {}) \<and>
    (\<forall>h \<in> held. unat B + 16 \<le> unat (fst h) \<and> unat (fst h) + unat (snd h) \<le> unat (ubrk st)) \<and>
    (\<forall>n \<le> MAXREQ. \<exists>r. malloc B G n st = Some r) \<and>
    (\<forall>h \<in> held. \<exists>st'. ufree (fst h) st = Some st' \<and>
       (\<exists>p st''. p \<noteq> 0 \<and> malloc B (\<lambda>_ _. False) (snd h) st' = Some (p, st'')))"
proof -
  obtain fs as where h: "heap_ok B st fs as" "held_ok st held as" using heap_run_inv[OF assms] by blast
  have m: "minv B st fs as" if "h' \<in> held" for h'
    using h that by (auto simp: heap_ok_def held_ok_def split: if_splits)
  have "payload h1 \<inter> payload h2 = {}" if hh: "h1 \<in> held" "h2 \<in> held" "h1 \<noteq> h2" for h1 h2
  proof -
    have "fst h1 - 8 \<noteq> fst h2 - 8" using h(2) hh unfolding held_ok_def inj_on_def by blast
    moreover have "fst h1 - 8 \<in> as" "fst h2 - 8 \<in> as" using h(2) hh by (auto simp: held_ok_def)
    ultimately have "apart st (fst h1 - 8) (fst h2 - 8)" using minvD(7)[OF m[OF hh(1)]] by blast
    then show ?thesis using payload_in_block[OF m[OF hh(1)] h(2) hh(1)] payload_in_block[OF m[OF hh(1)] h(2) hh(2)]
      by (auto simp: payload_def apart_def)
  qed
  moreover have "unat B + 16 \<le> unat (fst h') \<and> unat (fst h') + unat (snd h') \<le> unat (ubrk st)" if "h' \<in> held" for h'
  proof -
    have "fst h' - 8 \<in> as" using h(2) that by (auto simp: held_ok_def)
    then show ?thesis using minvD(6)[OF m[OF that], of "fst h' - 8"] payload_in_block[OF m[OF that] h(2) that] by auto
  qed
  moreover have "\<exists>st'. ufree (fst h') st = Some st' \<and>
       (\<exists>p st''. p \<noteq> 0 \<and> malloc B (\<lambda>_ _. False) (snd h') st' = Some (p, st''))" if hh: "h' \<in> held" for h'
  proof -
    have a: "fst h' - 8 \<in> as" "snd h' \<le> MAXREQ" "usz st (fst h' - 8) = malloc_units (snd h')"
      using h(2) hh by (auto simp: held_ok_def)
    obtain st' fs' where u: "ufree (fst h' - 8 + 8) st = Some st'" "minv B st' fs' (as - {fst h' - 8})"
      "\<exists>b \<in> set fs'. usz st (fst h' - 8) \<le> usz st' b"
      using ufree_ok[OF m[OF hh] a(1)] by blast
    have "heap_ok B st' fs' (as - {fst h' - 8})" using u(2) minv_freep[OF u(2)] by (simp add: heap_ok_def)
    from malloc_ok(2)[OF this a(2), of "\<lambda>_ _. False"] show ?thesis
      using u(1,3) a(3) by (fastforce simp: gives_def)
  qed
  ultimately show ?thesis using malloc_ok(1)[OF h(1), of _ G] by blast
qed

definition demo_heap :: umalloc_state where
  "demo_heap = \<lparr>hdr = \<lambda>_. \<lparr>h_ptr = 0, h_size = 0\<rparr>, freep = 0, ubrk = 0x2000\<rparr>"

lemmas demo_eval = malloc_def demo_heap_def malloc_units_def malloc_loop.simps[of _ _ _ "0x1000"] morecore_def
  sbrk_def ufree_def free_find.simps[of _ _ "0x1000"] join_next_def join_prev_def take_block_def Let_def
  malloc_loop.simps[of _ _ _ "0x2000"]

lemma demo_malloc:
  "\<exists>st. malloc 0x1000 (\<lambda>_ _. True) 20 demo_heap = Some (0x9FE8, st) \<and>
     freep st = 0x1000 \<and> nxt st 0x1000 = 0x2000 \<and> usz st 0x2000 = 4092"
  by (simp add: demo_eval)

lemma demo_malloc_again:
  "freep st = 0x1000 \<Longrightarrow> nxt st 0x1000 = 0x2000 \<Longrightarrow> usz st 0x2000 = 4092 \<Longrightarrow>
     \<exists>st'. malloc 0x1000 (\<lambda>_ _. True) 20 st = Some (0x9FC8, st')"
  by (simp add: demo_eval)

theorem malloc_blocks_disjoint_witness:
  "\<exists>st. heap_run 0x1000 (\<lambda>_ _. True) st {(0x9FC8, 20), (0x9FE8, 20)} \<and> payload (0x9FC8, 20) \<inter> payload (0x9FE8, 20) = {}"
proof -
  have s: "heap_run 0x1000 (\<lambda>_ _. True) demo_heap {}" by (rule start) (simp_all add: demo_heap_def)
  obtain st where st: "malloc 0x1000 (\<lambda>_ _. True) 20 demo_heap = Some (0x9FE8, st)"
    "freep st = 0x1000" "nxt st 0x1000 = 0x2000" "usz st 0x2000 = 4092" using demo_malloc by blast
  obtain st' where st': "malloc 0x1000 (\<lambda>_ _. True) 20 st = Some (0x9FC8, st')" using demo_malloc_again[OF st(2-4)] by blast
  have "heap_run 0x1000 (\<lambda>_ _. True) st {(0x9FE8, 20)}" by (rule alloc[OF s _ st(1)]) (simp_all add: MAXREQ_def)
  then have r: "heap_run 0x1000 (\<lambda>_ _. True) st' {(0x9FC8, 20), (0x9FE8, 20)}"
    by (rule alloc[OF _ _ st']) (simp_all add: MAXREQ_def)
  then show ?thesis using malloc_blocks_disjoint[OF r] by auto
qed

text \<open>
  Outside the bound: the size of the largest request wraps around to one unit, and a request of half the
  address space is granted although \<^verbatim>\<open>sbrk\<close> gave nothing.
\<close>

lemma malloc_units_wraps: "malloc_units 0xFFFFFFFF = 1"
  by (simp add: malloc_units_def)

lemma malloc_without_memory:
  "\<exists>st. malloc 0x1000 (\<lambda>_ _. False) 0x80000000 demo_heap = Some (0x2008, st) \<and> ubrk st = ubrk demo_heap"
  by (simp add: demo_eval)

end
