(* ===== verification/Spec2Isabelle.thy ===== *)
theory Spec2Isabelle
  imports Vm_Maps Trap Programs Umalloc
begin

text \<open>
  Verification of the xv6 kernel for x86 with its graphics extension (\<^verbatim>\<open>src/\<close>).

  \<^bold>\<open>How the model is built.\<close> Every kernel routine is a function from a state to an \<open>outcome\<close> (\<open>Xv6_Prelude\<close>): \<open>Ret\<close> with
  a value and the new state, \<open>Panic\<close> with the message of the kernel's \<^verbatim>\<open>panic\<close>, \<open>Block\<close> on a sleep channel, or
  \<open>Fault\<close> where the C program has no defined behaviour. \<open>bindO\<close> composes them; \<open>runs m P\<close> says that \<open>m\<close> returns and that
  \<open>P\<close> holds of the result, so every property stated with \<open>runs\<close> includes that the routine returns without a panic. The
  state is a chain of records, one per component, each extending the previous one: machine, page allocator, process
  fields, devices, console, video, buffer cache, log, inodes, open files, process table. Words keep their width. A kernel
  pointer into a table (a buffer, an inode, an open file, a process) is an index of the table; a pointer to
  memory is an address. Where the outside world acts while a routine sleeps, that is an explicit argument (\<open>envs\<close>).

  \<^bold>\<open>The parts.\<close>
  \<^item> \<open>Xv6_Prelude\<close>: outcomes, limits of \<^verbatim>\<open>param.h\<close>, sleep channels, 32-bit integers.
  \<^item> \<open>CString\<close>: \<^verbatim>\<open>string.c\<close> over byte memory, with the overlap behaviour of \<^verbatim>\<open>memmove\<close>.
  \<^item> \<open>Machine\<close>: memory, port and device-register events, regions and framing; the \<open>platform\<close> record holds what
    devices answer and where the linker puts the kernel's buffers.
  \<^item> \<open>Kalloc\<close> (\<^verbatim>\<open>kalloc.c\<close>): the free list inside the free pages. Its contract is the locale \<open>page_allocator\<close>,
    interpreted on \<open>kalloc\<close> and \<open>kfree\<close>.
  \<^item> \<open>Spinlock\<close> (\<^verbatim>\<open>spinlock.c\<close>, the processor part of \<^verbatim>\<open>proc.c\<close>): each atomic step of \<^verbatim>\<open>acquire\<close> and \<^verbatim>\<open>release\<close> and their
    interleaving on any number of processors.
  \<^item> \<open>Sleeplock\<close> (\<^verbatim>\<open>sleeplock.c\<close>): the operations and their interleaving with sleep and wakeup.
  \<^item> \<open>Sysarg\<close> (the argument part of \<^verbatim>\<open>syscall.c\<close>): fetching integers, pointers and strings from user memory.
  \<^item> \<open>Devices\<close> (\<^verbatim>\<open>kbd.c\<close>, \<^verbatim>\<open>uart.c\<close>, \<^verbatim>\<open>lapic.c\<close>, \<^verbatim>\<open>ioapic.c\<close>, \<^verbatim>\<open>picirq.c\<close>).
  \<^item> \<open>Console\<close> (\<^verbatim>\<open>console.c\<close>): output, formatting, the line discipline and reading, over the ring buffers of \<open>Ring\<close>.
  \<^item> \<open>Graphics\<close> and \<open>Vga\<close> (\<^verbatim>\<open>graphics.c\<close>, \<^verbatim>\<open>vga.c\<close>): device contexts, drawing calls, register tables, mode switching.
  \<^item> \<open>Bio\<close> and \<open>Log\<close> (\<^verbatim>\<open>bio.c\<close>, \<^verbatim>\<open>memide.c\<close>, \<^verbatim>\<open>log.c\<close>): the buffer cache over the memory disk and the write-ahead log, with the
    list of disk writes, so that a crash can cut it after any of them.
  \<^item> \<open>Fs\<close>, \<open>Fs_Files\<close>, \<open>Fs_Dirs\<close> (\<^verbatim>\<open>fs.c\<close>): the definitions, the proofs about blocks, inodes and contents, and path names.
  \<^item> \<open>File\<close> and \<open>Sysfile\<close> (\<^verbatim>\<open>file.c\<close>, \<^verbatim>\<open>pipe.c\<close>, \<^verbatim>\<open>sysfile.c\<close>): open files, pipes and the system calls on files.
  \<^item> \<open>Vm\<close> and \<open>Vm_Maps\<close> (\<^verbatim>\<open>vm.c\<close>): page tables as words of memory, and what an operation does to the translation.
  \<^item> \<open>Ptable\<close> (\<^verbatim>\<open>proc.c\<close> under \<^verbatim>\<open>ptable.lock\<close>): the process table, each critical section as a function on it and their
    interleaving \<open>psys_step\<close> on any number of processors. \<open>Proc\<close>: every call of \<^verbatim>\<open>proc.c\<close> and \<^verbatim>\<open>sysproc.c\<close> over the whole kernel
    state, composed of those critical sections; what happens while a process is away from the processor is an argument.
  \<^item> \<open>Exec\<close> (\<^verbatim>\<open>exec.c\<close>, \<^verbatim>\<open>sys_exec\<close>): the loader, from the headers in the file to the committed image and its argument stack.
  \<^item> \<open>Trap\<close> (\<^verbatim>\<open>trap.c\<close>, \<^verbatim>\<open>syscall.c\<close>): the dispatch of interrupts, faults and system calls to all of the above.
  \<^item> \<open>User\<close> (\<^verbatim>\<open>ulib.c\<close>, \<^verbatim>\<open>printf.c\<close>): the user library. The system calls a program makes are a record of functions on an abstract
    world, with what a program relies on as named hypotheses.
  \<^item> \<open>Grep\<close> (\<^verbatim>\<open>grep.c\<close>) and \<open>Programs\<close> (\<^verbatim>\<open>cat.c\<close>, \<^verbatim>\<open>wc.c\<close>, \<^verbatim>\<open>ls.c\<close> and the one-line commands): user programs over that record.
  \<^item> \<open>Umalloc\<close> (\<^verbatim>\<open>umalloc.c\<close>): the user memory allocator, its circular free list and \<^verbatim>\<open>sbrk\<close>.

  \<^bold>\<open>What the lemmas show.\<close> The allocator hands out distinct pages and takes them back; the locks exclude and lose no
  wakeup; the console delivers the edited line; drawing changes exactly the pixels it should, with the
  exceptions recorded as findings; a committed transaction is atomic under a crash at any write; blocks and inodes are
  allocated and written so that what \<^verbatim>\<open>readi\<close> returns is what \<^verbatim>\<open>writei\<close> stored; pipes are bounded queues; descriptors
  are given back on errors; page tables map what they are asked to and nothing else;
  in every interleaving the process table keeps its invariant, no exit is missed by a waiting parent, and a killed process
  does not get back to user code; \<^verbatim>\<open>grep\<close> prints exactly the lines that a declarative reading of the pattern accepts; \<^verbatim>\<open>wc\<close> counts
  what it should; and blocks from \<^verbatim>\<open>malloc\<close> are disjoint, with the freed ones joined again.

  \<^bold>\<open>Integers and devices.\<close> A C \<^verbatim>\<open>int\<close> is an integer that wraps to 32 bits (\<open>i32\<close>) wherever the code can reach the bound; a property that
  needs a counter below its bound (the nesting of \<^verbatim>\<open>pushcli\<close>, the process ids) says so. A drawing loop whose counter would pass the
  largest \<^verbatim>\<open>int\<close> is a \<open>Fault\<close>. Devices answer through the platform record; the properties that depend on an answer name what
  they need: that the two cursor registers of the display read back (\<open>cursor_chip\<close>), that the clock announces its updates
  (\<open>cmos_chip\<close>). The registers of the display chip are computed from the port writes, with the write protection of the display controller.

  \<^bold>\<open>Bounds and termination.\<close> No definition uses fuel for a loop that the C program bounds: such loops recurse on the
  counter or have a termination proof. A loop that may not end is a \<open>partial_function\<close> whose value \<open>None\<close> is not
  returning. Recursion over \<open>envs\<close> ends when the list is used up, and then the routine is still asleep.

  \<^bold>\<open>Not modelled.\<close> The assembly files (boot, entry, trap vectors, context switch) and the boot loader, whose effects are
  register state; the start-up of processors and their tables (\<^verbatim>\<open>main.c\<close>, \<^verbatim>\<open>mp.c\<close>); the segment descriptors; the disk controller
  of \<^verbatim>\<open>ide.c\<close>, which the memory disk replaces in the file system model; the test programs, which only exercise system calls; \<^verbatim>\<open>mkfs.c\<close>, which runs
  on the host. The user half of memory is the memory of the running process, so that its aliasing with the kernel's direct map of the same
  physical pages is outside the model. Below the spin locks, a critical section is one step.
\<close>

end
